(* ===== verification/Prelude.thy ===== *)
theory Prelude
  imports Main "HOL-Library.Word" "HOL-Library.AList" "HOL-Library.List_Lexorder"
    "HOL-Library.Char_ord"
begin

text \<open>
  Shared vocabulary of the development: the Rust types the model uses, the outcome of code that may
  panic, bounds-checked string slices, little-endian integers, and the generic lemmas on lists and
  maps the components share.

  A Rust \<open>str\<close> is a sequence of UTF-8 bytes; it is modelled as that sequence, an Isabelle
  \<open>string\<close> whose characters are the bytes (an Isabelle \<open>char\<close> is exactly one byte). Theory Utf8 says
  which byte sequences are valid. A \<open>Vec<u8>\<close> or \<open>&[u8]\<close> is a list of 8-bit words.
\<close>

named_theorems exec_simps \<open>equations for outcomes of code that may panic\<close>

type_synonym str = string
type_synonym u8 = "8 word"
type_synonym u16 = "16 word"
type_synonym u32 = "32 word"
type_synonym i32 = "32 word"
type_synonym u64 = "64 word"
type_synonym i64 = "64 word"
type_synonym usize = "64 word"

section \<open>Outcomes\<close>

text \<open>
  Code that may panic (a slice out of bounds or not on a character boundary, an arithmetic overflow
  in a build with overflow checks) returns an outcome.
\<close>

datatype 'a exec = Ret 'a | Panic

fun exec_bind :: "'a exec \<Rightarrow> ('a \<Rightarrow> 'b exec) \<Rightarrow> 'b exec" where
  "exec_bind (Ret x) f = f x"
| "exec_bind Panic f = Panic"

fun exec_map :: "('a \<Rightarrow> 'b) \<Rightarrow> 'a exec \<Rightarrow> 'b exec" where
  "exec_map f (Ret x) = Ret (f x)"
| "exec_map f Panic = Panic"

lemma exec_bind_eq_Ret [exec_simps]:
  "exec_bind m f = Ret y \<longleftrightarrow> (\<exists>x. m = Ret x \<and> f x = Ret y)"
  by (cases m) auto

lemma exec_map_eq_Ret [exec_simps]:
  "exec_map f m = Ret y \<longleftrightarrow> (\<exists>x. m = Ret x \<and> y = f x)"
  by (cases m) auto

lemma exec_bind_assoc: "exec_bind (exec_bind m f) g = exec_bind m (\<lambda>x. exec_bind (f x) g)"
  by (cases m) auto

section \<open>Bytes and string slices\<close>

definition byte :: "char \<Rightarrow> nat" where
  "byte c = of_char c"

lemma byte_less: "byte c < 256"
  by (simp add: byte_def)

definition as_bytes :: "str \<Rightarrow> u8 list" where
  "as_bytes s = map (\<lambda>c. word_of_nat (byte c)) s"

definition bytes_str :: "u8 list \<Rightarrow> str" where
  "bytes_str bs = map (\<lambda>b. char_of (unat b)) bs"

lemma length_as_bytes [simp]: "length (as_bytes s) = length s"
  by (simp add: as_bytes_def)

lemma length_bytes_str [simp]: "length (bytes_str bs) = length bs"
  by (simp add: bytes_str_def)

lemma unat_word_of_byte: "unat (word_of_nat (byte c) :: u8) = byte c"
  using byte_less [of c] by (simp add: unat_of_nat)

lemma bytes_str_as_bytes [simp]: "bytes_str (as_bytes s) = s"
  by (simp add: bytes_str_def as_bytes_def o_def unat_word_of_byte) (simp add: byte_def)

lemma as_bytes_bytes_str [simp]: "as_bytes (bytes_str bs) = bs"
proof -
  have "word_of_nat (byte (char_of (unat b))) = b" for b :: u8
  proof -
    have "unat b < 256" using unsigned_less [where 'b = 8 and 'a = nat, of b] by simp
    then have "byte (char_of (unat b)) = unat b" by (simp add: byte_def)
    then show ?thesis by simp
  qed
  then show ?thesis by (simp add: bytes_str_def as_bytes_def o_def)
qed

lemma as_bytes_append [simp]: "as_bytes (s @ t) = as_bytes s @ as_bytes t"
  by (simp add: as_bytes_def)

lemma as_bytes_inj [simp]: "as_bytes s = as_bytes t \<longleftrightarrow> s = t"
  by (metis bytes_str_as_bytes)

lemma as_bytes_Nil [simp]: "as_bytes [] = []"
  by (simp add: as_bytes_def)

text \<open>A UTF-8 continuation byte, and the \<open>str::is_char_boundary\<close> of the standard library.\<close>

definition is_cont :: "char \<Rightarrow> bool" where
  "is_cont c \<longleftrightarrow> 0x80 \<le> byte c \<and> byte c \<le> 0xBF"

definition is_char_boundary :: "str \<Rightarrow> nat \<Rightarrow> bool" where
  "is_char_boundary s i \<longleftrightarrow>
     i = 0 \<or> i = length s \<or> (i < length s \<and> \<not> is_cont (s ! i))"

text \<open>\<open>&s[i..j]\<close>: panics out of range, on a decreasing range and off a character boundary.\<close>

definition str_slice :: "str \<Rightarrow> nat \<Rightarrow> nat \<Rightarrow> str exec" where
  "str_slice s i j =
     (if i \<le> j \<and> j \<le> length s \<and> is_char_boundary s i \<and> is_char_boundary s j
      then Ret (take (j - i) (drop i s)) else Panic)"

text \<open>\<open>&bs[i..j]\<close> on a byte slice.\<close>

definition slice :: "'a list \<Rightarrow> nat \<Rightarrow> nat \<Rightarrow> 'a list exec" where
  "slice bs i j =
     (if i \<le> j \<and> j \<le> length bs then Ret (take (j - i) (drop i bs)) else Panic)"

lemma str_slice_suffix:
  "i \<le> length s \<Longrightarrow> is_char_boundary s i \<Longrightarrow> str_slice s i (length s) = Ret (drop i s)"
  by (simp add: str_slice_def is_char_boundary_def)

lemma str_slice_prefix:
  "j \<le> length s \<Longrightarrow> is_char_boundary s j \<Longrightarrow> str_slice s 0 j = Ret (take j s)"
  by (simp add: str_slice_def is_char_boundary_def)

lemma char_boundary_append:
  "t = [] \<or> \<not> is_cont (hd t) \<Longrightarrow> is_char_boundary (s @ t) (length s)"
  by (cases t) (auto simp: is_char_boundary_def)

lemma str_slice_mid:
  assumes "m @ b = [] \<or> \<not> is_cont (hd (m @ b))" and "b = [] \<or> \<not> is_cont (hd b)"
  shows "str_slice (a @ m @ b) (length a) (length a + length m) = Ret m"
  using char_boundary_append [of "m @ b" a] char_boundary_append [of b "a @ m"] assms
  by (simp add: str_slice_def)

text \<open>A byte below 128 is never a continuation byte, so it marks a boundary.\<close>

definition is_ascii :: "char \<Rightarrow> bool" where
  "is_ascii c \<longleftrightarrow> byte c < 128"

lemma ascii_not_cont [simp]: "is_ascii c \<Longrightarrow> \<not> is_cont c"
  by (simp add: is_ascii_def is_cont_def)

section \<open>Lists\<close>

text \<open>\<open>str::split\<close> on a separator predicate: always at least one (possibly empty) piece.\<close>

fun split_on :: "('a \<Rightarrow> bool) \<Rightarrow> 'a list \<Rightarrow> 'a list list" where
  "split_on p [] = [[]]"
| "split_on p (x # xs) =
     (if p x then [] # split_on p xs
      else (case split_on p xs of [] \<Rightarrow> [[x]] | y # ys \<Rightarrow> (x # y) # ys))"

text \<open>\<open>join\<close> with a separator string.\<close>

fun join_with :: "'a list \<Rightarrow> 'a list list \<Rightarrow> 'a list" where
  "join_with sep [] = []"
| "join_with sep [x] = x"
| "join_with sep (x # y # ys) = x @ sep @ join_with sep (y # ys)"

lemma split_on_nonempty [simp]: "split_on p xs \<noteq> []"
  by (induction xs) (auto split: list.splits)

lemma split_on_no_sep: "\<forall>x \<in> set xs. \<not> p x \<Longrightarrow> split_on p xs = [xs]"
  by (induction xs) auto

lemma split_on_append_sep:
  "p x \<Longrightarrow> split_on p (xs @ x # ys) = split_on p xs @ split_on p ys"
  by (induction xs) (auto split: list.splits)

lemma split_on_pieces: "ys \<in> set (split_on p xs) \<Longrightarrow> y \<in> set ys \<Longrightarrow> \<not> p y"
  by (induction xs arbitrary: ys) (fastforce split: list.splits if_splits)+

lemma split_on_join:
  "xss \<noteq> [] \<Longrightarrow> (\<forall>xs \<in> set xss. c \<notin> set xs) \<Longrightarrow>
   split_on (\<lambda>x. x = c) (join_with [c] xss) = xss"
proof (induction "[c]" xss rule: join_with.induct)
  case (2 x)
  then have "\<forall>z \<in> set x. \<not> z = c" by auto
  then show ?case by (simp add: split_on_no_sep)
next
  case (3 x y ys)
  then have "\<forall>z \<in> set x. \<not> z = c" by auto
  then show ?case
    using 3 by (simp add: split_on_append_sep split_on_no_sep)
qed simp

text \<open>\<open>Iterator::find\<close> followed by a map: the first element a partial function accepts.\<close>

fun find_map :: "('a \<Rightarrow> 'b option) \<Rightarrow> 'a list \<Rightarrow> 'b option" where
  "find_map f [] = None"
| "find_map f (x # xs) = (case f x of Some y \<Rightarrow> Some y | None \<Rightarrow> find_map f xs)"

lemma find_map_None_iff: "find_map f xs = None \<longleftrightarrow> (\<forall>x \<in> set xs. f x = None)"
  by (induction xs) (auto split: option.splits)

lemma find_map_SomeD: "find_map f xs = Some y \<Longrightarrow> \<exists>x \<in> set xs. f x = Some y"
  by (induction xs) (auto split: option.splits)

lemma find_map_append:
  "find_map f (xs @ ys) = (case find_map f xs of Some y \<Rightarrow> Some y | None \<Rightarrow> find_map f ys)"
  by (induction xs) (auto split: option.splits)

lemma find_map_cong:
  "(\<And>x. x \<in> set xs \<Longrightarrow> f x = g x) \<Longrightarrow> find_map f xs = find_map g xs"
  by (induction xs) (auto split: option.splits)

section \<open>Decimal numerals\<close>

text \<open>\<open>to_string\<close> and \<open>format!\<close> on an unsigned integer.\<close>

definition digit_char :: "nat \<Rightarrow> char" where
  "digit_char d = char_of (48 + d)"

fun dec_nat :: "nat \<Rightarrow> str" where
  "dec_nat n = (if n < 10 then [digit_char n] else dec_nat (n div 10) @ [digit_char (n mod 10)])"

declare dec_nat.simps [simp del]

lemma byte_digit_char: "d < 10 \<Longrightarrow> byte (digit_char d) = 48 + d"
  by (simp add: byte_def digit_char_def)

lemma digit_char_inj: "a < 10 \<Longrightarrow> b < 10 \<Longrightarrow> digit_char a = digit_char b \<longleftrightarrow> a = b"
  by (metis add_left_imp_eq byte_digit_char)

lemma dec_nat_nonempty [simp]: "dec_nat n \<noteq> []"
  by (subst dec_nat.simps) simp

lemma dec_nat_inj [simp]: "dec_nat m = dec_nat n \<longleftrightarrow> m = n"
proof
  show "dec_nat m = dec_nat n \<Longrightarrow> m = n"
  proof (induction m arbitrary: n rule: dec_nat.induct)
    case (1 m)
    note eq = 1(2) [unfolded dec_nat.simps [of m] dec_nat.simps [of n]]
    show ?case
    proof (cases "m < 10 \<or> n < 10")
      case True
      with eq have "m < 10 \<and> n < 10"
        by (auto split: if_splits) (metis dec_nat_nonempty)+
      with eq show ?thesis by (simp add: digit_char_inj)
    next
      case False
      with eq have "dec_nat (m div 10) = dec_nat (n div 10)" and "m mod 10 = n mod 10"
        by (auto simp: digit_char_inj)
      then show ?thesis using 1(1) False by (metis div_mult_mod_eq)
    qed
  qed
qed simp

section \<open>Maps as association lists\<close>

abbreviation distinct_keys :: "('k \<times> 'v) list \<Rightarrow> bool" where
  "distinct_keys m \<equiv> distinct (map fst m)"

lemma update_dom_distinct [simp]:
  "distinct (map fst (AList.update k v xs)) \<longleftrightarrow> distinct (map fst xs)"
  by (induction xs) (auto simp: dom_update)

section \<open>Simulations\<close>

text \<open>A step-wise simulation, under an invariant of the concrete states, lifted to runs.\<close>

locale simulation =
  fixes cstep :: "'s \<Rightarrow> 's \<Rightarrow> bool" and astep :: "'a \<Rightarrow> 'a \<Rightarrow> bool"
    and abs :: "'s \<Rightarrow> 'a" and good :: "'s \<Rightarrow> bool"
  assumes sim: "cstep s s' \<Longrightarrow> good s \<Longrightarrow> astep\<^sup>*\<^sup>* (abs s) (abs s')"
begin

lemma sim_run:
  "(cstep ^^ n) s0 s \<Longrightarrow> (\<And>m t. m < n \<Longrightarrow> (cstep ^^ m) s0 t \<Longrightarrow> good t) \<Longrightarrow> astep\<^sup>*\<^sup>* (abs s0) (abs s)"
proof (induction n arbitrary: s)
  case (Suc n)
  then obtain t where t: "(cstep ^^ n) s0 t" "cstep t s" by auto
  have "astep\<^sup>*\<^sup>* (abs s0) (abs t)" by (rule Suc.IH [OF t(1)]) (use Suc.prems(2) in \<open>blast intro: less_SucI\<close>)
  moreover have "astep\<^sup>*\<^sup>* (abs t) (abs s)" by (rule sim [OF t(2) Suc.prems(2) [OF lessI t(1)]])
  ultimately show ?case by (rule rtranclp_trans)
qed simp

lemma sim_reach:
  assumes "cstep\<^sup>*\<^sup>* s0 s" and "good s0" and "\<And>t u. cstep t u \<Longrightarrow> good t \<Longrightarrow> good u"
  shows "astep\<^sup>*\<^sup>* (abs s0) (abs s) \<and> good s"
  using assms(1)
proof (induction rule: rtranclp_induct)
  case (step t u)
  then show ?case using sim [of t u] assms(3) [of t u] by (blast intro: rtranclp_trans)
qed (simp add: assms(2))

end

end
