(* ===== verification/Json.thy ===== *)
theory Json
  imports Prelude
begin

text \<open>
  \<open>serde_json::Value\<close> as the program uses it. The constructors are the ones the source matches on. An
  object is the list of its entries in the iteration order of the library's map; the program never
  fixes that order, and \<open>Map::insert\<close>, which chooses it, is third-party code: it is a parameter, a
  field of the record \<open>json_lib\<close> with the serialiser, and the locale \<open>json_library\<close> states what its
  documentation promises. A number is an integer (the range checks are those of \<open>as_u64\<close> and
  \<open>as_i64\<close>) or anything else, kept as its text.
\<close>

datatype json_number = JInt int | JFloat str

datatype json =
    JNull
  | JBool bool
  | JNumber json_number
  | JString str
  | JArray "json list"
  | JObject "(str \<times> json) list"

type_synonym json_map = "(str \<times> json) list"

section \<open>Accessors\<close>

fun json_get :: "json \<Rightarrow> str \<Rightarrow> json option" where
  "json_get (JObject m) k = map_of m k"
| "json_get _ k = None"

fun as_u64 :: "json \<Rightarrow> u64 option" where
  "as_u64 (JNumber (JInt i)) = (if 0 \<le> i \<and> i < 2 ^ 64 then Some (word_of_int i) else None)"
| "as_u64 _ = None"

fun as_i64 :: "json \<Rightarrow> i64 option" where
  "as_i64 (JNumber (JInt i)) = (if - (2 ^ 63) \<le> i \<and> i < 2 ^ 63 then Some (word_of_int i) else None)"
| "as_i64 _ = None"

fun as_bool :: "json \<Rightarrow> bool option" where
  "as_bool (JBool b) = Some b"
| "as_bool _ = None"

fun as_array :: "json \<Rightarrow> json list option" where
  "as_array (JArray xs) = Some xs"
| "as_array _ = None"

fun as_object :: "json \<Rightarrow> json_map option" where
  "as_object (JObject m) = Some m"
| "as_object _ = None"

definition json_str_opt :: "str option \<Rightarrow> json" where
  "json_str_opt x = (case x of None \<Rightarrow> JNull | Some s \<Rightarrow> JString s)"

definition json_i64 :: "i64 \<Rightarrow> json" where
  "json_i64 w = JNumber (JInt (sint w))"

definition json_u64 :: "u64 \<Rightarrow> json" where
  "json_u64 w = JNumber (JInt (uint w))"

definition json_u32 :: "u32 \<Rightarrow> json" where
  "json_u32 w = JNumber (JInt (uint w))"

lemma as_i64_json_i64 [simp]: "as_i64 (json_i64 w) = Some w"
  using sint_ge [of w] sint_lt [of w] by (simp add: json_i64_def)

lemma as_u64_json_u32 [simp]: "as_u64 (json_u32 w) = Some (ucast w)"
proof -
  have "uint w < 2 ^ 64" using uint_bounded [of w] by simp
  moreover have "(word_of_int (uint w) :: u64) = ucast w" by simp
  ultimately show ?thesis unfolding json_u32_def as_u64.simps by simp
qed

section \<open>The map and the serialiser of the library\<close>

record json_lib =
  jl_insert :: "str \<Rightarrow> json \<Rightarrow> json_map \<Rightarrow> json_map"
  jl_to_string :: "json \<Rightarrow> str option"

text \<open>
  The \<open>json!\<close> macro on an object literal inserts its entries one by one into an empty map.\<close>

fun insert_all :: "json_lib \<Rightarrow> json_map \<Rightarrow> json_map \<Rightarrow> json_map" where
  "insert_all J [] m = m"
| "insert_all J ((k, v) # kvs) m = insert_all J kvs (jl_insert J k v m)"

definition json_obj :: "json_lib \<Rightarrow> json_map \<Rightarrow> json" where
  "json_obj J kvs = JObject (insert_all J kvs [])"

locale json_library =
  fixes J :: json_lib
  assumes map_of_insert: "distinct_keys m \<Longrightarrow> map_of (jl_insert J k v m) = (map_of m)(k \<mapsto> v)"
    and distinct_insert: "distinct_keys m \<Longrightarrow> distinct_keys (jl_insert J k v m)"
begin

lemma distinct_insert_all: "distinct_keys m \<Longrightarrow> distinct_keys (insert_all J kvs m)"
  by (induction kvs arbitrary: m) (auto simp: distinct_insert)

lemma map_of_insert_all:
  "distinct_keys m \<Longrightarrow> map_of (insert_all J kvs m) = map_of m ++ map_of (rev kvs)"
proof (induction kvs arbitrary: m)
  case (Cons kv kvs)
  obtain k v where kv: "kv = (k, v)" by (cases kv)
  show ?case using Cons by (simp add: kv map_of_insert distinct_insert del: fun_upd_apply)
qed simp

lemma map_of_insert_all_distinct:
  assumes "distinct_keys m" and "distinct_keys kvs"
  shows "map_of (insert_all J kvs m) = map_of m ++ map_of kvs"
proof -
  have "map_of (rev kvs) = map_of kvs"
    using assms(2) by (intro map_of_eqI) (auto simp: rev_map [symmetric])
  then show ?thesis using map_of_insert_all [OF assms(1)] by simp
qed

lemma json_get_obj:
  "distinct_keys kvs \<Longrightarrow> json_get (json_obj J kvs) k = map_of kvs k"
  using map_of_insert_all_distinct [of "[]" kvs] by (simp add: json_obj_def)

end

section \<open>Two maps that satisfy the contract\<close>

text \<open>
  The two orders serde_json documents: entries in the order of first insertion (feature
  \<open>preserve_order\<close>), or sorted by key. They are instances of the parameter, used by the witnesses.
\<close>

fun sorted_insert :: "str \<Rightarrow> json \<Rightarrow> json_map \<Rightarrow> json_map" where
  "sorted_insert k v [] = [(k, v)]"
| "sorted_insert k v ((k', v') # m) =
     (if k = k' then (k, v) # m
      else if k < k' then (k, v) # (k', v') # AList.delete k m
      else (k', v') # sorted_insert k v m)"

lemma map_of_sorted_insert: "map_of (sorted_insert k v m) = (map_of m)(k \<mapsto> v)"
  by (induction m) (auto simp: delete_conv')

lemma keys_sorted_insert: "fst ` set (sorted_insert k v m) \<subseteq> insert k (fst ` set m)"
proof (induction m)
  case (Cons e m)
  then show ?case using dom_delete_subset [of k m] by (cases e) (auto split: if_splits)
qed simp

lemma distinct_sorted_insert: "distinct_keys m \<Longrightarrow> distinct_keys (sorted_insert k v m)"
proof (induction m)
  case (Cons e m)
  obtain k' v' where e: "e = (k', v')" by (cases e)
  show ?case
    using Cons keys_sorted_insert [of k v m]
    using dom_delete_subset [of k m] delete_notin_dom [of k m]
    by (auto simp: e distinct_delete simp flip: image_set)
qed simp

text \<open>Compact output, escaping the quote and the backslash.\<close>

fun render_string :: "str \<Rightarrow> str" where
  "render_string [] = []"
| "render_string (c # s) =
     (if c = CHR 0x22 \<or> c = CHR 0x5C then CHR 0x5C # c # render_string s else c # render_string s)"

definition quoted :: "str \<Rightarrow> str" where
  "quoted s = CHR 0x22 # render_string s @ [CHR 0x22]"

definition render_int :: "int \<Rightarrow> str" where
  "render_int i = (if i < 0 then CHR ''-'' # dec_nat (nat (- i)) else dec_nat (nat i))"

fun render :: "json \<Rightarrow> str" where
  "render JNull = ''null''"
| "render (JBool b) = (if b then ''true'' else ''false'')"
| "render (JNumber (JInt i)) = render_int i"
| "render (JNumber (JFloat s)) = s"
| "render (JString s) = quoted s"
| "render (JArray xs) = ''['' @ join_with '','' (map render xs) @ '']''"
| "render (JObject m) =
     CHR 0x7B # join_with '','' (map (\<lambda>(k, v). quoted k @ '':'' @ render v) m) @ [CHR 0x7D]"

definition ordered_lib :: json_lib where
  "ordered_lib = \<lparr>jl_insert = AList.update, jl_to_string = (\<lambda>v. Some (render v))\<rparr>"

definition sorted_lib :: json_lib where
  "sorted_lib = \<lparr>jl_insert = sorted_insert, jl_to_string = (\<lambda>v. Some (render v))\<rparr>"

interpretation ordered_json: json_library ordered_lib
  by unfold_locales (auto simp: ordered_lib_def update_conv')

interpretation sorted_json: json_library sorted_lib
  by unfold_locales (auto simp: sorted_lib_def map_of_sorted_insert distinct_sorted_insert)

end
