(* ===== verification/Utf8.thy ===== *)
theory Utf8
  imports Prelude
begin

text \<open>
  The parts of the standard library's \<open>str\<close> that depend on UTF-8: \<open>std::str::from_utf8\<close>,
  \<open>str::chars\<close>, \<open>char::is_whitespace\<close>, \<open>str::split_whitespace\<close>, \<open>str::trim\<close> and
  \<open>str::lines\<close>. The encoding of one character is the list of its bytes. The locale
  \<open>utf8_validator\<close> is the contract of a validator: the code uses \<open>simdutf8\<close>, documented to accept
  exactly what the standard library accepts; the interpretation is on the standard library's.
\<close>

section \<open>Encoded characters\<close>

text \<open>The byte sequences that encode one Unicode scalar value (Unicode 15, table 3-7).\<close>

fun is_scalar :: "str \<Rightarrow> bool" where
  "is_scalar [a] = (byte a < 0x80)"
| "is_scalar [a, b] = (0xC2 \<le> byte a \<and> byte a \<le> 0xDF \<and> is_cont b)"
| "is_scalar [a, b, c] =
     (((byte a = 0xE0 \<and> 0xA0 \<le> byte b \<and> byte b \<le> 0xBF)
       \<or> (0xE1 \<le> byte a \<and> byte a \<le> 0xEC \<and> is_cont b)
       \<or> (byte a = 0xED \<and> 0x80 \<le> byte b \<and> byte b \<le> 0x9F)
       \<or> (0xEE \<le> byte a \<and> byte a \<le> 0xEF \<and> is_cont b))
      \<and> is_cont c)"
| "is_scalar [a, b, c, d] =
     (((byte a = 0xF0 \<and> 0x90 \<le> byte b \<and> byte b \<le> 0xBF)
       \<or> (0xF1 \<le> byte a \<and> byte a \<le> 0xF3 \<and> is_cont b)
       \<or> (byte a = 0xF4 \<and> 0x80 \<le> byte b \<and> byte b \<le> 0x8F))
      \<and> is_cont c \<and> is_cont d)"
| "is_scalar _ = False"

definition utf8_width :: "char \<Rightarrow> nat" where
  "utf8_width a = (if byte a < 0x80 then 1 else if byte a < 0xE0 then 2
                   else if byte a < 0xF0 then 3 else 4)"

lemma utf8_width_pos: "0 < utf8_width a"
  by (simp add: utf8_width_def)

text \<open>\<open>str::chars\<close> on bytes not yet known to be valid: \<open>None\<close> when they are not UTF-8.\<close>

function utf8_chars :: "str \<Rightarrow> str list option" where
  "utf8_chars [] = Some []"
| "utf8_chars (a # s) =
     (if is_scalar (take (utf8_width a) (a # s))
      then map_option ((#) (take (utf8_width a) (a # s))) (utf8_chars (drop (utf8_width a) (a # s)))
      else None)"
  by pat_completeness auto
termination
  by (relation "measure length") (auto simp: utf8_width_pos)

declare utf8_chars.simps(2) [simp del]

definition valid_utf8 :: "str \<Rightarrow> bool" where
  "valid_utf8 s \<longleftrightarrow> utf8_chars s \<noteq> None"

definition str_chars :: "str \<Rightarrow> str list" where
  "str_chars s = (case utf8_chars s of Some cs \<Rightarrow> cs | None \<Rightarrow> [])"

definition from_utf8 :: "u8 list \<Rightarrow> str option" where
  "from_utf8 bs = (if valid_utf8 (bytes_str bs) then Some (bytes_str bs) else None)"

lemma is_scalar_shape:
  assumes "is_scalar c"
  obtains a cs where "c = a # cs" "\<not> is_cont a" "\<forall>b \<in> set cs. is_cont b" "utf8_width a = length c"
  using assms
  by (cases c rule: is_scalar.cases) (auto simp: is_cont_def utf8_width_def)

lemma utf8_chars_concat:
  "\<forall>c \<in> set cs. is_scalar c \<Longrightarrow> utf8_chars (concat cs) = Some cs"
proof (induction cs)
  case (Cons c cs)
  then have "is_scalar c" by simp
  then obtain a as where "c = a # as" "utf8_width a = length c"
    by (auto elim: is_scalar_shape)
  with Cons show ?case by (simp add: utf8_chars.simps(2))
qed simp

lemma utf8_chars_Some_imp:
  "utf8_chars s = Some cs \<Longrightarrow> s = concat cs \<and> (\<forall>c \<in> set cs. is_scalar c)"
proof (induction s arbitrary: cs rule: utf8_chars.induct)
  case (2 a s)
  then obtain cs' where sc: "is_scalar (take (utf8_width a) (a # s))"
    and rest: "utf8_chars (drop (utf8_width a) (a # s)) = Some cs'"
    and cs: "cs = take (utf8_width a) (a # s) # cs'"
    by (auto simp: utf8_chars.simps(2) split: if_splits)
  from 2(1) [OF sc rest] sc show ?case
    by (simp add: cs) (metis append_take_drop_id)
qed simp

lemma utf8_chars_Some_iff:
  "utf8_chars s = Some cs \<longleftrightarrow> s = concat cs \<and> (\<forall>c \<in> set cs. is_scalar c)"
  using utf8_chars_Some_imp utf8_chars_concat by blast

lemma valid_utf8_iff: "valid_utf8 s \<longleftrightarrow> (\<exists>cs. s = concat cs \<and> (\<forall>c \<in> set cs. is_scalar c))"
  by (auto simp: valid_utf8_def utf8_chars_Some_iff)

lemma valid_utf8_Nil [simp]: "valid_utf8 []"
  by (simp add: valid_utf8_def)

lemma valid_utf8_append: "valid_utf8 s \<Longrightarrow> valid_utf8 t \<Longrightarrow> valid_utf8 (s @ t)"
  unfolding valid_utf8_iff by (metis Un_iff concat_append set_append)

lemma valid_utf8_ascii: "\<forall>c \<in> set s. is_ascii c \<Longrightarrow> valid_utf8 s"
  unfolding valid_utf8_iff
  by (rule exI [of _ "map (\<lambda>c. [c]) s"]) (auto simp: is_ascii_def)

lemma valid_utf8_split:
  assumes "valid_utf8 (s @ t)" and "t = [] \<or> \<not> is_cont (hd t)"
  shows "valid_utf8 s \<and> valid_utf8 t"
proof -
  have "s @ t = concat cs \<Longrightarrow> \<forall>c \<in> set cs. is_scalar c \<Longrightarrow> valid_utf8 s \<and> valid_utf8 t" for cs
    using assms(2)
  proof (induction cs arbitrary: s)
    case (Cons c cs)
    have c: "is_scalar c" and cs: "\<forall>d \<in> set cs. is_scalar d" using Cons.prems by auto
    have vc: "valid_utf8 c" "valid_utf8 (concat cs)"
      using c cs unfolding valid_utf8_iff by (metis concat.simps append_Nil2 empty_iff
          list.set(1) set_ConsD, blast)
    from Cons.prems(1) consider us where "s = c @ us" "us @ t = concat cs"
      | us where "c = s @ us" "t = us @ concat cs"
      by (auto simp: append_eq_append_conv2)
    then show ?case
    proof cases
      case 1
      with Cons.IH [of us] cs Cons.prems(3) vc show ?thesis
        by (simp add: valid_utf8_append)
    next
      case 2
      show ?thesis
      proof (cases "us = [] \<or> s = []")
        case True
        with 2 vc show ?thesis by (auto simp: valid_utf8_append)
      next
        case False
        then have "\<not> is_cont (hd us)" using 2 Cons.prems(3) by auto
        moreover have "hd us \<in> set (tl c)" using False 2 by (cases s) auto
        ultimately show ?thesis using c by (auto elim!: is_scalar_shape)
      qed
    qed
  qed simp
  with assms(1) show ?thesis unfolding valid_utf8_iff by blast
qed

lemma valid_utf8_take_drop:
  assumes "valid_utf8 s" and "is_char_boundary s i"
  shows "valid_utf8 (take i s) \<and> valid_utf8 (drop i s)"
proof -
  consider "i = 0" | "i = length s" | "i < length s" "\<not> is_cont (s ! i)"
    using assms(2) by (auto simp: is_char_boundary_def)
  then show ?thesis
  proof cases
    case 3
    then show ?thesis
      using valid_utf8_split [of "take i s" "drop i s"] assms(1) by (simp add: hd_drop_conv_nth)
  qed (use assms(1) in auto)
qed

lemma str_slice_valid: "str_slice s i j = Ret r \<Longrightarrow> valid_utf8 s \<Longrightarrow> valid_utf8 r"
proof -
  assume r: "str_slice s i j = Ret r" and s: "valid_utf8 s"
  then have ij: "i \<le> j" "j \<le> length s" "is_char_boundary s i" "is_char_boundary s j"
    and r': "r = take (j - i) (drop i s)"
    by (auto simp: str_slice_def split: if_splits)
  have "valid_utf8 (drop i s)" using s ij by (simp add: valid_utf8_take_drop)
  moreover have "is_char_boundary (drop i s) (j - i)"
    using ij by (auto simp: is_char_boundary_def)
  ultimately show ?thesis unfolding r' by (simp add: valid_utf8_take_drop)
qed

lemma valid_utf8_hd: "valid_utf8 (c # s) \<Longrightarrow> \<not> is_cont c"
proof
  assume "valid_utf8 (c # s)" "is_cont c"
  then have "is_scalar (take (utf8_width c) (c # s))"
    by (auto simp: valid_utf8_def utf8_chars.simps(2) split: if_splits)
  then show False
    using \<open>is_cont c\<close> utf8_width_pos [of c] by (auto elim!: is_scalar_shape simp: take_Cons')
qed

lemma valid_utf8_Cons_ascii: "is_ascii c \<Longrightarrow> valid_utf8 (c # s) \<longleftrightarrow> valid_utf8 s"
  by (simp add: valid_utf8_def utf8_chars.simps(2) is_ascii_def utf8_width_def)

lemma valid_utf8_append_iff:
  "valid_utf8 t \<Longrightarrow> valid_utf8 (s @ t) \<longleftrightarrow> valid_utf8 s"
  using valid_utf8_split [of s t] valid_utf8_append valid_utf8_hd [of "hd t" "tl t"]
  by (cases t) auto

section \<open>White space\<close>

fun scalar_value :: "str \<Rightarrow> nat" where
  "scalar_value [a] = byte a"
| "scalar_value [a, b] = (byte a - 0xC0) * 64 + (byte b - 0x80)"
| "scalar_value [a, b, c] = ((byte a - 0xE0) * 64 + (byte b - 0x80)) * 64 + (byte c - 0x80)"
| "scalar_value [a, b, c, d] =
     (((byte a - 0xF0) * 64 + (byte b - 0x80)) * 64 + (byte c - 0x80)) * 64 + (byte d - 0x80)"
| "scalar_value _ = 0"

text \<open>\<open>char::is_whitespace\<close>: the code points with the property \<open>White_Space\<close>.\<close>

definition is_whitespace :: "str \<Rightarrow> bool" where
  "is_whitespace c =
     (let n = scalar_value c
      in (9 \<le> n \<and> n \<le> 13) \<or> n = 32 \<or> n = 0x85 \<or> n = 0xA0 \<or> n = 0x1680
         \<or> (0x2000 \<le> n \<and> n \<le> 0x200A) \<or> n = 0x2028 \<or> n = 0x2029 \<or> n = 0x202F
         \<or> n = 0x205F \<or> n = 0x3000)"

definition split_whitespace :: "str \<Rightarrow> str list" where
  "split_whitespace s =
     map concat (filter (\<lambda>p. p \<noteq> []) (split_on is_whitespace (str_chars s)))"

definition trim :: "str \<Rightarrow> str" where
  "trim s =
     concat (rev (dropWhile is_whitespace (rev (dropWhile is_whitespace (str_chars s)))))"

text \<open>
  \<open>str::lines\<close>: pieces ended by a line feed lose it and one carriage return before it; a last piece
  with no line feed is kept as it is, and dropped when empty.
\<close>

definition strip_cr :: "str \<Rightarrow> str" where
  "strip_cr l = (if l \<noteq> [] \<and> last l = CHR 0x0D then butlast l else l)"

definition str_lines :: "str \<Rightarrow> str list" where
  "str_lines s =
     (let ps = split_on (\<lambda>c. c = CHR 0x0A) s
      in map strip_cr (butlast ps) @ (if last ps = [] then [] else [last ps]))"

lemma str_chars_ascii: "\<forall>c \<in> set s. is_ascii c \<Longrightarrow> str_chars s = map (\<lambda>c. [c]) s"
proof -
  assume "\<forall>c \<in> set s. is_ascii c"
  then have "utf8_chars (concat (map (\<lambda>c. [c]) s)) = Some (map (\<lambda>c. [c]) s)"
    by (intro utf8_chars_concat) (auto simp: is_ascii_def)
  then show ?thesis by (simp add: str_chars_def)
qed

lemma concat_str_chars: "valid_utf8 s \<Longrightarrow> concat (str_chars s) = s"
  by (auto simp: valid_utf8_def str_chars_def dest: utf8_chars_Some_imp)

lemma str_chars_concat: "\<forall>c \<in> set cs. is_scalar c \<Longrightarrow> str_chars (concat cs) = cs"
  by (simp add: str_chars_def utf8_chars_concat)

lemma str_chars_scalar: "c \<in> set (str_chars s) \<Longrightarrow> is_scalar c"
  by (cases "utf8_chars s") (auto simp: str_chars_def dest: utf8_chars_Some_imp)

section \<open>The validator interface\<close>

locale utf8_validator =
  fixes validate :: "u8 list \<Rightarrow> str option"
  assumes validate_accepts: "valid_utf8 s \<Longrightarrow> validate (as_bytes s) = Some s"
    and validate_sound: "validate bs = Some s \<Longrightarrow> as_bytes s = bs \<and> valid_utf8 s"
begin

lemma validate_iff: "validate bs = Some s \<longleftrightarrow> bs = as_bytes s \<and> valid_utf8 s"
  using validate_accepts validate_sound by blast

lemma validate_rejects: "\<not> valid_utf8 (bytes_str bs) \<Longrightarrow> validate bs = None"
  using validate_sound by (metis bytes_str_as_bytes not_None_eq)

end

interpretation std_utf8: utf8_validator from_utf8
  by unfold_locales (auto simp: from_utf8_def split: if_splits)

end
