(* ===== verification/Types.thy ===== *)
theory Types
  imports Json Utf8
begin

text \<open>
  \<open>src/types.rs\<close>: the RPC envelope, the activity event the server broadcasts towards the bridge, the
  IPC handshake payload and the IPC opcodes. The JSON decoders that serde derives for them are
  generated code: they are the parameters of \<open>wire_lib\<close>.
\<close>

record rpc_message =
  msg_cmd :: str
  msg_data :: json
  msg_evt :: "str option"
  msg_nonce :: "str option"
  msg_args :: "json option"

text \<open>\<open>RpcMessage::default()\<close>.\<close>

definition rpc_default :: rpc_message where
  "rpc_default = \<lparr>msg_cmd = [], msg_data = JNull, msg_evt = None, msg_nonce = None, msg_args = None\<rparr>"

record activity_event =
  ev_activity :: "json option"
  ev_pid :: "u32 option"
  ev_socket_id :: u64

record handshake =
  hs_v :: u32
  hs_client_id :: str

datatype ipc_opcode = OpHandshake | OpFrame | OpClose | OpPing | OpPong

text \<open>The discriminants of the \<open>repr(i32)\<close> enumeration, read by \<open>as i32\<close>.\<close>

fun opcode_i32 :: "ipc_opcode \<Rightarrow> i32" where
  "opcode_i32 OpHandshake = 0"
| "opcode_i32 OpFrame = 1"
| "opcode_i32 OpClose = 2"
| "opcode_i32 OpPing = 3"
| "opcode_i32 OpPong = 4"

definition from_i32 :: "i32 \<Rightarrow> ipc_opcode option" where
  "from_i32 v =
     (if v = 0 then Some OpHandshake
      else if v = 1 then Some OpFrame
      else if v = 2 then Some OpClose
      else if v = 3 then Some OpPing
      else if v = 4 then Some OpPong
      else None)"

text \<open>
  The five opcodes as a finite enumeration ordered by discriminant: quantifiers over opcodes are
  then decided by evaluation.
\<close>

instantiation ipc_opcode :: enum
begin

definition enum_ipc_opcode :: "ipc_opcode list" where
  "enum_ipc_opcode = [OpHandshake, OpFrame, OpClose, OpPing, OpPong]"

definition enum_all_ipc_opcode :: "(ipc_opcode \<Rightarrow> bool) \<Rightarrow> bool" where
  "enum_all_ipc_opcode P = (P OpHandshake \<and> P OpFrame \<and> P OpClose \<and> P OpPing \<and> P OpPong)"

definition enum_ex_ipc_opcode :: "(ipc_opcode \<Rightarrow> bool) \<Rightarrow> bool" where
  "enum_ex_ipc_opcode P = (P OpHandshake \<or> P OpFrame \<or> P OpClose \<or> P OpPing \<or> P OpPong)"

instance
proof
  have all: "x = OpHandshake \<or> x = OpFrame \<or> x = OpClose \<or> x = OpPing \<or> x = OpPong" for x
    by (cases x) auto
  show "(UNIV :: ipc_opcode set) = set enum_class.enum"
    using all by (auto simp: enum_ipc_opcode_def)
  show "distinct (enum_class.enum :: ipc_opcode list)"
    by (simp add: enum_ipc_opcode_def)
  show "enum_class.enum_all P = Ball UNIV P" for P :: "ipc_opcode \<Rightarrow> bool"
    using all by (metis UNIV_I enum_all_ipc_opcode_def)
  show "enum_class.enum_ex P = Bex UNIV P" for P :: "ipc_opcode \<Rightarrow> bool"
    using all by (metis UNIV_I enum_ex_ipc_opcode_def)
qed

end

lemma from_opcode_i32 [simp]: "from_i32 (opcode_i32 op) = Some op"
  by (cases op) (simp_all add: from_i32_def)

lemma from_i32_SomeD: "from_i32 v = Some op \<Longrightarrow> v = opcode_i32 op"
  by (auto simp: from_i32_def split: if_splits)

text \<open>
  The opcode decoder is the partial inverse of the wire discriminants: an integer decodes
  to an opcode exactly when it is that opcode's discriminant, and every opcode survives the trip.
\<close>

theorem from_i32_iff: "from_i32 v = Some op \<longleftrightarrow> v = opcode_i32 op"
  using from_i32_SomeD by auto

lemma from_i32_None_iff: "from_i32 v = None \<longleftrightarrow> v \<notin> range opcode_i32"
proof
  show "from_i32 v = None \<Longrightarrow> v \<notin> range opcode_i32" by auto
  show "v \<notin> range opcode_i32 \<Longrightarrow> from_i32 v = None"
    using from_i32_SomeD by (cases "from_i32 v") auto
qed

section \<open>Decoders generated by serde\<close>

text \<open>
  \<open>serde_json::from_slice\<close> at the types the transports read, and \<open>simdutf8::basic::from_utf8\<close>.
\<close>

record wire_lib =
  wl_rpc :: "u8 list \<Rightarrow> rpc_message option"
  wl_handshake :: "u8 list \<Rightarrow> handshake option"

end
