(* ===== verification/Ipc_Codec.thy ===== *)
theory Ipc_Codec
  imports Types
begin

text \<open>
  The frame codec of \<open>src/transports/ipc.rs\<close>: \<open>encode\<close>, \<open>decode\<close> and \<open>read_frame\<close>. A frame is a 4-byte
  little-endian opcode, a 4-byte little-endian length and the payload. The model keeps the widths:
  \<open>len as i32\<close> truncates, \<open>i32 as usize\<close> sign-extends to the 64-bit \<open>usize\<close>, \<open>8 + length\<close> overflows
  (a panic with overflow checks, a wrap without). The async reader is the list of bytes the peer
  will still send before it closes.
\<close>

section \<open>Little-endian words\<close>

definition to_le_bytes :: "32 word \<Rightarrow> u8 list" where
  "to_le_bytes w = map (\<lambda>i. word_of_nat (unat w div 256 ^ i)) [0, 1, 2, 3]"

fun from_le_bytes :: "u8 list \<Rightarrow> 32 word" where
  "from_le_bytes [a, b, c, d] =
     word_of_nat (unat a + 256 * unat b + 65536 * unat c + 16777216 * unat d)"
| "from_le_bytes _ = 0"

lemma length_to_le_bytes [simp]: "length (to_le_bytes w) = 4"
  by (simp add: to_le_bytes_def)

lemma le_digits:
  fixes n :: nat
  assumes "n < 4294967296"
  shows "n mod 256 + 256 * (n div 256 mod 256) + 65536 * (n div 65536 mod 256)
      + 16777216 * (n div 16777216 mod 256) = n"
proof -
  define p q r where "p = n div 256" and "q = p div 256" and "r = q div 256"
  have e: "n div 65536 = q" "n div 16777216 = r"
    by (simp_all add: p_def q_def r_def flip: div_mult2_eq)
  have "r < 256" using assms by (simp add: p_def q_def r_def flip: div_mult2_eq)
  moreover have "n = 256 * p + n mod 256" "p = 256 * q + p mod 256" "q = 256 * r + q mod 256"
    by (simp_all add: p_def q_def r_def)
  ultimately show ?thesis unfolding e p_def [symmetric] by simp
qed

lemma le_digits_unique:
  fixes a b c d :: nat
  assumes "a < 256" "b < 256" "c < 256" "d < 256"
  defines "n \<equiv> a + 256 * b + 65536 * c + 16777216 * d"
  shows "n mod 256 = a" "n div 256 mod 256 = b" "n div 65536 mod 256 = c" "n div 16777216 mod 256 = d"
proof -
  have h: "n = a + 256 * (b + 256 * (c + 256 * d))" by (simp add: n_def)
  have e: "n div 65536 = n div 256 div 256" "n div 16777216 = n div 256 div 256 div 256"
    by (simp_all flip: div_mult2_eq)
  have low: "x < 256 \<Longrightarrow> (x + 256 * k) mod 256 = x \<and> (x + 256 * k) div 256 = k" for x k :: nat
    by simp
  show "n mod 256 = a" "n div 256 mod 256 = b" "n div 65536 mod 256 = c" "n div 16777216 mod 256 = d"
    unfolding e unfolding h by (simp_all only: low [OF assms(1)] low [OF assms(2)]
        low [OF assms(3)] mod_less [OF assms(4)])
qed

lemma to_le_bytes_eq:
  "to_le_bytes w = [word_of_nat (unat w), word_of_nat (unat w div 256),
     word_of_nat (unat w div 65536), word_of_nat (unat w div 16777216)]"
  by (simp add: to_le_bytes_def)

lemma from_to_le_bytes [simp]: "from_le_bytes (to_le_bytes w) = w"
proof -
  have n: "unat w < 4294967296" using unsigned_less [where 'b = 32 and 'a = nat, of w] by simp
  have m: "unat (word_of_nat k :: u8) = k mod 256" for k by (simp add: unat_of_nat)
  have "from_le_bytes (to_le_bytes w) = word_of_nat (unat w)"
    by (simp only: to_le_bytes_eq from_le_bytes.simps m le_digits [OF n])
  then show ?thesis by simp
qed

lemma u8_eqI: "k mod 256 = unat x \<Longrightarrow> word_of_nat k = (x :: u8)"
  by (rule unsigned_word_eqI [where 'a = nat]) (simp add: unat_of_nat)

lemma to_from_le_bytes: "length bs = 4 \<Longrightarrow> to_le_bytes (from_le_bytes bs) = bs"
proof -
  assume "length bs = 4"
  then obtain a b c d where bs: "bs = [a, b, c, d]"
    by (auto simp: eval_nat_numeral length_Suc_conv)
  have lt: "unat x < 256" for x :: u8 using unsigned_less [where 'b = 8 and 'a = nat, of x] by simp
  let ?n = "unat a + 256 * unat b + 65536 * unat c + 16777216 * unat d"
  have n: "?n < 4294967296" using lt [of a] lt [of b] lt [of c] lt [of d] by simp
  have u: "unat (word_of_nat ?n :: 32 word) = ?n" using n by (simp add: unat_of_nat del: of_nat_add)
  show ?thesis
    unfolding bs to_le_bytes_eq from_le_bytes.simps u
    using le_digits_unique [OF lt lt lt lt, of a b c d] by (simp add: u8_eqI del: of_nat_add)
qed

section \<open>encode and decode\<close>

definition encode :: "i32 \<Rightarrow> str \<Rightarrow> u8 list" where
  "encode opcode data =
     (let bytes = as_bytes data;
          len = (word_of_nat (length bytes) :: i32)
      in to_le_bytes opcode @ to_le_bytes len @ bytes)"

text \<open>
  \<open>a + b\<close> on \<open>usize\<close>: with overflow checks (\<open>ovf\<close>, a debug build) it panics, without it wraps.
\<close>

definition usize_add :: "bool \<Rightarrow> usize \<Rightarrow> usize \<Rightarrow> usize exec" where
  "usize_add ovf a b = (if ovf \<and> 2 ^ 64 \<le> unat a + unat b then Panic else Ret (a + b))"

text \<open>The cast \<open>as usize\<close> of an \<open>i32\<close> sign-extends.\<close>

definition i32_as_usize :: "i32 \<Rightarrow> usize" where
  "i32_as_usize w = word_of_int (sint w)"

definition decode :: "bool \<Rightarrow> (u8 list \<Rightarrow> str option) \<Rightarrow> u8 list \<Rightarrow> (i32 \<times> str) option exec" where
  "decode ovf validate data =
     (if length data < 8 then Ret None
      else
        let opcode = from_le_bytes (take 4 data);
            len = i32_as_usize (from_le_bytes (take 4 (drop 4 data)))
        in exec_bind (usize_add ovf 8 len) (\<lambda>end.
             if length data < unat end then Ret None
             else exec_bind (slice data 8 (unat end)) (\<lambda>body.
               case validate body of
                 None \<Rightarrow> Ret None
               | Some s \<Rightarrow> Ret (Some (opcode, s)))))"

lemma length_encode [simp]: "length (encode opcode data) = 8 + length data"
  by (simp add: encode_def Let_def)

text \<open>The length field of a frame, as the signed integer \<open>decode\<close> reads.\<close>

definition length_field :: "u8 list \<Rightarrow> int" where
  "length_field data = sint (from_le_bytes (take 4 (drop 4 data)))"

lemma unat_i32_as_usize:
  "unat (i32_as_usize w) = (if sint w < 0 then nat (2 ^ 64 + sint w) else nat (sint w))"
proof -
  have r: "- 2147483648 \<le> sint w" "sint w < 2147483648"
    using sint_ge [of w] sint_lt [of w] by simp_all
  have u: "unat (i32_as_usize w) = nat (sint w mod 18446744073709551616)"
    unfolding i32_as_usize_def unat_eq_nat_uint by (simp only: uint_word_of_int) simp
  show ?thesis
  proof (cases "sint w < 0")
    case True
    have "sint w mod 18446744073709551616 = (18446744073709551616 + sint w) mod 18446744073709551616"
      by simp
    also have "\<dots> = 18446744073709551616 + sint w" using r True by (intro mod_pos_pos_trivial) auto
    finally show ?thesis using u True by simp
  next
    case False
    then show ?thesis using u r by simp
  qed
qed

text \<open>
  The sum \<open>8 + length\<close> for each sign of the length field: a length of at least -8 below zero wraps
  to a small end, a smaller one gives an end no slice reaches.
\<close>

lemma end_nonneg:
  fixes w :: "32 word"
  assumes "0 \<le> sint w"
  shows "usize_add ovf 8 (i32_as_usize w) = Ret (8 + i32_as_usize w)" and "unat (8 + i32_as_usize w) = 8 + nat (sint w)"
proof -
  have l: "unat (i32_as_usize w) = nat (sint w)" "sint w < 2147483648"
    using unat_i32_as_usize [of w] assms sint_lt [of w] by auto
  have lt: "unat (8 :: usize) + unat (i32_as_usize w) < 2 ^ 64"
    using l by simp
  then show "usize_add ovf 8 (i32_as_usize w) = Ret (8 + i32_as_usize w)" by (simp add: usize_add_def)
  show "unat (8 + i32_as_usize w) = 8 + nat (sint w)"
    using lt l by (simp add: unat_word_ariths)
qed

lemma end_wraps:
  fixes w :: "32 word"
  assumes "sint w < 0" and "- 8 \<le> sint w"
  shows "usize_add ovf 8 (i32_as_usize w) = (if ovf then Panic else Ret (8 + i32_as_usize w))"
    and "unat (8 + i32_as_usize w) < 8"
proof -
  have l: "unat (i32_as_usize w) = nat (2 ^ 64 + sint w)" using unat_i32_as_usize [of w] assms by simp
  then have ge: "2 ^ 64 \<le> unat (8 :: usize) + unat (i32_as_usize w)" using assms by simp
  then show "usize_add ovf 8 (i32_as_usize w) = (if ovf then Panic else Ret (8 + i32_as_usize w))"
    by (simp add: usize_add_def)
  have "unat (8 + i32_as_usize w) = (8 + unat (i32_as_usize w)) mod 2 ^ 64"
    by (simp add: unat_word_ariths)
  also have "\<dots> = 8 + unat (i32_as_usize w) - 2 ^ 64" using ge l assms by (simp add: mod_if)
  finally show "unat (8 + i32_as_usize w) < 8" using l assms by simp
qed

lemma end_out_of_reach:
  fixes w :: "32 word"
  assumes "sint w < - 8"
  shows "usize_add ovf 8 (i32_as_usize w) = Ret (8 + i32_as_usize w)" and "2 ^ 63 \<le> unat (8 + i32_as_usize w)"
proof -
  have l: "unat (i32_as_usize w) = nat (2 ^ 64 + sint w)" using unat_i32_as_usize [of w] assms by simp
  then have lt: "unat (8 :: usize) + unat (i32_as_usize w) < 2 ^ 64" using assms by simp
  then show "usize_add ovf 8 (i32_as_usize w) = Ret (8 + i32_as_usize w)" by (simp add: usize_add_def)
  have "unat (8 + i32_as_usize w) = 8 + unat (i32_as_usize w)"
    using lt by (simp add: unat_word_ariths)
  then show "2 ^ 63 \<le> unat (8 + i32_as_usize w)" using l sint_ge [of w] by simp
qed

text \<open>\<open>decode\<close> by the sign of the length field.\<close>

lemma decode_nonneg:
  assumes "8 \<le> length data" and "0 \<le> length_field data"
  shows "decode ovf validate data =
    (if length data < 8 + nat (length_field data) then Ret None
     else Ret (map_option (Pair (from_le_bytes (take 4 data)))
            (validate (take (nat (length_field data)) (drop 8 data)))))"
  using assms end_nonneg [of "from_le_bytes (take 4 (drop 4 data))"]
  by (auto simp: decode_def Let_def length_field_def slice_def split: option.splits)

lemma decode_negative:
  assumes "8 \<le> length data" and "length data < 2 ^ 63" and "length_field data < 0"
  shows "decode ovf validate data = (if - 8 \<le> length_field data then Panic else Ret None)"
proof (cases "- 8 \<le> length_field data")
  case True
  with assms end_wraps [of "from_le_bytes (take 4 (drop 4 data))"] show ?thesis
    by (auto simp: decode_def Let_def length_field_def slice_def)
next
  case False
  with assms end_out_of_reach [of "from_le_bytes (take 4 (drop 4 data))"] show ?thesis
    by (auto simp: decode_def Let_def length_field_def)
qed

lemma take_encode [simp]: "take 4 (encode opcode data @ rest) = to_le_bytes opcode"
  by (simp add: encode_def Let_def)

lemma length_field_encode [simp]:
  "length data < 2 ^ 31 \<Longrightarrow> length_field (encode opcode data @ rest) = int (length data)"
  by (simp add: length_field_def encode_def Let_def signed_of_nat signed_take_bit_int_eq_self)

lemma body_encode [simp]: "take (length data) (drop 8 (encode opcode data @ rest)) = as_bytes data"
  by (simp add: encode_def Let_def)

lemma split_frame:
  "bs = take 4 bs @ take 4 (drop 4 bs) @ take n (drop 8 bs) @ drop (8 + n) bs"
proof -
  have "drop (8 + n) bs = drop n (drop 8 bs)" by (simp add: add.commute)
  then have "take n (drop 8 bs) @ drop (8 + n) bs = drop 8 bs"
    by (simp only: append_take_drop_id)
  moreover have "drop 8 bs = drop 4 (drop 4 bs)" by simp
  ultimately have "take 4 (drop 4 bs) @ take n (drop 8 bs) @ drop (8 + n) bs = drop 4 bs"
    by (metis append_take_drop_id)
  then show ?thesis by simp
qed

context utf8_validator
begin

lemma decode_encode_rest:
  assumes "valid_utf8 data" and "length data < 2 ^ 31"
  shows "decode ovf validate (encode opcode data @ rest) = Ret (Some (opcode, data))"
proof -
  have "decode ovf validate (encode opcode data @ rest)
      = Ret (map_option (Pair opcode) (validate (as_bytes data)))"
    using assms(2) by (subst decode_nonneg) (simp_all del: take_append drop_append)
  then show ?thesis using assms(1) by (simp add: validate_accepts)
qed

lemma decode_SomeD:
  assumes "decode ovf validate bs = Ret (Some (opcode, data))" and "length bs < 2 ^ 63"
  shows "valid_utf8 data \<and> length data < 2 ^ 31 \<and> (\<exists>rest. bs = encode opcode data @ rest)"
proof -
  have len: "8 \<le> length bs" using assms(1) by (auto simp: decode_def split: if_splits)
  have nn: "0 \<le> length_field bs"
    using assms decode_negative [OF len assms(2), of ovf validate]
    by (cases "length_field bs < 0") (auto split: if_splits)
  let ?n = "nat (length_field bs)"
  have ok: "8 + ?n \<le> length bs" "opcode = from_le_bytes (take 4 bs)"
      "validate (take ?n (drop 8 bs)) = Some data"
    using assms(1) unfolding decode_nonneg [OF len nn] by (auto split: if_splits)
  have body: "as_bytes data = take ?n (drop 8 bs)" and v: "valid_utf8 data"
    using validate_sound [OF ok(3)] by auto
  have "length (as_bytes data) = ?n" unfolding body using ok(1) by simp
  then have n: "length data = ?n" by simp
  have lf: "sint (from_le_bytes (take 4 (drop 4 bs))) = int ?n"
    using nn by (simp add: length_field_def)
  have "word_of_int (int ?n) = from_le_bytes (take 4 (drop 4 bs))"
    unfolding lf [symmetric] by simp
  then have "word_of_nat ?n = from_le_bytes (take 4 (drop 4 bs))" by (simp only: of_int_of_nat_eq)
  then have "to_le_bytes (word_of_nat ?n) = take 4 (drop 4 bs)"
    using len by (simp add: to_from_le_bytes)
  moreover have "to_le_bytes opcode = take 4 bs" using len ok(2) by (simp add: to_from_le_bytes)
  moreover have "bs = take 4 bs @ take 4 (drop 4 bs) @ take ?n (drop 8 bs) @ drop (8 + ?n) bs"
    by (rule split_frame)
  ultimately have "bs = encode opcode data @ drop (8 + ?n) bs"
    unfolding encode_def Let_def length_as_bytes n body [symmetric] by simp
  moreover have "?n < 2 ^ 31"
    using nn sint_lt [of "from_le_bytes (take 4 (drop 4 bs))"] by (simp add: length_field_def)
  ultimately show ?thesis using v n by auto
qed

end

section \<open>read_frame\<close>

datatype io_error = UnexpectedEof

definition read_exact :: "nat \<Rightarrow> u8 list \<Rightarrow> io_error + (u8 list \<times> u8 list)" where
  "read_exact n input = (if length input < n then Inl UnexpectedEof else Inr (take n input, drop n input))"

text \<open>
  The length is read as a \<open>u32\<close>; \<open>usize::try_from\<close> cannot fail on a 64-bit target.
\<close>

definition read_frame :: "u8 list \<Rightarrow> io_error + ((i32 \<times> u8 list) \<times> u8 list)" where
  "read_frame input =
     (case read_exact 8 input of
        Inl e \<Rightarrow> Inl e
      | Inr (header, input1) \<Rightarrow>
          (let opcode = from_le_bytes (take 4 header);
               len = unat (from_le_bytes (drop 4 header))
           in case read_exact len input1 of
                Inl e \<Rightarrow> Inl e
              | Inr (body, input2) \<Rightarrow> Inr ((opcode, body), input2)))"

text \<open>Calling \<open>read_frame\<close> until the peer's bytes run out.\<close>

lemma read_frame_shrinks: "read_frame input = Inr (f, rest) \<Longrightarrow> length rest + 8 \<le> length input"
  by (auto simp: read_frame_def read_exact_def Let_def split: if_splits)

function read_frames :: "u8 list \<Rightarrow> (i32 \<times> u8 list) list" where
  "read_frames input =
     (case read_frame input of Inl e \<Rightarrow> [] | Inr (f, rest) \<Rightarrow> f # read_frames rest)"
  by pat_completeness auto
termination
  by (relation "measure length") (auto dest: read_frame_shrinks)

declare read_frames.simps [simp del]

lemma read_frame_encode [simp]:
  "length data < 2 ^ 32 \<Longrightarrow>
   read_frame (encode opcode data @ rest) = Inr ((opcode, as_bytes data), rest)"
  by (simp add: read_frame_def read_exact_def encode_def Let_def unat_of_nat)

lemma read_frame_short: "length input < 8 \<Longrightarrow> read_frame input = Inl UnexpectedEof"
  by (simp add: read_frame_def read_exact_def)

lemma read_frames_step: "read_frame input = Inr (f, rest) \<Longrightarrow> read_frames input = f # read_frames rest"
  by (simp add: read_frames.simps)

lemma read_frames_encode:
  "\<forall>f \<in> set fs. length (snd f) < 2 ^ 32 \<Longrightarrow>
   read_frames (concat (map (\<lambda>(op, s). encode op s) fs) @ rest)
     = map (\<lambda>(op, s). (op, as_bytes s)) fs @ read_frames rest"
proof (induction fs)
  case (Cons f fs)
  then show ?case by (cases f) (simp add: read_frames_step [OF read_frame_encode])
qed simp

section \<open>Properties\<close>

text \<open>
  Claim C27. Encoding then decoding gives back the opcode and the payload, whatever follows the frame
  in the buffer and whether or not overflow is checked, for every valid UTF-8 payload below 2 GiB and
  every validator that accepts exactly UTF-8.
\<close>

theorem decode_encode:
  assumes "utf8_validator v" and "valid_utf8 data" and "length data < 2 ^ 31"
  shows "decode ovf v (encode opcode data @ rest) = Ret (Some (opcode, data))"
  using utf8_validator.decode_encode_rest [OF assms] .

theorem decode_encode_witness:
  "decode True from_utf8 (encode 1 ''hi'' @ [7]) = Ret (Some (1, ''hi''))"
  by (rule decode_encode [OF std_utf8.utf8_validator_axioms])
    (simp_all add: valid_utf8_ascii is_ascii_def byte_def)

text \<open>
  Whatever \<open>decode\<close> returns was encoded: the buffer starts with the encoding of the opcode
  and the payload it returns, and the payload is valid UTF-8 below 2 GiB.
\<close>

theorem decode_sound:
  assumes "utf8_validator v" and "length bs < 2 ^ 63"
    and "decode ovf v bs = Ret (Some (opcode, data))"
  shows "valid_utf8 data \<and> length data < 2 ^ 31 \<and> (\<exists>rest. bs = encode opcode data @ rest)"
  using utf8_validator.decode_SomeD [OF assms(1,3,2)] .

theorem decode_sound_witness:
  "valid_utf8 ''a'' \<and> length ''a'' < 2 ^ 31 \<and> (\<exists>rest. encode 3 ''a'' @ [] = encode 3 ''a'' @ rest)"
proof (rule decode_sound [OF std_utf8.utf8_validator_axioms])
  show "decode False from_utf8 (encode 3 ''a'' @ []) = Ret (Some (3, ''a''))"
    by (rule std_utf8.decode_encode_rest) (simp_all add: valid_utf8_ascii is_ascii_def byte_def)
qed simp

text \<open>
  Claim C28. Exactly which buffers make \<open>decode\<close> panic: those with a full header whose length field,
  read as a signed integer, lies between -8 and -1. Then \<open>8 + length\<close> overflows, which panics in a
  checked build and otherwise gives a slice range that ends before it starts. Every other negative
  length is refused with \<open>None\<close>.
\<close>

theorem decode_panics_iff:
  assumes "length bs < 2 ^ 63"
  shows "decode ovf v bs = Panic \<longleftrightarrow>
    8 \<le> length bs \<and> - 8 \<le> length_field bs \<and> length_field bs < 0"
proof (cases "8 \<le> length bs")
  case True
  then show ?thesis
    using decode_negative [OF True assms] decode_nonneg [OF True]
    by (cases "length_field bs < 0") (auto split: if_splits)
next
  case False
  then show ?thesis by (simp add: decode_def)
qed

theorem decode_panics_iff_witness:
  "decode False from_utf8 [1, 0, 0, 0, 255, 255, 255, 255] = Panic"
  by (subst decode_panics_iff) (simp_all add: length_field_def)

text \<open>
  Claim C24. Framing over a byte stream: reading frames from the concatenation of encoded frames
  returns exactly those frames in order, then goes on with what follows; payloads may be up to 4 GiB,
  since the reader takes the length as unsigned.
\<close>

theorem read_frames_stream:
  assumes "\<forall>f \<in> set fs. length (snd f) < 2 ^ 32"
  shows "read_frames (concat (map (\<lambda>(op, s). encode op s) fs) @ rest)
     = map (\<lambda>(op, s). (op, as_bytes s)) fs @ read_frames rest"
  using assms by (rule read_frames_encode)

theorem read_frames_stream_witness:
  "read_frames (concat (map (\<lambda>(op, s). encode op s) [(0, ''{}''), (3, [])]) @ [1, 0])
     = map (\<lambda>(op, s). (op, as_bytes s)) [(0, ''{}''), (3, [])] @ read_frames [1, 0]"
  by (rule read_frames_stream) simp

end
