(* ===== verification/Server.thy ===== *)
theory Server
  imports Types
begin

text \<open>
  \<open>src/server.rs\<close>: \<open>ServerState\<close> (socket ids, the registry of per-socket senders, the activity
  broadcast) and \<open>handle_message\<close>, which turns an RPC command into at most one broadcast event and an
  optional JSON response.

  The response senders are bounded channels. A channel lives in a store and is known by its number, since
  the registry and the connection task share it. The activity broadcast is the log of the events sent, in
  order; a receiver is a position in that log (theory Bridge). The clock readings of the two calls of
  \<open>maybe_to_ms\<close> are arguments.
\<close>

section \<open>State\<close>

definition READY_PAYLOAD :: str where
  \<open>READY_PAYLOAD = ''{"cmd":"DISPATCH","data":{"v":1,"config":{"cdn_host":"cdn.discordapp.com","api_endpoint":"//discord.com/api","environment":"production"},"user":{"id":"1045800378228281345","username":"arrpc","discriminator":"0","global_name":"arRPC","avatar":"cfefa4d9839fb4bdf030f91c2a13e95c","avatar_decoration_data":null,"bot":false,"flags":0,"premium_type":0}},"evt":"READY","nonce":null}''\<close>

definition SOCKET_QUEUE_CAPACITY :: nat where
  "SOCKET_QUEUE_CAPACITY = 128"

record channel =
  ch_queue :: "str list"
  ch_closed :: bool

record server_state =
  next_socket_id :: u64
  activity_tx :: "activity_event list"
  sockets :: "u64 \<rightharpoonup> nat"
  channels :: "nat \<rightharpoonup> channel"

definition server_new :: server_state where
  "server_new =
     \<lparr>next_socket_id = 1, activity_tx = [], sockets = Map.empty, channels = Map.empty\<rparr>"

definition next_id :: "server_state \<Rightarrow> u64 \<times> server_state" where
  "next_id st = (next_socket_id st, st\<lparr>next_socket_id := next_socket_id st + 1\<rparr>)"

definition send_activity :: "activity_event \<Rightarrow> server_state \<Rightarrow> server_state" where
  "send_activity ev st = st\<lparr>activity_tx := activity_tx st @ [ev]\<rparr>"

definition register_socket :: "u64 \<Rightarrow> nat \<Rightarrow> server_state \<Rightarrow> server_state" where
  "register_socket socket_id tx st = st\<lparr>sockets := (sockets st)(socket_id \<mapsto> tx)\<rparr>"

definition unregister_socket :: "u64 \<Rightarrow> server_state \<Rightarrow> server_state" where
  "unregister_socket socket_id st =
     send_activity \<lparr>ev_activity = None, ev_pid = None, ev_socket_id = socket_id\<rparr>
       (st\<lparr>sockets := (sockets st)(socket_id := None)\<rparr>)"

text \<open>
  The operations of the bounded channel of tokio: \<open>mpsc::channel(128)\<close>, \<open>try_send\<close>, \<open>try_recv\<close> and the
  drop of the receiver.
\<close>

definition open_channel :: "nat \<Rightarrow> server_state \<Rightarrow> server_state" where
  "open_channel tx st = st\<lparr>channels := (channels st)(tx \<mapsto> \<lparr>ch_queue = [], ch_closed = False\<rparr>)\<rparr>"

datatype try_send_error = Full str | Closed str

definition try_send :: "nat \<Rightarrow> str \<Rightarrow> server_state \<Rightarrow> (try_send_error + unit) \<times> server_state" where
  "try_send tx msg st =
     (case channels st tx of
        None \<Rightarrow> (Inl (Closed msg), st)
      | Some ch \<Rightarrow>
          if ch_closed ch then (Inl (Closed msg), st)
          else if SOCKET_QUEUE_CAPACITY \<le> length (ch_queue ch) then (Inl (Full msg), st)
          else (Inr (), st\<lparr>channels := (channels st)(tx \<mapsto> ch\<lparr>ch_queue := ch_queue ch @ [msg]\<rparr>)\<rparr>))"

definition try_recv :: "nat \<Rightarrow> server_state \<Rightarrow> str option \<times> server_state" where
  "try_recv tx st =
     (case channels st tx of
        None \<Rightarrow> (None, st)
      | Some ch \<Rightarrow>
          (case ch_queue ch of
             [] \<Rightarrow> (None, st)
           | m # q \<Rightarrow> (Some m, st\<lparr>channels := (channels st)(tx \<mapsto> ch\<lparr>ch_queue := q\<rparr>)\<rparr>)))"

definition drop_receiver :: "nat \<Rightarrow> server_state \<Rightarrow> server_state" where
  "drop_receiver tx st =
     (case channels st tx of
        None \<Rightarrow> st
      | Some ch \<Rightarrow> st\<lparr>channels := (channels st)(tx \<mapsto> ch\<lparr>ch_queue := [], ch_closed := True\<rparr>)\<rparr>)"

text \<open>A full or closed queue drops the message; the error is only logged.\<close>

definition send_to_socket :: "u64 \<Rightarrow> str \<Rightarrow> server_state \<Rightarrow> server_state" where
  "send_to_socket socket_id msg st =
     (case sockets st socket_id of
        None \<Rightarrow> st
      | Some tx \<Rightarrow>
          (case try_send tx msg st of
             (Inl (Full payload), st1) \<Rightarrow> st1
           | (Inl (Closed payload), st1) \<Rightarrow> st1
           | (Inr _, st1) \<Rightarrow> st1))"

section \<open>Timestamps\<close>

fun ilog10 :: "nat \<Rightarrow> nat" where
  "ilog10 n = (if n < 10 then 0 else Suc (ilog10 (n div 10)))"

declare ilog10.simps [simp del]

definition digit_count :: "u64 \<Rightarrow> nat" where
  "digit_count n = (if n = 0 then 1 else ilog10 (unat n) + 1)"

definition unsigned_abs :: "i64 \<Rightarrow> u64" where
  "unsigned_abs i = (if sint i < 0 then - i else i)"

text \<open>
  The subtraction saturates. The product overflows when it leaves the signed range: a panic with
  overflow checks (\<open>ovf\<close>), a wrap-around without.
\<close>

definition i64_mul :: "bool \<Rightarrow> i64 \<Rightarrow> i64 \<Rightarrow> i64 exec" where
  "i64_mul ovf a b =
     (if ovf \<and> \<not> (- (2 ^ 63) \<le> sint a * sint b \<and> sint a * sint b < 2 ^ 63) then Panic
      else Ret (a * b))"

definition maybe_to_ms :: "bool \<Rightarrow> i64 \<Rightarrow> i64 \<Rightarrow> i64 exec" where
  "maybe_to_ms ovf now_ms ts =
     (let now_digits = digit_count (unsigned_abs now_ms);
          ts_digits = digit_count (unsigned_abs ts)
      in if now_digits - ts_digits > 2 then i64_mul ovf ts 1000 else Ret ts)"

section \<open>The activity\<close>

text \<open>The labels and urls of the buttons, in order.\<close>

fun button_lists :: "json list \<Rightarrow> json list \<Rightarrow> json list \<Rightarrow> json list \<times> json list" where
  "button_lists [] labels urls = (labels, urls)"
| "button_lists (button # buttons) labels urls =
     button_lists buttons
       (case json_get button ''label'' of Some l \<Rightarrow> labels @ [l] | None \<Rightarrow> labels)
       (case json_get button ''url'' of Some u \<Rightarrow> urls @ [u] | None \<Rightarrow> urls)"

definition map_buttons :: "json_lib \<Rightarrow> json_map \<Rightarrow> json list option \<times> json_map" where
  "map_buttons J canonical =
     (case Option.bind (map_of canonical ''buttons'') as_array of
        None \<Rightarrow> (None, [])
      | Some buttons \<Rightarrow>
          (let (labels, urls) = button_lists buttons [] []
           in if labels \<noteq> [] then (Some labels, jl_insert J ''button_urls'' (JArray urls) [])
              else (None, [])))"

definition convert_field :: "json_lib \<Rightarrow> bool \<Rightarrow> i64 \<Rightarrow> str \<Rightarrow> json_map \<Rightarrow> json_map exec" where
  "convert_field J ovf now field ts_obj =
     (case Option.bind (map_of ts_obj field) as_i64 of
        None \<Rightarrow> Ret ts_obj
      | Some t \<Rightarrow> exec_map (\<lambda>ms. jl_insert J field (json_i64 ms) ts_obj) (maybe_to_ms ovf now t))"

text \<open>\<open>get_mut\<close> gives the value in place: the entry keeps its position.\<close>

definition convert_timestamps ::
  "json_lib \<Rightarrow> bool \<Rightarrow> i64 \<times> i64 \<Rightarrow> json_map \<Rightarrow> json_map exec" where
  "convert_timestamps J ovf clock canonical =
     (case Option.bind (map_of canonical ''timestamps'') as_object of
        None \<Rightarrow> Ret canonical
      | Some ts_obj \<Rightarrow>
          exec_bind (convert_field J ovf (fst clock) ''start'' ts_obj) (\<lambda>ts1.
          exec_map (\<lambda>ts2. AList.update ''timestamps'' (JObject ts2) canonical)
            (convert_field J ovf (snd clock) ''end'' ts1)))"

definition base_fields :: "str \<Rightarrow> json_map \<Rightarrow> u64 \<Rightarrow> json_map" where
  "base_fields client_id metadata flags =
     [(''application_id'', JString client_id), (''type'', json_u32 0),
      (''metadata'', JObject metadata), (''flags'', json_u64 flags)]"

definition build_full :: "json_lib \<Rightarrow> str \<Rightarrow> json_map \<Rightarrow> json list option \<Rightarrow> json_map \<Rightarrow> json_map" where
  "build_full J client_id canonical button_labels metadata =
     (let inst = (case Option.bind (map_of canonical ''instance'') as_bool of Some b \<Rightarrow> b | None \<Rightarrow> False);
          flags = (if inst then 1 else 0);
          full = insert_all J (base_fields client_id metadata flags) [];
          full = insert_all J canonical full
      in (case button_labels of
            Some labels \<Rightarrow> jl_insert J ''buttons'' (JArray labels) full
          | None \<Rightarrow> full))"

definition resp_fields :: "str \<Rightarrow> json_map" where
  "resp_fields client_id =
     [(''name'', JString []), (''application_id'', JString client_id), (''type'', json_u32 0)]"

section \<open>\<open>handle_message\<close>\<close>

definition respond :: "json_lib \<Rightarrow> rpc_message \<Rightarrow> json \<Rightarrow> json \<Rightarrow> str option" where
  "respond J msg data evt =
     jl_to_string J
       (json_obj J [(''cmd'', JString (msg_cmd msg)), (''data'', data), (''evt'', evt),
                    (''nonce'', json_str_opt (msg_nonce msg))])"

definition event_pid :: "json \<Rightarrow> u32 option" where
  "event_pid args = map_option ucast (Option.bind (json_get args ''pid'') as_u64)"

definition set_activity ::
  "json_lib \<Rightarrow> bool \<Rightarrow> i64 \<times> i64 \<Rightarrow> u64 \<Rightarrow> str \<Rightarrow> rpc_message \<Rightarrow> server_state
   \<Rightarrow> (str option \<times> server_state) exec" where
  "set_activity J ovf clock socket_id client_id msg st =
     (let args = (case msg_args msg of Some a \<Rightarrow> a | None \<Rightarrow> JNull);
          pid = event_pid args;
          activity = json_get args ''activity''
      in case activity of
           None \<Rightarrow> Ret (respond J msg JNull JNull,
             send_activity \<lparr>ev_activity = None, ev_pid = pid, ev_socket_id = socket_id\<rparr> st)
         | Some JNull \<Rightarrow> Ret (respond J msg JNull JNull,
             send_activity \<lparr>ev_activity = None, ev_pid = pid, ev_socket_id = socket_id\<rparr> st)
         | Some raw_activity \<Rightarrow>
             (let canonical0 = (case as_object raw_activity of Some m \<Rightarrow> m | None \<Rightarrow> []);
                  (button_labels, metadata) = map_buttons J canonical0
              in exec_bind (convert_timestamps J ovf clock canonical0) (\<lambda>canonical.
                   (let full = build_full J client_id canonical button_labels metadata;
                        st1 = send_activity \<lparr>ev_activity = Some (JObject full), ev_pid = pid,
                                             ev_socket_id = socket_id\<rparr> st;
                        resp_data = insert_all J (resp_fields client_id) canonical
                    in Ret (respond J msg (JObject resp_data) JNull, st1)))))"

definition handle_message ::
  "json_lib \<Rightarrow> bool \<Rightarrow> i64 \<times> i64 \<Rightarrow> u64 \<Rightarrow> str \<Rightarrow> rpc_message \<Rightarrow> server_state
   \<Rightarrow> (str option \<times> server_state) exec" where
  "handle_message J ovf clock socket_id client_id msg st =
     (if msg_cmd msg = ''SET_ACTIVITY'' then set_activity J ovf clock socket_id client_id msg st
      else if msg_cmd msg = ''CONNECTIONS_CALLBACK'' then
        Ret (respond J msg (json_obj J [(''code'', JNumber (JInt 1000))]) (JString ''ERROR''), st)
      else if msg_cmd msg = ''INVITE_BROWSER'' then Ret (None, st)
      else if msg_cmd msg = ''GUILD_TEMPLATE_BROWSER'' then Ret (None, st)
      else if msg_cmd msg = ''DEEP_LINK'' then Ret (None, st)
      else Ret (None, st))"

end
