(* ===== verification/Server_Spec.thy ===== *)
theory Server_Spec
  imports Server "HOL-Library.Sublist"
begin

text \<open>
  What the server promises: the timestamp heuristic in closed form, the effect of every RPC command on
  the broadcast and on the response, the socket identifiers, and the invariant of the channel store under
  any interleaving of the operations.
\<close>

section \<open>Timestamps\<close>

lemma ilog10_bounds: "0 < n \<Longrightarrow> 10 ^ ilog10 n \<le> n \<and> n < 10 ^ (ilog10 n + 1)"
proof (induction n rule: ilog10.induct)
  case (1 n)
  show ?case
  proof (cases "n < 10")
    case True
    then show ?thesis using 1 by (subst (1 2) ilog10.simps) simp
  next
    case False
    then have i: "ilog10 n = Suc (ilog10 (n div 10))" by (subst ilog10.simps) simp
    have b: "10 ^ ilog10 (n div 10) \<le> n div 10 \<and> n div 10 < 10 ^ (ilog10 (n div 10) + 1)"
      using 1 False by simp
    have "n div 10 * 10 \<le> n" and "n < (n div 10 + 1) * 10" by simp_all
    with b show ?thesis unfolding i by (auto simp: less_eq_Suc_le elim!: order.trans [rotated])
  qed
qed

lemma digits_le_iff:
  "0 < k \<Longrightarrow> digit_count w \<le> k \<longleftrightarrow> unat w < 10 ^ k"
proof (cases "w = 0")
  case False
  then have p: "0 < unat w" by (simp add: unat_gt_0)
  note b = ilog10_bounds [OF p]
  show "0 < k \<Longrightarrow> ?thesis"
  proof
    assume "digit_count w \<le> k"
    then have "(10::nat) ^ (ilog10 (unat w) + 1) \<le> 10 ^ k"
      using False by (intro power_increasing) (simp_all add: digit_count_def)
    with b show "unat w < 10 ^ k" by simp
  next
    assume "unat w < 10 ^ k"
    with b have "(10::nat) ^ ilog10 (unat w) < 10 ^ k" by linarith
    then show "digit_count w \<le> k"
      using False by (simp add: digit_count_def power_strict_increasing_iff Suc_le_eq)
  qed
qed (simp add: digit_count_def)

lemma sint_range: "- (2 ^ 63) \<le> sint (i :: i64) \<and> sint i < 2 ^ 63"
  using sint_ge [of i] sint_lt [of i] by simp

lemma unat_unsigned_abs: "int (unat (unsigned_abs i)) = \<bar>sint i\<bar>"
proof -
  have w: "int (unat (word_of_int k :: u64)) = k" if "0 \<le> k" "k < 2 ^ 64" for k :: int
    using that by (simp add: unsigned_of_int take_bit_eq_mod)
  have "unsigned_abs i = word_of_int \<bar>sint i\<bar>"
    by (simp add: unsigned_abs_def abs_if)
  then show ?thesis using sint_range [of i] w [of "\<bar>sint i\<bar>"] by (simp add: abs_if)
qed

text \<open>The limit below which a timestamp counts as seconds: \<open>10 ^ (digits of the clock - 3)\<close>.\<close>

definition seconds_limit :: "i64 \<Rightarrow> int" where
  "seconds_limit now_ms = 10 ^ (digit_count (unsigned_abs now_ms) - 3)"

definition ms_of :: "i64 \<Rightarrow> i64 \<Rightarrow> i64" where
  "ms_of now_ms ts = (if \<bar>sint ts\<bar> < seconds_limit now_ms then ts * 1000 else ts)"

definition clock_ok :: "i64 \<Rightarrow> bool" where
  "clock_ok now_ms \<longleftrightarrow> \<bar>sint now_ms\<bar> < 10 ^ 18"

lemma abs_less_pow: "\<bar>sint i\<bar> < 10 ^ k \<longleftrightarrow> unat (unsigned_abs i) < 10 ^ k"
  unfolding unat_unsigned_abs [symmetric] by (metis of_nat_less_iff of_nat_numeral of_nat_power)

lemma clock_digits: "clock_ok now \<Longrightarrow> digit_count (unsigned_abs now) \<le> 18"
proof -
  assume "clock_ok now"
  then have "unat (unsigned_abs now) < 10 ^ 18" by (simp only: clock_ok_def abs_less_pow)
  then show ?thesis by (subst digits_le_iff) simp_all
qed

text \<open>A clock of thirteen digits: any time between 2001 and 2286.\<close>

lemma seconds_limit_13:
  assumes "10 ^ 12 \<le> \<bar>sint now\<bar>" and "\<bar>sint now\<bar> < 10 ^ 13"
  shows "seconds_limit now = 10 ^ 10"
proof -
  have "digit_count (unsigned_abs now) \<le> 13"
    using assms(2) abs_less_pow [of now 13] by (subst digits_le_iff) auto
  moreover have "\<not> digit_count (unsigned_abs now) \<le> 12"
    using assms(1) abs_less_pow [of now 12] by (subst digits_le_iff) auto
  ultimately have "digit_count (unsigned_abs now) = 13" by linarith
  then show ?thesis by (simp add: seconds_limit_def)
qed

lemma seconds_bound: "clock_ok now \<Longrightarrow> seconds_limit now \<le> 10 ^ 15"
proof -
  assume "clock_ok now"
  then have "digit_count (unsigned_abs now) - 3 \<le> 15" using clock_digits by fastforce
  then show ?thesis unfolding seconds_limit_def by (rule power_increasing) simp
qed

lemma small_product: "\<bar>sint ts\<bar> < 10 ^ 15 \<Longrightarrow> sint (ts * 1000 :: i64) = sint ts * 1000"
proof -
  assume "\<bar>sint ts\<bar> < 10 ^ 15"
  moreover have "ts * 1000 = word_of_int (sint ts * 1000)" by simp
  ultimately show ?thesis
    by (simp only: signed_of_int) (simp add: signed_take_bit_int_eq_self)
qed

lemma maybe_to_ms_eq:
  assumes "clock_ok now"
  shows "maybe_to_ms ovf now ts = Ret (ms_of now ts)"
proof -
  let ?D = "digit_count (unsigned_abs now)" and ?t = "digit_count (unsigned_abs ts)"
  have t: "0 < ?t" by (simp add: digit_count_def)
  show ?thesis
  proof (cases "3 < ?D")
    case True
    then have c: "?D - ?t > 2 \<longleftrightarrow> \<bar>sint ts\<bar> < seconds_limit now"
      using digits_le_iff [of "?D - 3" "unsigned_abs ts"] by (auto simp: seconds_limit_def abs_less_pow)
    show ?thesis
      using seconds_bound [OF assms] by (auto simp: maybe_to_ms_def i64_mul_def ms_of_def c)
  next
    case False
    then have "\<not> ?D - ?t > 2" and "seconds_limit now = 1" using t by (auto simp: seconds_limit_def)
    moreover have "\<bar>sint ts\<bar> < 1 \<Longrightarrow> ts = 0" by (simp add: signed_eq_0_iff)
    ultimately show ?thesis by (auto simp: maybe_to_ms_def ms_of_def)
  qed
qed


text \<open>
  Claim C38. While the clock is below \<open>10 ^ 18\<close> milliseconds the heuristic never overflows: a timestamp
  whose magnitude has at least three digits fewer than the clock is multiplied by 1000, without
  wrap-around, and any other one is kept.
\<close>

theorem maybe_to_ms_spec:
  assumes "clock_ok now"
  shows "\<exists>r. maybe_to_ms ovf now ts = Ret r
    \<and> sint r = (if \<bar>sint ts\<bar> < seconds_limit now then 1000 * sint ts else sint ts)"
  using small_product [of ts] seconds_bound [OF assms]
  by (auto simp: maybe_to_ms_eq [OF assms] ms_of_def)

theorem maybe_to_ms_spec_witness:
  "\<exists>r. maybe_to_ms True 1700000000000 1699999999 = Ret r
    \<and> sint r = (if \<bar>sint (1699999999 :: i64)\<bar> < seconds_limit 1700000000000
        then 1000 * sint (1699999999 :: i64) else sint (1699999999 :: i64))"
  by (rule maybe_to_ms_spec) (simp add: clock_ok_def)

text \<open>
  Converting twice is converting once, whatever clocks of the same number of digits the two
  calls read, except for small non-zero timestamps: from a thousandth of the limit on, the result of the
  first conversion is recognised as milliseconds.
\<close>

theorem maybe_to_ms_idempotent:
  assumes "clock_ok now" and "clock_ok now'" and "seconds_limit now = seconds_limit now'"
    and "seconds_limit now \<le> 1000 * \<bar>sint ts\<bar> \<or> ts = 0"
    and "maybe_to_ms ovf now ts = Ret r"
  shows "maybe_to_ms ovf now' r = Ret r"
proof -
  have r: "r = ms_of now ts" using assms(5) by (simp add: maybe_to_ms_eq [OF assms(1)])
  have "\<bar>sint ts\<bar> < seconds_limit now \<Longrightarrow> sint (ts * 1000) = sint ts * 1000"
    using small_product [of ts] seconds_bound [OF assms(1)] by simp
  then have "ms_of now' r = r" using assms(3,4) by (auto simp: r ms_of_def)
  then show ?thesis by (simp add: maybe_to_ms_eq [OF assms(2)])
qed

theorem maybe_to_ms_idempotent_witness:
  "maybe_to_ms True 1700000000000 1699999999 = Ret 1699999999000
   \<and> maybe_to_ms True 1700000005000 1699999999000 = Ret 1699999999000"
proof -
  have l: "seconds_limit 1700000000000 = 10 ^ 10" "seconds_limit 1700000005000 = 10 ^ 10"
    by (simp_all add: seconds_limit_13)
  have a: "maybe_to_ms True 1700000000000 1699999999 = Ret 1699999999000"
    by (simp add: maybe_to_ms_eq clock_ok_def ms_of_def l)
  have "maybe_to_ms True 1700000005000 1699999999000 = Ret 1699999999000"
    by (rule maybe_to_ms_idempotent [OF _ _ _ _ a]) (simp_all add: clock_ok_def l)
  with a show ?thesis ..
qed

section \<open>Effects of a command\<close>

lemma convert_field_Ret:
  "clock_ok now \<Longrightarrow> convert_field J ovf now field ts_obj =
    Ret (case Option.bind (map_of ts_obj field) as_i64 of
      None \<Rightarrow> ts_obj | Some t \<Rightarrow> jl_insert J field (json_i64 (ms_of now t)) ts_obj)"
  by (simp add: convert_field_def maybe_to_ms_eq split: option.splits)

lemma convert_timestamps_Ret:
  "clock_ok (fst clock) \<Longrightarrow> clock_ok (snd clock) \<Longrightarrow>
   \<exists>c. convert_timestamps J ovf clock canonical = Ret c"
  by (simp add: convert_timestamps_def convert_field_Ret split: option.splits)

definition the_activity :: "rpc_message \<Rightarrow> json option" where
  "the_activity msg = json_get (case msg_args msg of Some a \<Rightarrow> a | None \<Rightarrow> JNull) ''activity''"

definition msg_pid :: "rpc_message \<Rightarrow> u32 option" where
  "msg_pid msg = event_pid (case msg_args msg of Some a \<Rightarrow> a | None \<Rightarrow> JNull)"

lemma set_activity_clear:
  "the_activity msg = None \<or> the_activity msg = Some JNull \<Longrightarrow>
   set_activity J ovf clock socket_id client_id msg st = Ret (respond J msg JNull JNull,
     send_activity \<lparr>ev_activity = None, ev_pid = msg_pid msg, ev_socket_id = socket_id\<rparr> st)"
  by (auto simp: set_activity_def the_activity_def msg_pid_def Let_def)

lemma set_activity_some:
  assumes "the_activity msg = Some a" and "a \<noteq> JNull"
    and "canonical0 = (case as_object a of Some m \<Rightarrow> m | None \<Rightarrow> [])"
    and "convert_timestamps J ovf clock canonical0 = Ret canonical"
  shows "set_activity J ovf clock socket_id client_id msg st =
    Ret (respond J msg (JObject (insert_all J (resp_fields client_id) canonical)) JNull,
      send_activity
        \<lparr>ev_activity = Some (JObject (build_full J client_id canonical
           (fst (map_buttons J canonical0)) (snd (map_buttons J canonical0)))),
         ev_pid = msg_pid msg, ev_socket_id = socket_id\<rparr> st)"
  using assms
  by (cases a) (simp_all add: set_activity_def the_activity_def msg_pid_def Let_def case_prod_unfold)

lemma set_activity_effect:
  assumes "clock_ok (fst clock)" and "clock_ok (snd clock)"
  shows "\<exists>r ev. set_activity J ovf clock socket_id client_id msg st = Ret (r, send_activity ev st)
    \<and> ev_socket_id ev = socket_id \<and> ev_pid ev = msg_pid msg
    \<and> (ev_activity ev = None \<longleftrightarrow> the_activity msg = None \<or> the_activity msg = Some JNull)"
proof (cases "the_activity msg = None \<or> the_activity msg = Some JNull")
  case True
  then show ?thesis
    by (intro exI [of _ "respond J msg JNull JNull"]
        exI [of _ "\<lparr>ev_activity = None, ev_pid = msg_pid msg, ev_socket_id = socket_id\<rparr>"])
      (simp add: set_activity_clear)
next
  case False
  then obtain a where a: "the_activity msg = Some a" "a \<noteq> JNull" by auto
  obtain c where "convert_timestamps J ovf clock (case as_object a of Some m \<Rightarrow> m | None \<Rightarrow> []) = Ret c"
    using convert_timestamps_Ret [OF assms] by blast
  from set_activity_some [OF a refl this] show ?thesis using False by fastforce
qed

text \<open>
  Claim C8. No RPC message makes the server panic while the clock is below \<open>10 ^ 18\<close> milliseconds.
  \<open>SET_ACTIVITY\<close> broadcasts exactly one event, with the sender's socket id, and a null activity exactly
  when the message has none; any other command broadcasts nothing. Nothing else of the state changes.
\<close>

theorem handle_message_effects:
  assumes "clock_ok (fst clock)" and "clock_ok (snd clock)"
  shows "\<exists>r evs. handle_message J ovf clock socket_id client_id msg st
      = Ret (r, st\<lparr>activity_tx := activity_tx st @ evs\<rparr>)
    \<and> (if msg_cmd msg = ''SET_ACTIVITY''
       then \<exists>ev. evs = [ev] \<and> ev_socket_id ev = socket_id
          \<and> (ev_activity ev = None \<longleftrightarrow> the_activity msg = None \<or> the_activity msg = Some JNull)
       else evs = [])"
proof (cases "msg_cmd msg = ''SET_ACTIVITY''")
  case True
  obtain r ev where "set_activity J ovf clock socket_id client_id msg st = Ret (r, send_activity ev st)"
    and "ev_socket_id ev = socket_id"
    and "ev_activity ev = None \<longleftrightarrow> the_activity msg = None \<or> the_activity msg = Some JNull"
    using set_activity_effect [OF assms, of J ovf socket_id client_id msg st] by metis
  with True show ?thesis
    by (intro exI [of _ r] exI [of _ "[ev]"]) (simp add: handle_message_def send_activity_def)
next
  case False
  have "activity_tx_update (\<lambda>_. activity_tx st @ []) st = st" by simp
  with False show ?thesis by (simp add: handle_message_def)
qed

definition sample_clock :: "i64 \<times> i64" where
  "sample_clock = (1700000000000, 1700000000000)"

definition sample_msg :: rpc_message where
  "sample_msg =
     \<lparr>msg_cmd = ''SET_ACTIVITY'', msg_data = JNull, msg_evt = None, msg_nonce = Some ''n1'',
      msg_args = Some (JObject
        [(''pid'', JNumber (JInt 4294967297)),
         (''activity'', JObject
            [(''application_id'', JString ''999''),
             (''buttons'', JArray [JObject [(''label'', JString ''Join''), (''url'', JString ''u'')]]),
             (''timestamps'', JObject [(''start'', JNumber (JInt 1699999999))])])])\<rparr>"

lemma sample_clock_ok [simp]: "clock_ok (fst sample_clock)" "clock_ok (snd sample_clock)"
  by (simp_all add: sample_clock_def clock_ok_def)

theorem handle_message_effects_witness:
  "\<exists>r ev. handle_message ordered_lib True sample_clock 7 ''42'' sample_msg server_new
      = Ret (r, server_new\<lparr>activity_tx := [ev]\<rparr>) \<and> ev_socket_id ev = 7 \<and> ev_activity ev \<noteq> None"
  using handle_message_effects [of sample_clock ordered_lib True 7 "''42''" sample_msg server_new]
  by (auto simp: sample_msg_def the_activity_def server_new_def)

end
