(* ===== verification/Server_Activity.thy ===== *)
theory Server_Activity
  imports Server_Spec
begin

text \<open>
  The contents of what \<open>handle_message\<close> produces for an activity: which value each key has in the event
  and in the response, for any JSON map library that satisfies \<open>json_library\<close>.
\<close>

section \<open>Objects with distinct keys\<close>

text \<open>What \<open>serde_json\<close> guarantees of a parsed value: the keys of every object are distinct.\<close>

fun wf_json :: "json \<Rightarrow> bool" where
  "wf_json (JArray xs) = list_all wf_json xs"
| "wf_json (JObject m) = (distinct_keys m \<and> list_all (\<lambda>e. wf_json (snd e)) m)"
| "wf_json _ = True"

lemma wf_json_get: "wf_json v \<Longrightarrow> json_get v k = Some w \<Longrightarrow> wf_json w"
  by (cases v) (auto simp: list_all_iff dest: map_of_SomeD)

lemma wf_json_field: "distinct_keys m \<and> list_all (\<lambda>e. wf_json (snd e)) m \<Longrightarrow>
    Option.bind (map_of m k) as_object = Some ts \<Longrightarrow> distinct_keys ts"
proof -
  assume m: "distinct_keys m \<and> list_all (\<lambda>e. wf_json (snd e)) m"
    and "Option.bind (map_of m k) as_object = Some ts"
  then obtain v where v: "map_of m k = Some v" "as_object v = Some ts" by (auto simp: bind_eq_Some_conv)
  then have "wf_json v" using m by (auto simp: list_all_iff dest: map_of_SomeD)
  with v(2) show ?thesis by (cases v) auto
qed

section \<open>The specification of the fields\<close>

definition ts_field :: "i64 \<Rightarrow> json option \<Rightarrow> json option" where
  "ts_field now v =
     (case Option.bind v as_i64 of None \<Rightarrow> v | Some t \<Rightarrow> Some (json_i64 (ms_of now t)))"

definition ts_spec :: "i64 \<times> i64 \<Rightarrow> json_map \<Rightarrow> str \<Rightarrow> json option" where
  "ts_spec clock ts k =
     (if k = ''start'' then ts_field (fst clock) (map_of ts k)
      else if k = ''end'' then ts_field (snd clock) (map_of ts k)
      else map_of ts k)"

text \<open>
  \<open>field_is clock act k v\<close>: \<open>v\<close> is the value of key \<open>k\<close> after the timestamps of \<open>act\<close> were converted.
\<close>

definition field_is :: "i64 \<times> i64 \<Rightarrow> json_map \<Rightarrow> str \<Rightarrow> json option \<Rightarrow> bool" where
  "field_is clock act k v \<longleftrightarrow>
     (case (if k = ''timestamps'' then Option.bind (map_of act k) as_object else None) of
        None \<Rightarrow> v = map_of act k
      | Some ts \<Rightarrow> \<exists>ts'. v = Some (JObject ts') \<and> (\<forall>f. map_of ts' f = ts_spec clock ts f))"

definition labels_of :: "json list \<Rightarrow> json list" where
  "labels_of bs = List.map_filter (\<lambda>b. json_get b ''label'') bs"

definition urls_of :: "json list \<Rightarrow> json list" where
  "urls_of bs = List.map_filter (\<lambda>b. json_get b ''url'') bs"

definition the_buttons :: "json_map \<Rightarrow> json list" where
  "the_buttons act = (case Option.bind (map_of act ''buttons'') as_array of None \<Rightarrow> [] | Some bs \<Rightarrow> bs)"

definition the_flags :: "json_map \<Rightarrow> u64" where
  "the_flags act = (if Option.bind (map_of act ''instance'') as_bool = Some True then 1 else 0)"

text \<open>What is filled in for a key that the activity does not have; \<open>md\<close> is the metadata object.\<close>

definition filled_in :: "str \<Rightarrow> json_map \<Rightarrow> json_map \<Rightarrow> str \<Rightarrow> json option" where
  "filled_in client_id act md k =
     (if k = ''application_id'' then Some (JString client_id)
      else if k = ''type'' then Some (JNumber (JInt 0))
      else if k = ''flags''
      then Some (JNumber (JInt (if Option.bind (map_of act ''instance'') as_bool = Some True then 1 else 0)))
      else if k = ''metadata'' then Some (JObject md) else None)"

lemma msg_pid_eq:
  "msg_pid msg = (case Option.bind (Option.bind (msg_args msg) (\<lambda>a. json_get a ''pid'')) as_u64 of
     None \<Rightarrow> None | Some n \<Rightarrow> Some (word_of_int (uint n)))"
proof -
  have "map_option ucast x = (case x of None \<Rightarrow> None | Some n \<Rightarrow> Some (word_of_int (uint n)))"
    for x :: "u64 option" by (cases x) (simp_all only: option.map option.case ucast_eq)
  then show ?thesis by (cases "msg_args msg") (simp_all add: msg_pid_def event_pid_def)
qed

lemma button_lists_eq: "button_lists bs ls us = (ls @ labels_of bs, us @ urls_of bs)"
  by (induction bs arbitrary: ls us)
    (auto simp: labels_of_def urls_of_def map_filter_simps split: option.splits)

lemma map_buttons_eq:
  "map_buttons J act =
    (if labels_of (the_buttons act) = [] then (None, [])
     else (Some (labels_of (the_buttons act)),
           jl_insert J ''button_urls'' (JArray (urls_of (the_buttons act))) []))"
  by (auto simp: map_buttons_def the_buttons_def button_lists_eq labels_of_def map_filter_simps
      split: option.splits)

context json_library
begin

lemma convert_field_map_of:
  assumes "distinct_keys ts" and "clock_ok now"
  obtains ts' where "convert_field J ovf now f ts = Ret ts'" and "distinct_keys ts'"
    and "\<And>k. map_of ts' k = (if k = f then ts_field now (map_of ts k) else map_of ts k)"
proof (cases "Option.bind (map_of ts f) as_i64")
  case None
  then show thesis
    using that [of ts] assms(1) by (simp add: convert_field_Ret [OF assms(2)] ts_field_def)
next
  case (Some t)
  then show thesis
    using that [of "jl_insert J f (json_i64 (ms_of now t)) ts"] assms(1)
    by (simp add: convert_field_Ret [OF assms(2)] ts_field_def map_of_insert distinct_insert)
qed

lemma convert_timestamps_spec:
  assumes "distinct_keys act \<and> list_all (\<lambda>e. wf_json (snd e)) act"
    and "clock_ok (fst clock)" and "clock_ok (snd clock)"
  obtains c where "convert_timestamps J ovf clock act = Ret c" and "distinct_keys c"
    and "\<And>k. field_is clock act k (map_of c k)"
    and "\<And>k. k \<noteq> ''timestamps'' \<Longrightarrow> map_of c k = map_of act k"
proof (cases "Option.bind (map_of act ''timestamps'') as_object")
  case None
  then show thesis
    using that [of act] assms(1) by (simp add: convert_timestamps_def field_is_def)
next
  case (Some ts)
  have "distinct_keys ts" using wf_json_field [OF assms(1) Some] .
  obtain t1 where t1: "convert_field J ovf (fst clock) ''start'' ts = Ret t1" "distinct_keys t1"
    "\<And>k. map_of t1 k = (if k = ''start'' then ts_field (fst clock) (map_of ts k) else map_of ts k)"
    by (rule convert_field_map_of [OF \<open>distinct_keys ts\<close> assms(2), where ovf = ovf and f = "''start''"])
      (rule that)
  obtain t2 where t2: "convert_field J ovf (snd clock) ''end'' t1 = Ret t2" "distinct_keys t2"
    "\<And>k. map_of t2 k = (if k = ''end'' then ts_field (snd clock) (map_of t1 k) else map_of t1 k)"
    by (rule convert_field_map_of [OF \<open>distinct_keys t1\<close> assms(3), where ovf = ovf and f = "''end''"])
      (rule that)
  have "map_of t2 k = ts_spec clock ts k" for k by (simp add: t2 t1 ts_spec_def)
  then show thesis
    using that [of "AList.update ''timestamps'' (JObject t2) act"] assms(1)
    by (simp add: convert_timestamps_def Some t1 t2 field_is_def update_conv')
qed

lemma build_full_spec:
  assumes "distinct_keys act"
  shows "map_of (build_full J client_id act labels meta) k =
    (case (if k = ''buttons'' then labels else None) of
       Some ls \<Rightarrow> Some (JArray ls)
     | None \<Rightarrow> (case map_of act k of
         Some v \<Rightarrow> Some v
       | None \<Rightarrow> map_of (base_fields client_id meta (the_flags act)) k))"
proof -
  let ?b = "base_fields client_id meta (the_flags act)"
  have f: "(if (case Option.bind (map_of act ''instance'') as_bool of Some b \<Rightarrow> b | None \<Rightarrow> False)
      then 1 else 0) = the_flags act"
    by (auto simp: the_flags_def split: option.splits)
  have d: "distinct_keys ?b" by (simp add: base_fields_def)
  have m: "map_of (insert_all J act (insert_all J ?b [])) k
      = (case map_of act k of Some v \<Rightarrow> Some v | None \<Rightarrow> map_of ?b k)" for k
    using map_of_insert_all_distinct [OF distinct_insert_all [of "[]" ?b] assms]
      map_of_insert_all_distinct [of "[]" ?b] d
    by (simp add: map_add_def)
  have dd: "distinct_keys (insert_all J act (insert_all J ?b []))"
    by (intro distinct_insert_all) simp
  have "build_full J client_id act labels meta =
    (case labels of Some ls \<Rightarrow> jl_insert J ''buttons'' (JArray ls) (insert_all J act (insert_all J ?b []))
     | None \<Rightarrow> insert_all J act (insert_all J ?b []))"
    unfolding build_full_def Let_def f ..
  then show ?thesis
    by (cases "k = ''buttons''"; cases labels) (auto simp: m map_of_insert [OF dd])
qed

lemma resp_data_spec:
  assumes "distinct_keys act"
  shows "map_of (insert_all J (resp_fields client_id) act) k =
    (case map_of (resp_fields client_id) k of Some v \<Rightarrow> Some v | None \<Rightarrow> map_of act k)"
  using map_of_insert_all_distinct [OF assms, of "resp_fields client_id"]
  by (simp add: resp_fields_def map_add_def)

lemma respond_get:
  assumes "respond J msg data evt = Some s"
  obtains v where "jl_to_string J v = Some s"
    and "json_get v ''cmd'' = Some (JString (msg_cmd msg))" and "json_get v ''data'' = Some data"
    and "json_get v ''evt'' = Some evt" and "json_get v ''nonce'' = Some (json_str_opt (msg_nonce msg))"
  using assms
  by (intro that [of "json_obj J [(''cmd'', JString (msg_cmd msg)), (''data'', data), (''evt'', evt),
                    (''nonce'', json_str_opt (msg_nonce msg))]"])
    (simp_all add: respond_def json_get_obj)

end

section \<open>Properties\<close>

text \<open>
  Claim C7. What a non-null activity becomes, key by key. In the broadcast event the button labels replace the
  buttons when there are any; every other field of the activity (its timestamps converted) takes
  precedence; of the absent ones only four are filled in: \<open>application_id\<close> with the client id, \<open>type\<close>
  with 0, \<open>flags\<close> with 1 for an instance and 0 otherwise, and \<open>metadata\<close> with the URLs of the buttons
  under \<open>button_urls\<close>, or nothing when no button has a label. In the response \<open>name\<close> is empty,
  \<open>application_id\<close> the client id and \<open>type\<close> 0, whatever the activity says; the rest is the activity. The
  process id is that of the arguments, reduced to 32 bits.
\<close>

theorem set_activity_contents:
  assumes "json_library J" and "msg_cmd msg = ''SET_ACTIVITY''" and "the_activity msg = Some (JObject act)"
    and "wf_json (JObject act)" and "clock_ok (fst clock)" and "clock_ok (snd clock)"
  shows "\<exists>full resp md pid. handle_message J ovf clock socket_id client_id msg st =
      Ret (respond J msg (JObject resp) JNull,
           send_activity \<lparr>ev_activity = Some (JObject full), ev_pid = pid, ev_socket_id = socket_id\<rparr> st)
    \<and> pid = (case Option.bind (Option.bind (msg_args msg) (\<lambda>a. json_get a ''pid'')) as_u64 of
               None \<Rightarrow> None | Some n \<Rightarrow> Some (word_of_int (uint n)))
    \<and> (\<forall>k. if k = ''buttons'' \<and> labels_of (the_buttons act) \<noteq> []
           then map_of full k = Some (JArray (labels_of (the_buttons act)))
           else if map_of act k \<noteq> None then field_is clock act k (map_of full k)
           else map_of full k = filled_in client_id act md k)
    \<and> map_of md = (if labels_of (the_buttons act) = [] then Map.empty
                    else [''button_urls'' \<mapsto> JArray (urls_of (the_buttons act))])
    \<and> map_of resp ''name'' = Some (JString []) \<and> map_of resp ''application_id'' = Some (JString client_id)
    \<and> map_of resp ''type'' = Some (JNumber (JInt 0))
    \<and> (\<forall>k. k \<notin> {''name'', ''application_id'', ''type''} \<longrightarrow> field_is clock act k (map_of resp k))"
proof -
  obtain c where c: "convert_timestamps J ovf clock act = Ret c" "distinct_keys c"
    and f: "\<And>k. field_is clock act k (map_of c k)"
    and o: "\<And>k. k \<noteq> ''timestamps'' \<Longrightarrow> map_of c k = map_of act k"
    using json_library.convert_timestamps_spec [OF assms(1)] assms(4-6) by (metis wf_json.simps(2))
  let ?ls = "labels_of (the_buttons act)" and ?md = "snd (map_buttons J act)"
  let ?full = "build_full J client_id c (fst (map_buttons J act)) ?md"
  let ?resp = "insert_all J (resp_fields client_id) c"
  have fl: "the_flags c = the_flags act" by (simp add: the_flags_def o)
  have n: "map_of c k = None \<longleftrightarrow> map_of act k = None" for k
    using f [of k] o [of k]
    by (auto simp: field_is_def bind_eq_Some_conv split: option.splits if_splits)
  have full: "map_of ?full k = (if k = ''buttons'' \<and> ?ls \<noteq> [] then Some (JArray ?ls)
      else case map_of c k of Some v \<Rightarrow> Some v | None \<Rightarrow> map_of (base_fields client_id ?md (the_flags act)) k)" for k
    unfolding json_library.build_full_spec [OF assms(1) c(2)] fl
    by (cases "?ls = []") (simp_all add: map_buttons_eq)
  have base: "map_of (base_fields client_id ?md (the_flags act)) k = filled_in client_id act ?md k" for k
    by (auto simp: base_fields_def filled_in_def json_u32_def json_u64_def the_flags_def)
  have md: "map_of ?md = (if ?ls = [] then Map.empty else [''button_urls'' \<mapsto> JArray (urls_of (the_buttons act))])"
    using json_library.map_of_insert [OF assms(1), of "[]"] by (auto simp: map_buttons_eq fun_eq_iff)
  have broadcast: "\<forall>k. if k = ''buttons'' \<and> ?ls \<noteq> [] then map_of ?full k = Some (JArray ?ls)
      else if map_of act k \<noteq> None then field_is clock act k (map_of ?full k)
      else map_of ?full k = filled_in client_id act ?md k"
  proof
    fix k
    show "if k = ''buttons'' \<and> ?ls \<noteq> [] then map_of ?full k = Some (JArray ?ls)
      else if map_of act k \<noteq> None then field_is clock act k (map_of ?full k)
      else map_of ?full k = filled_in client_id act ?md k"
      using n [of k] f [of k] unfolding full base by (cases "map_of c k") auto
  qed
  have r: "map_of ?resp k =
      (if k = ''name'' then Some (JString []) else if k = ''application_id'' then Some (JString client_id)
       else if k = ''type'' then Some (JNumber (JInt 0)) else map_of c k)" for k
    unfolding json_library.resp_data_spec [OF assms(1) c(2)] by (simp add: resp_fields_def json_u32_def)
  then have resp: "\<forall>k. k \<notin> {''name'', ''application_id'', ''type''} \<longrightarrow> field_is clock act k (map_of ?resp k)"
    "map_of ?resp ''name'' = Some (JString [])" "map_of ?resp ''application_id'' = Some (JString client_id)"
    "map_of ?resp ''type'' = Some (JNumber (JInt 0))" using f by auto
  have "handle_message J ovf clock socket_id client_id msg st =
      Ret (respond J msg (JObject ?resp) JNull,
           send_activity \<lparr>ev_activity = Some (JObject ?full), ev_pid = msg_pid msg,
                          ev_socket_id = socket_id\<rparr> st)"
    using set_activity_some [OF assms(3) _ _ c(1)] assms(2) by (simp add: handle_message_def)
  with broadcast md resp msg_pid_eq show ?thesis by blast
qed

text \<open>At the sample message: the client's \<open>application_id\<close> \<open>999\<close> is broadcast, the response says \<open>42\<close>.\<close>

theorem set_activity_contents_witness:
  "\<exists>full resp md. handle_message ordered_lib True sample_clock 7 ''42'' sample_msg server_new =
      Ret (respond ordered_lib sample_msg (JObject resp) JNull,
           send_activity \<lparr>ev_activity = Some (JObject full), ev_pid = Some 1, ev_socket_id = 7\<rparr> server_new)
    \<and> map_of full ''application_id'' = Some (JString ''999'')
    \<and> map_of full ''buttons'' = Some (JArray [JString ''Join''])
    \<and> map_of full ''type'' = Some (JNumber (JInt 0)) \<and> map_of full ''flags'' = Some (JNumber (JInt 0))
    \<and> map_of full ''metadata'' = Some (JObject md) \<and> map_of md ''button_urls'' = Some (JArray [JString ''u''])
    \<and> map_of resp ''application_id'' = Some (JString ''42'')"
proof -
  let ?act = "[(''application_id'', JString ''999''),
             (''buttons'', JArray [JObject [(''label'', JString ''Join''), (''url'', JString ''u'')]]),
             (''timestamps'', JObject [(''start'', JNumber (JInt 1699999999))])]"
  have a: "the_activity sample_msg = Some (JObject ?act)" and w: "wf_json (JObject ?act)"
    and m: "msg_cmd sample_msg = ''SET_ACTIVITY''"
    and p: "(case Option.bind (Option.bind (msg_args sample_msg) (\<lambda>a. json_get a ''pid'')) as_u64 of
      None \<Rightarrow> None | Some n \<Rightarrow> Some (word_of_int (uint n))) = Some (1 :: u32)"
    by (simp_all add: the_activity_def sample_msg_def)
  have l: "labels_of (the_buttons ?act) = [JString ''Join'']" "urls_of (the_buttons ?act) = [JString ''u'']"
    by code_simp+
  from set_activity_contents [OF ordered_json.json_library_axioms m a w sample_clock_ok, of True 7 "''42''" server_new]
  obtain full resp md pid where h: "handle_message ordered_lib True sample_clock 7 ''42'' sample_msg server_new =
      Ret (respond ordered_lib sample_msg (JObject resp) JNull,
           send_activity \<lparr>ev_activity = Some (JObject full), ev_pid = pid, ev_socket_id = 7\<rparr> server_new)"
    and q: "pid = (case Option.bind (Option.bind (msg_args sample_msg) (\<lambda>a. json_get a ''pid'')) as_u64 of
      None \<Rightarrow> None | Some n \<Rightarrow> Some (word_of_int (uint n)))"
    and f: "\<forall>k. if k = ''buttons'' \<and> labels_of (the_buttons ?act) \<noteq> []
           then map_of full k = Some (JArray (labels_of (the_buttons ?act)))
           else if map_of ?act k \<noteq> None then field_is sample_clock ?act k (map_of full k)
           else map_of full k = filled_in ''42'' ?act md k"
    and r: "map_of md = (if labels_of (the_buttons ?act) = [] then Map.empty
              else [''button_urls'' \<mapsto> JArray (urls_of (the_buttons ?act))])"
      "map_of resp ''application_id'' = Some (JString ''42'')"
    by (elim exE conjE) (rule that)
  have "map_of full ''application_id'' = Some (JString ''999'')"
    using f [THEN spec, of "''application_id''"] by (simp add: l field_is_def)
  moreover have "map_of full ''buttons'' = Some (JArray [JString ''Join''])"
    using f [THEN spec, of "''buttons''"] by (simp add: l)
  moreover have "map_of full ''type'' = Some (JNumber (JInt 0))"
    using f [THEN spec, of "''type''"] by (simp add: filled_in_def)
  moreover have "map_of full ''flags'' = Some (JNumber (JInt 0))"
    using f [THEN spec, of "''flags''"] by (simp add: filled_in_def)
  moreover have "map_of full ''metadata'' = Some (JObject md)"
    using f [THEN spec, of "''metadata''"] by (simp add: filled_in_def)
  moreover have "map_of md ''button_urls'' = Some (JArray [JString ''u''])" using r(1) by (simp add: l)
  ultimately show ?thesis using h r(2) unfolding q p by blast
qed

text \<open>
  Claim C40. Every response is the serialisation of an object that echoes the command and the nonce of the
  request; its \<open>evt\<close> is \<open>ERROR\<close> for \<open>CONNECTIONS_CALLBACK\<close> and null for \<open>SET_ACTIVITY\<close>, and no other
  command has a response.
\<close>

theorem response_echo:
  assumes "json_library J" and "clock_ok (fst clock)" and "clock_ok (snd clock)"
    and "handle_message J ovf clock socket_id client_id msg st = Ret (Some s, st')"
  shows "\<exists>v. jl_to_string J v = Some s \<and> json_get v ''cmd'' = Some (JString (msg_cmd msg))
    \<and> json_get v ''nonce'' = Some (json_str_opt (msg_nonce msg))
    \<and> ((msg_cmd msg = ''SET_ACTIVITY'' \<and> json_get v ''evt'' = Some JNull)
       \<or> (msg_cmd msg = ''CONNECTIONS_CALLBACK'' \<and> json_get v ''evt'' = Some (JString ''ERROR'')))"
proof -
  have "\<exists>data evt. respond J msg data evt = Some s \<and>
      ((msg_cmd msg = ''SET_ACTIVITY'' \<and> evt = JNull)
       \<or> (msg_cmd msg = ''CONNECTIONS_CALLBACK'' \<and> evt = JString ''ERROR''))"
  proof (cases "msg_cmd msg = ''SET_ACTIVITY''")
    case True
    show ?thesis
    proof (cases "the_activity msg = None \<or> the_activity msg = Some JNull")
      case cleared: True
      with True assms(4) show ?thesis
        by (auto simp: handle_message_def set_activity_clear)
    next
      case False
      then obtain a where a: "the_activity msg = Some a" "a \<noteq> JNull" by auto
      obtain c where "convert_timestamps J ovf clock (case as_object a of Some m \<Rightarrow> m | None \<Rightarrow> []) = Ret c"
        using convert_timestamps_Ret [OF assms(2,3)] by blast
      from set_activity_some [OF a refl this] True assms(4) show ?thesis
        by (auto simp: handle_message_def)
    qed
  next
    case False
    with assms(4) show ?thesis by (auto simp: handle_message_def split: if_splits)
  qed
  then show ?thesis using json_library.respond_get [OF assms(1)] by metis
qed

theorem response_echo_witness:
  "\<exists>v. jl_to_string ordered_lib v
      = Some (the (respond ordered_lib (rpc_default\<lparr>msg_cmd := ''SET_ACTIVITY''\<rparr>) JNull JNull))
    \<and> json_get v ''cmd'' = Some (JString ''SET_ACTIVITY'')"
proof -
  let ?m = "rpc_default\<lparr>msg_cmd := ''SET_ACTIVITY''\<rparr>"
  have r: "respond ordered_lib ?m JNull JNull = Some (the (respond ordered_lib ?m JNull JNull))"
    by (simp add: respond_def ordered_lib_def)
  have "handle_message ordered_lib True sample_clock 1 ''42'' ?m server_new =
      Ret (Some (the (respond ordered_lib ?m JNull JNull)),
        send_activity \<lparr>ev_activity = None, ev_pid = msg_pid ?m, ev_socket_id = 1\<rparr> server_new)"
    using r by (simp add: handle_message_def set_activity_clear the_activity_def rpc_default_def)
  from response_echo [OF ordered_json.json_library_axioms sample_clock_ok this] show ?thesis
    by (auto simp: rpc_default_def)
qed

end
