(* ===== verification/Server_Steps.thy ===== *)
theory Server_Steps
  imports Server_Activity
begin

text \<open>
  The server under any interleaving of its operations: \<open>server_step\<close> has one rule per operation, in the
  order in which atomic accesses to the shared maps can happen. The locale \<open>logged_system\<close> collects what
  follows from an append-only log alone; it is interpreted for the server here.
\<close>

section \<open>Systems with an append-only log\<close>

locale logged_system =
  fixes step :: "'s \<Rightarrow> 's \<Rightarrow> bool" and log :: "'s \<Rightarrow> 'e list"
  assumes step_appends: "step s s' \<Longrightarrow> \<exists>evs. log s' = log s @ evs"
begin

lemma steps_append: "step\<^sup>*\<^sup>* s s' \<Longrightarrow> prefix (log s) (log s')"
proof (induction rule: rtranclp_induct)
  case (step y z)
  then show ?case using step_appends [of y z] by (auto simp: prefix_def)
qed simp

text \<open>A receiver that has read up to a position never has anything before that position rewritten.\<close>

lemma steps_nth: "step\<^sup>*\<^sup>* s s' \<Longrightarrow> i < length (log s) \<Longrightarrow> log s' ! i = log s ! i"
  by (auto dest!: steps_append simp: prefix_def nth_append)

end

section \<open>The steps\<close>

inductive server_step ::
  "json_lib \<Rightarrow> bool \<Rightarrow> server_state \<Rightarrow> server_state \<Rightarrow> bool" for J ovf where
  alloc: "next_id st = (i, st') \<Longrightarrow> server_step J ovf st st'"
| connect: "channels st tx = None \<Longrightarrow>
    server_step J ovf st (register_socket i tx (open_channel tx st))"
| disconnect: "server_step J ovf st (unregister_socket i st)"
| forward: "server_step J ovf st (send_to_socket i s st)"
| receive: "try_recv tx st = (r, st') \<Longrightarrow> server_step J ovf st st'"
| hangup: "server_step J ovf st (drop_receiver tx st)"
| message: "handle_message J ovf clock i client_id msg st = Ret (r, st') \<Longrightarrow> server_step J ovf st st'"

inductive_cases server_stepE [consumes 1]: "server_step J ovf st st'"

text \<open>A message appends events of its own socket and changes nothing else.\<close>

lemma handle_message_owned:
  assumes "handle_message J ovf clock socket_id client_id msg st = Ret (r, st')"
  shows "\<exists>evs. st' = st\<lparr>activity_tx := activity_tx st @ evs\<rparr> \<and> ev_socket_id ` set evs \<subseteq> {socket_id}"
proof -
  have n: "\<exists>evs. st = st\<lparr>activity_tx := activity_tx st @ evs\<rparr> \<and> ev_socket_id ` set evs \<subseteq> {socket_id}"
    by (rule exI [of _ "[]"]) simp
  have s: "set_activity J ovf clock socket_id client_id msg st = Ret (r, st') \<Longrightarrow>
    \<exists>ev. st' = send_activity ev st \<and> ev_socket_id ev = socket_id"
    by (cases "the_activity msg = None \<or> the_activity msg = Some JNull")
      (auto simp: set_activity_clear set_activity_def the_activity_def exec_simps Let_def
        case_prod_unfold split: option.splits json.splits)
  have e: "\<exists>evs. send_activity ev st = st\<lparr>activity_tx := activity_tx st @ evs\<rparr>
      \<and> ev_socket_id ` set evs \<subseteq> {socket_id}" if "ev_socket_id ev = socket_id" for ev
    using that by (intro exI [of _ "[ev]"]) (simp add: send_activity_def)
  show ?thesis
    using assms n s e by (auto simp: handle_message_def split: if_splits)
qed

lemma handle_message_log:
  "handle_message J ovf clock socket_id client_id msg st = Ret (r, st') \<Longrightarrow>
   \<exists>evs. st' = st\<lparr>activity_tx := activity_tx st @ evs\<rparr>"
  using handle_message_owned by blast

text \<open>Each operation changes only its own part of the state.\<close>

lemma next_id_log: "next_id st = (i, st') \<Longrightarrow> activity_tx st' = activity_tx st"
  by (auto simp: next_id_def)

lemma try_send_log: "activity_tx (snd (try_send tx m st)) = activity_tx st"
  by (simp add: try_send_def split: option.splits)

lemma send_to_socket_eq:
  "send_to_socket i s st = (case sockets st i of None \<Rightarrow> st | Some tx \<Rightarrow> snd (try_send tx s st))"
  by (simp add: send_to_socket_def case_prod_unfold split: option.split sum.split try_send_error.split)

lemma send_to_socket_log: "activity_tx (send_to_socket i s st) = activity_tx st"
  by (simp add: send_to_socket_eq try_send_log split: option.split)

lemma try_recv_log: "try_recv tx st = (r, st') \<Longrightarrow> activity_tx st' = activity_tx st"
  by (auto simp: try_recv_def split: option.splits list.splits)

lemma drop_receiver_log: "activity_tx (drop_receiver tx st) = activity_tx st"
  by (simp add: drop_receiver_def split: option.splits)

interpretation server_log: logged_system "server_step J ovf" activity_tx for J ovf
proof unfold_locales
  fix s s'
  assume "server_step J ovf s s'"
  then show "\<exists>evs. activity_tx s' = activity_tx s @ evs"
  proof cases
    case (message clock i client_id msg r)
    then show ?thesis using handle_message_log by fastforce
  qed (simp_all add: next_id_log send_to_socket_log try_recv_log drop_receiver_log register_socket_def
      open_channel_def unregister_socket_def send_activity_def)
qed

section \<open>Bounded queues\<close>

definition chan_ok :: "channel \<Rightarrow> bool" where
  "chan_ok ch \<longleftrightarrow>
     length (ch_queue ch) \<le> SOCKET_QUEUE_CAPACITY \<and> (ch_closed ch \<longrightarrow> ch_queue ch = [])"

definition server_inv :: "server_state \<Rightarrow> bool" where
  "server_inv st \<longleftrightarrow>
     (\<forall>tx ch. channels st tx = Some ch \<longrightarrow> chan_ok ch)
     \<and> (\<forall>i tx. sockets st i = Some tx \<longrightarrow> channels st tx \<noteq> None)"

lemma server_inv_new: "server_inv server_new"
  by (simp add: server_inv_def server_new_def)

lemma server_inv_chan: "server_inv st \<Longrightarrow> channels st tx = Some ch \<Longrightarrow> chan_ok ch"
  by (simp add: server_inv_def)

lemma server_inv_update:
  "server_inv st \<Longrightarrow> chan_ok ch \<Longrightarrow> server_inv (st\<lparr>channels := (channels st)(tx \<mapsto> ch)\<rparr>)"
  by (simp add: server_inv_def)

lemma server_inv_try_send: "server_inv st \<Longrightarrow> server_inv (snd (try_send tx s st))"
proof (cases "channels st tx")
  case (Some ch)
  assume i: "server_inv st"
  have "\<not> ch_closed ch \<Longrightarrow> length (ch_queue ch) < SOCKET_QUEUE_CAPACITY \<Longrightarrow>
      chan_ok (ch\<lparr>ch_queue := ch_queue ch @ [s]\<rparr>)"
    by (simp add: chan_ok_def)
  with i Some server_inv_update [OF i, of _ tx] show ?thesis by (simp add: try_send_def)
qed (simp add: try_send_def)

lemma server_inv_send: "server_inv st \<Longrightarrow> server_inv (send_to_socket i s st)"
  by (simp add: send_to_socket_eq server_inv_try_send split: option.split)

lemma server_inv_recv:
  assumes "server_inv st" and "try_recv tx st = (r, st')"
  shows "server_inv st'"
proof (cases "channels st tx")
  case (Some ch)
  have c: "chan_ok ch" using server_inv_chan [OF assms(1) Some] .
  show ?thesis
  proof (cases "ch_queue ch")
    case (Cons m q)
    with c have "chan_ok (ch\<lparr>ch_queue := q\<rparr>)" by (simp add: chan_ok_def)
    from server_inv_update [OF assms(1) this, of tx] show ?thesis
      using assms(2) Some Cons by (simp add: try_recv_def)
  qed (use assms Some in \<open>simp add: try_recv_def\<close>)
qed (use assms in \<open>simp add: try_recv_def\<close>)

lemma server_inv_drop: "server_inv st \<Longrightarrow> server_inv (drop_receiver tx st)"
  by (simp add: drop_receiver_def server_inv_update chan_ok_def split: option.split)

lemma server_inv_other:
  "server_inv st \<Longrightarrow> channels st' = channels st \<Longrightarrow> sockets st' = sockets st \<Longrightarrow> server_inv st'"
  by (simp add: server_inv_def)

lemma server_step_inv: "server_step J ovf st st' \<Longrightarrow> server_inv st \<Longrightarrow> server_inv st'"
proof (induction rule: server_step.induct)
  case (alloc st i st')
  then show ?case by (auto simp: next_id_def intro: server_inv_other)
next
  case (connect st tx i)
  have "chan_ok \<lparr>ch_queue = [], ch_closed = False\<rparr>" by (simp add: chan_ok_def)
  from server_inv_update [OF connect.prems this, of tx] show ?case
    by (simp add: server_inv_def register_socket_def open_channel_def)
next
  case (disconnect st i)
  then show ?case by (simp add: server_inv_def unregister_socket_def send_activity_def)
next
  case (message clock i client_id msg st r st')
  then show ?case using handle_message_log [OF message.hyps] by (auto intro: server_inv_other)
qed (simp_all add: server_inv_send server_inv_recv server_inv_drop)

text \<open>
  Under any interleaving of the operations from the initial state, no outbound queue ever holds
  more than 128 messages, a closed queue is empty, every registered sender is an existing channel, and
  the broadcast only ever grows.
\<close>

theorem server_reachable_inv:
  assumes "(server_step J ovf)\<^sup>*\<^sup>* server_new st" and "(server_step J ovf)\<^sup>*\<^sup>* st st'"
  shows "server_inv st' \<and> prefix (activity_tx st) (activity_tx st')"
proof
  from assms have "(server_step J ovf)\<^sup>*\<^sup>* server_new st'" by simp
  then show "server_inv st'"
    by (induction rule: rtranclp_induct) (simp_all add: server_inv_new server_step_inv)
  show "prefix (activity_tx st) (activity_tx st')" by (rule server_log.steps_append [OF assms(2)])
qed

theorem server_reachable_inv_witness:
  "server_inv (unregister_socket 1 (send_to_socket 1 ''x'' (register_socket 1 0 (open_channel 0 server_new))))
   \<and> prefix (activity_tx server_new) (activity_tx
      (unregister_socket 1 (send_to_socket 1 ''x'' (register_socket 1 0 (open_channel 0 server_new)))))"
proof -
  let ?s = "server_step ordered_lib True"
  have "channels server_new 0 = None" by (simp add: server_new_def)
  note conn = server_step.connect [where i = 1 and J = ordered_lib and ovf = True, OF this]
  have "?s\<^sup>*\<^sup>* server_new
      (unregister_socket 1 (send_to_socket 1 ''x'' (register_socket 1 0 (open_channel 0 server_new))))"
    by (rule rtranclp.rtrancl_into_rtrancl [OF rtranclp.rtrancl_into_rtrancl [OF r_into_rtranclp
        [where r = ?s, OF conn] server_step.forward] server_step.disconnect])
  from server_reachable_inv [OF rtranclp.rtrancl_refl this] show ?thesis .
qed

section \<open>Delivery\<close>

lemma send_to_socket_open:
  assumes "sockets st i = Some tx" and "channels st tx = Some ch" and "\<not> ch_closed ch"
    and "length (ch_queue ch) \<le> SOCKET_QUEUE_CAPACITY"
  shows "send_to_socket i s st = st\<lparr>channels := (channels st)(tx \<mapsto>
    ch\<lparr>ch_queue := take SOCKET_QUEUE_CAPACITY (ch_queue ch @ [s])\<rparr>)\<rparr>"
proof -
  have "st\<lparr>channels := (channels st)(tx \<mapsto> ch)\<rparr> = st" using assms(2) by (simp add: fun_upd_idem)
  with assms show ?thesis by (auto simp: send_to_socket_eq try_send_def)
qed

text \<open>
  Claim C39. Messages sent to an open socket that does not receive meanwhile: its queue ends up holding
  exactly the first 128 of what was queued followed by what was sent, in order, the rest is dropped, and
  nothing else of the state changes.
\<close>

theorem burst_delivery:
  assumes "sockets st i = Some tx" and "channels st tx = Some ch" and "\<not> ch_closed ch"
    and "length (ch_queue ch) \<le> SOCKET_QUEUE_CAPACITY"
  shows "fold (send_to_socket i) ms st = st\<lparr>channels := (channels st)(tx \<mapsto>
    ch\<lparr>ch_queue := take SOCKET_QUEUE_CAPACITY (ch_queue ch @ ms)\<rparr>)\<rparr>"
  using assms
proof (induction ms arbitrary: st ch)
  case Nil
  then have "(channels st)(tx \<mapsto> ch) = channels st" by (simp add: fun_upd_idem)
  with Nil show ?case by simp
next
  case (Cons m ms)
  let ?ch = "ch\<lparr>ch_queue := take SOCKET_QUEUE_CAPACITY (ch_queue ch @ [m])\<rparr>"
  let ?st = "st\<lparr>channels := (channels st)(tx \<mapsto> ?ch)\<rparr>"
  have t: "take SOCKET_QUEUE_CAPACITY (ch_queue ?ch @ ms) = take SOCKET_QUEUE_CAPACITY (ch_queue ch @ m # ms)"
    using Cons.prems(4) by (cases "length (ch_queue ch) = SOCKET_QUEUE_CAPACITY") simp_all
  have "fold (send_to_socket i) (m # ms) st = fold (send_to_socket i) ms ?st"
    by (simp only: fold_simps send_to_socket_open [OF Cons.prems])
  also have "\<dots> = ?st\<lparr>channels := (channels ?st)(tx \<mapsto>
      ?ch\<lparr>ch_queue := take SOCKET_QUEUE_CAPACITY (ch_queue ?ch @ ms)\<rparr>)\<rparr>"
    using Cons.prems by (intro Cons.IH) simp_all
  also have "\<dots> = st\<lparr>channels := (channels st)(tx \<mapsto>
      ch\<lparr>ch_queue := take SOCKET_QUEUE_CAPACITY (ch_queue ch @ m # ms)\<rparr>)\<rparr>"
    unfolding t by simp
  finally show ?case .
qed

theorem burst_delivery_witness:
  "fold (send_to_socket 1) [''x'', ''y''] (register_socket 1 0 (open_channel 0 server_new))
   = (register_socket 1 0 (open_channel 0 server_new))
       \<lparr>channels := [0 \<mapsto> \<lparr>ch_queue = [''x'', ''y''], ch_closed = False\<rparr>]\<rparr>"
  by (subst burst_delivery [where tx = 0 and ch = "\<lparr>ch_queue = [], ch_closed = False\<rparr>"])
    (simp_all add: register_socket_def open_channel_def SOCKET_QUEUE_CAPACITY_def server_new_def)

section \<open>Socket identifiers\<close>

fun alloc_ids :: "nat \<Rightarrow> server_state \<Rightarrow> u64 list \<times> server_state" where
  "alloc_ids 0 st = ([], st)"
| "alloc_ids (Suc n) st =
     (let (i, st1) = next_id st; (is, st2) = alloc_ids n st1 in (i # is, st2))"

lemma alloc_ids_eq:
  "fst (alloc_ids n st) = map (\<lambda>k. next_socket_id st + word_of_nat k) [0..<n]"
proof (induction n arbitrary: st)
  case (Suc n)
  show ?case
    by (simp add: Let_def case_prod_unfold Suc next_id_def map_upt_Suc add.assoc del: upt_Suc)
qed simp

text \<open>
  The first \<open>2 ^ 64 - 1\<close> socket ids of a server are pairwise distinct and none of them is 0, the
  id under which the process scanner reports; the next one is 0.
\<close>

theorem socket_ids_distinct:
  assumes "n \<le> 2 ^ 64 - 1"
  shows "distinct (fst (alloc_ids n server_new)) \<and> 0 \<notin> set (fst (alloc_ids n server_new))
    \<and> (n = 2 ^ 64 - 1 \<longrightarrow> next_socket_id server_new + word_of_nat n = 0)"
proof -
  have u: "unat (1 + word_of_nat k :: u64) = k + 1" if "k < n" for k
    using that assms by (simp add: unat_word_ariths unat_of_nat)
  then have "inj_on (\<lambda>k. 1 + word_of_nat k :: u64) {0..<n}"
    by (intro inj_onI) (metis add_right_cancel atLeastLessThan_iff)
  then have "distinct (map (\<lambda>k. 1 + word_of_nat k :: u64) [0..<n])" by (simp add: distinct_map)
  moreover have "1 + word_of_nat k \<noteq> (0 :: u64)" if "k < n" for k
    using u [OF that] by (metis Suc_eq_plus1 nat.distinct(1) unat_0)
  moreover have "n = 2 ^ 64 - 1 \<Longrightarrow> 1 + word_of_nat n = (0 :: u64)" by simp
  ultimately show ?thesis
    by (auto simp: alloc_ids_eq server_new_def)
qed

theorem socket_ids_distinct_witness:
  "distinct (fst (alloc_ids 3 server_new)) \<and> 0 \<notin> set (fst (alloc_ids 3 server_new))"
  using socket_ids_distinct [of 3] by simp

end
