(* ===== verification/Websocket.thy ===== *)
theory Websocket
  imports Server_Steps "HOL-Library.Code_Target_Nat"
begin

text \<open>
  The WebSocket transport up to the upgrade, \<open>src/transports/websocket.rs\<close>: \<open>validate_origin\<close>,
  \<open>parse_query\<close>, \<open>extract_origin\<close>, \<open>http_error_response\<close>, the handshake loop \<open>do_handshake\<close> and the port
  scan of \<open>start_ws_server\<close>.

  The HTTP request parser and the response builder of the sockudo_ws crate are the parameters of
  \<open>ws_lib\<close>. What the peer sends is the list of the chunks that successive reads return; \<open>None\<close> is a read
  error and the end of the list the end of the stream.
\<close>

section \<open>Text\<close>

definition validate_origin :: "str \<Rightarrow> bool" where
  "validate_origin origin \<longleftrightarrow>
     origin = [] \<or> origin = ''https://discord.com'' \<or> origin = ''https://ptb.discord.com''
     \<or> origin = ''https://canary.discord.com''"

definition split_once :: "char \<Rightarrow> str \<Rightarrow> (str \<times> str) option" where
  "split_once c s =
     (case dropWhile (\<lambda>x. x \<noteq> c) s of [] \<Rightarrow> None | _ # r \<Rightarrow> Some (takeWhile (\<lambda>x. x \<noteq> c) s, r))"

definition is_digit :: "char \<Rightarrow> bool" where
  "is_digit c \<longleftrightarrow> 48 \<le> byte c \<and> byte c \<le> 57"

definition digits_value :: "str \<Rightarrow> int" where
  "digits_value s = fold (\<lambda>c n. n * 10 + int (byte c - 48)) s 0"

text \<open>\<open>str::parse::<u32>\<close>: an optional plus sign, then digits, then the range check.\<close>

definition parse_u32 :: "str \<Rightarrow> u32 option" where
  "parse_u32 s =
     (let ds = (case s of [] \<Rightarrow> [] | c # r \<Rightarrow> if c = CHR ''+'' then r else s)
      in if ds = [] \<or> \<not> list_all is_digit ds \<or> \<not> digits_value ds < 2 ^ 32 then None
         else Some (word_of_int (digits_value ds)))"

definition text_of :: "u8 list \<Rightarrow> str" where
  "text_of buf = (case from_utf8 buf of Some s \<Rightarrow> s | None \<Rightarrow> [])"

fun query_loop :: "str list \<Rightarrow> u32 option \<times> str option \<times> str \<Rightarrow> u32 option \<times> str option \<times> str" where
  "query_loop [] r = r"
| "query_loop (part # parts) (v, encoding, client_id) =
     query_loop parts
       (case split_once CHR ''='' part of
          None \<Rightarrow> (v, encoding, client_id)
        | Some (key, value) \<Rightarrow>
            if key = ''v'' then (parse_u32 value, encoding, client_id)
            else if key = ''encoding'' then (v, Some value, client_id)
            else if key = ''client_id'' then (v, encoding, value)
            else (v, encoding, client_id))"

definition parse_query :: "u8 list \<Rightarrow> u32 option \<times> str option \<times> str" where
  "parse_query buf =
     (let text = text_of buf;
          request_line = (case str_lines text of [] \<Rightarrow> [] | l # _ \<Rightarrow> l);
          path = (case split_whitespace request_line of _ # p # _ \<Rightarrow> p | _ \<Rightarrow> ''/'');
          query = (case split_once CHR ''?'' path of Some (_, q) \<Rightarrow> q | None \<Rightarrow> [])
      in query_loop (split_on (\<lambda>c. c = CHR ''&'') query) (None, None, []))"

definition to_ascii_lower :: "char \<Rightarrow> char" where
  "to_ascii_lower c = (if 65 \<le> byte c \<and> byte c \<le> 90 then char_of (byte c + 32) else c)"

definition eq_ignore_ascii_case :: "str \<Rightarrow> str \<Rightarrow> bool" where
  "eq_ignore_ascii_case s t = (map to_ascii_lower s = map to_ascii_lower t)"

text \<open>The predicate of \<open>find\<close>: the slice \<open>l[..7]\<close> panics when byte 7 is inside a character.\<close>

definition is_origin_line :: "str \<Rightarrow> bool exec" where
  "is_origin_line l =
     (if length l > 7
      then exec_map (\<lambda>p. eq_ignore_ascii_case p ''origin:'') (str_slice l 0 7)
      else Ret False)"

fun find_origin_line :: "str list \<Rightarrow> str option exec" where
  "find_origin_line [] = Ret None"
| "find_origin_line (l # ls) =
     exec_bind (is_origin_line l) (\<lambda>b. if b then Ret (Some l) else find_origin_line ls)"

definition extract_origin :: "u8 list \<Rightarrow> str exec" where
  "extract_origin buf =
     (case from_utf8 buf of
        None \<Rightarrow> Ret []
      | Some text \<Rightarrow>
          exec_map (\<lambda>found.
            case found of
              None \<Rightarrow> []
            | Some l \<Rightarrow> (case split_once CHR '':'' l of Some (_, v) \<Rightarrow> trim v | None \<Rightarrow> []))
          (find_origin_line (str_lines text)))"

definition crlf :: str where
  "crlf = [CHR 0x0D, CHR 0x0A]"

definition http_error_response :: "str \<Rightarrow> str \<Rightarrow> str" where
  "http_error_response status body =
     ''HTTP/1.1 '' @ status @ crlf @ ''Content-Length: '' @ dec_nat (length body) @ crlf
     @ ''Connection: close'' @ crlf @ crlf @ body"

section \<open>The handshake\<close>

definition MAX_WS_HANDSHAKE_BYTES :: nat where
  "MAX_WS_HANDSHAKE_BYTES = 16 * 1024"

record ws_lib =
  wsl_parse_request :: "u8 list \<Rightarrow> unit + (str \<times> nat) option"
  wsl_accept_key :: "str \<Rightarrow> str"
  wsl_response :: "str \<Rightarrow> u8 list"

datatype handshake_error = ReadFailed | ConnClosed | TooLarge | BadRequest | WriteFailed
  | BadVersion | BadEncoding | BadOrigin

text \<open>The outcome: what was written to the stream and the client id or an error.\<close>

type_synonym handshake_outcome = "u8 list \<times> (handshake_error + str)"

definition reject :: "bool \<Rightarrow> str \<Rightarrow> str \<Rightarrow> handshake_error \<Rightarrow> handshake_outcome" where
  "reject write_ok status body e =
     (if write_ok then (as_bytes (http_error_response status body), Inl e) else ([], Inl WriteFailed))"

definition check_request :: "ws_lib \<Rightarrow> bool \<Rightarrow> u8 list \<Rightarrow> str \<Rightarrow> handshake_outcome exec" where
  "check_request W write_ok buf req_key =
     (let (v, encoding, client_id) = parse_query buf
      in if v \<noteq> Some 1 then Ret (reject write_ok ''400 Bad Request'' ''v must be 1'' BadVersion)
         else if encoding \<noteq> Some ''json''
         then Ret (reject write_ok ''400 Bad Request'' ''encoding must be json'' BadEncoding)
         else
           exec_map (\<lambda>origin.
             if \<not> validate_origin origin
             then reject write_ok ''403 Forbidden'' ''origin not allowed'' BadOrigin
             else if write_ok then (wsl_response W (wsl_accept_key W req_key), Inr client_id)
             else ([], Inl WriteFailed))
           (extract_origin buf))"

fun do_handshake :: "ws_lib \<Rightarrow> bool \<Rightarrow> u8 list \<Rightarrow> u8 list option list \<Rightarrow> handshake_outcome exec" where
  "do_handshake W write_ok buf [] = Ret ([], Inl ConnClosed)"
| "do_handshake W write_ok buf (None # reads) = Ret ([], Inl ReadFailed)"
| "do_handshake W write_ok buf (Some chunk # reads) =
     (if chunk = [] then Ret ([], Inl ConnClosed)
      else
        (let buf1 = buf @ chunk
         in if MAX_WS_HANDSHAKE_BYTES < length buf1
            then Ret (reject write_ok ''431 Request Header Fields Too Large'' ''request too large'' TooLarge)
            else
              (case wsl_parse_request W buf1 of
                 Inl _ \<Rightarrow> Ret ([], Inl BadRequest)
               | Inr None \<Rightarrow> do_handshake W write_ok buf1 reads
               | Inr (Some (req_key, _)) \<Rightarrow> check_request W write_ok buf1 req_key)))"

text \<open>The bridge's handshake reads the same way, without a size limit and without checks.\<close>

fun bridge_handshake :: "ws_lib \<Rightarrow> bool \<Rightarrow> u8 list \<Rightarrow> u8 list option list \<Rightarrow> u8 list \<times> (handshake_error + unit)" where
  "bridge_handshake W write_ok buf [] = ([], Inl ConnClosed)"
| "bridge_handshake W write_ok buf (None # reads) = ([], Inl ReadFailed)"
| "bridge_handshake W write_ok buf (Some chunk # reads) =
     (if chunk = [] then ([], Inl ConnClosed)
      else
        (case wsl_parse_request W (buf @ chunk) of
           Inl _ \<Rightarrow> ([], Inl BadRequest)
         | Inr None \<Rightarrow> bridge_handshake W write_ok (buf @ chunk) reads
         | Inr (Some (req_key, _)) \<Rightarrow>
             if write_ok then (wsl_response W (wsl_accept_key W req_key), Inr ()) else ([], Inl WriteFailed)))"

text \<open>The port scan: the first port of the range 6463 to 6472 that can be bound.\<close>

fun scan_ports :: "(u16 \<Rightarrow> bool) \<Rightarrow> u16 list \<Rightarrow> u16 option" where
  "scan_ports can_bind [] = None"
| "scan_ports can_bind (port # ports) = (if can_bind port then Some port else scan_ports can_bind ports)"

definition ws_ports :: "u16 list" where
  "ws_ports = [6463, 6464, 6465, 6466, 6467, 6468, 6469, 6470, 6471, 6472]"

section \<open>Properties\<close>

lemma split_once_Some: "c \<notin> set a \<Longrightarrow> split_once c (a @ c # b) = Some (a, b)"
proof -
  assume c: "c \<notin> set a"
  then have "dropWhile (\<lambda>x. x \<noteq> c) (a @ c # b) = c # b" by (induction a) auto
  moreover have "takeWhile (\<lambda>x. x \<noteq> c) (a @ c # b) = a" using c by (induction a) auto
  ultimately show ?thesis by (simp add: split_once_def)
qed

lemma find_origin_line_result:
  "find_origin_line ls =
     (case find (\<lambda>l. is_origin_line l \<noteq> Ret False) ls of
        None \<Rightarrow> Ret None
      | Some l \<Rightarrow> exec_map (\<lambda>_. Some l) (is_origin_line l))"
proof (induction ls)
  case (Cons l ls)
  then show ?case by (cases "is_origin_line l") auto
qed simp

lemma is_origin_line_Panic_iff:
  "is_origin_line l = Panic \<longleftrightarrow> 7 < length l \<and> is_cont (l ! 7)"
  by (auto simp: is_origin_line_def str_slice_def is_char_boundary_def)

text \<open>
  Claim C29. Reading the origin panics exactly when the request is valid UTF-8 and its first line that is
  not plainly a non-origin line is longer than seven bytes with a character across bytes seven and eight.
\<close>

theorem extract_origin_panics_iff:
  "extract_origin buf = Panic \<longleftrightarrow>
     (\<exists>s l. from_utf8 buf = Some s
        \<and> find (\<lambda>l. is_origin_line l \<noteq> Ret False) (str_lines s) = Some l
        \<and> 7 < length l \<and> is_cont (l ! 7))"
proof (cases "from_utf8 buf")
  case (Some s)
  have p: "exec_map f m = Panic \<longleftrightarrow> m = Panic" for f :: "'a \<Rightarrow> 'b" and m by (cases m) auto
  show ?thesis
    by (cases "find (\<lambda>l. is_origin_line l \<noteq> Ret False) (str_lines s)")
      (auto simp: extract_origin_def Some find_origin_line_result p is_origin_line_Panic_iff)
qed (simp add: extract_origin_def)

text \<open>A request whose second line has the two-byte character at bytes 6 and 7.\<close>

definition panic_request :: str where
  "panic_request = ''GET / HTTP/1.1'' @ crlf @ ''x-note'' @ [CHR 0xC3, CHR 0xA9] @ '': 1'' @ crlf @ crlf"

lemma origin_panic_example: "extract_origin (as_bytes panic_request) = Panic"
  by code_simp

lemma check_request_Inr:
  assumes "check_request W write_ok buf key = Ret (w, Inr client_id)"
  shows "parse_query buf = (Some 1, Some ''json'', client_id)
    \<and> (\<exists>origin. extract_origin buf = Ret origin \<and> validate_origin origin)
    \<and> w = wsl_response W (wsl_accept_key W key)"
  using assms
  by (auto simp: check_request_def reject_def exec_simps split: prod.splits if_splits)

text \<open>
  Claim C16. A connection is upgraded only on a request of at most 16 KiB that the HTTP parser accepts,
  whose query says version 1 and encoding json and carries the returned client id, and whose origin is
  one of the four allowed values; then exactly the upgrade response is written.
\<close>

theorem handshake_sound:
  assumes "do_handshake W write_ok buf reads = Ret (w, Inr client_id)"
  shows "\<exists>request key n. length request \<le> MAX_WS_HANDSHAKE_BYTES
    \<and> wsl_parse_request W request = Inr (Some (key, n))
    \<and> (\<exists>k. request = buf @ concat (map (\<lambda>r. case r of Some c \<Rightarrow> c | None \<Rightarrow> []) (take k reads)))
    \<and> parse_query request = (Some 1, Some ''json'', client_id)
    \<and> (\<exists>origin. extract_origin request = Ret origin \<and> validate_origin origin)
    \<and> w = wsl_response W (wsl_accept_key W key)"
  using assms
proof (induction W write_ok buf reads rule: do_handshake.induct)
  case (3 W write_ok buf chunk reads)
  have c: "chunk \<noteq> []" using "3.prems" by auto
  have l: "length (buf @ chunk) \<le> MAX_WS_HANDSHAKE_BYTES"
    using "3.prems" c by (auto simp: Let_def reject_def split: if_splits)
  consider "wsl_parse_request W (buf @ chunk) = Inr None"
    | key n where "wsl_parse_request W (buf @ chunk) = Inr (Some (key, n))"
    using "3.prems" c l by (auto simp: Let_def split: sum.splits option.splits)
  then show ?case
  proof cases
    case 1
    with "3.prems" c l have "do_handshake W write_ok (buf @ chunk) reads = Ret (w, Inr client_id)"
      by (simp add: Let_def)
    from "3.IH" [OF c refl _ 1 refl this] l obtain request key n k where r:
      "length request \<le> MAX_WS_HANDSHAKE_BYTES" "wsl_parse_request W request = Inr (Some (key, n))"
      "request = (buf @ chunk) @ concat (map (\<lambda>r. case r of Some c \<Rightarrow> c | None \<Rightarrow> []) (take k reads))"
      "parse_query request = (Some 1, Some ''json'', client_id)"
      "\<exists>origin. extract_origin request = Ret origin \<and> validate_origin origin"
      "w = wsl_response W (wsl_accept_key W key)"
      by auto
    moreover from r(3) have "\<exists>k. request
        = buf @ concat (map (\<lambda>r. case r of Some c \<Rightarrow> c | None \<Rightarrow> []) (take k (Some chunk # reads)))"
      by (intro exI [of _ "Suc k"]) simp
    ultimately show ?thesis by blast
  next
    case (2 key n)
    with "3.prems" c l have "check_request W write_ok (buf @ chunk) key = Ret (w, Inr client_id)"
      by (simp add: Let_def)
    note r = check_request_Inr [OF this]
    have k: "\<exists>k. buf @ chunk
        = buf @ concat (map (\<lambda>r. case r of Some c \<Rightarrow> c | None \<Rightarrow> []) (take k (Some chunk # reads)))"
      by (intro exI [of _ "Suc 0"]) simp
    show ?thesis
      by (rule exI [of _ "buf @ chunk"], rule exI [of _ key], rule exI [of _ n])
        (intro conjI, rule l, rule 2, rule k, simp_all only: r)
  qed
qed simp_all

definition sample_ws :: ws_lib where
  "sample_ws =
     \<lparr>wsl_parse_request = (\<lambda>b. if suffix (as_bytes (crlf @ crlf)) b then Inr (Some (''key'', length b)) else Inr None),
      wsl_accept_key = id, wsl_response = as_bytes\<rparr>"

definition good_request :: str where
  "good_request = ''GET /?v=1&encoding=json&client_id=42 HTTP/1.1'' @ crlf
     @ ''Origin: https://discord.com'' @ crlf @ crlf"

lemma good_handshake:
  "do_handshake sample_ws True [] [Some (as_bytes good_request)] = Ret (as_bytes ''key'', Inr ''42'')"
proof -
  have q: "parse_query (as_bytes good_request) = (Some 1, Some ''json'', ''42'')" by code_simp
  have o: "extract_origin (as_bytes good_request) = Ret ''https://discord.com''" by code_simp
  have c: "check_request sample_ws True (as_bytes good_request) ''key'' = Ret (as_bytes ''key'', Inr ''42'')"
    by (simp add: check_request_def q o validate_origin_def sample_ws_def)
  have "suffix (crlf @ crlf) good_request" by (simp add: good_request_def suffix_def)
  then have "suffix (as_bytes (crlf @ crlf)) (as_bytes good_request)"
    unfolding suffix_def by (metis as_bytes_append)
  moreover have "length (as_bytes good_request) \<le> MAX_WS_HANDSHAKE_BYTES"
    by (simp add: good_request_def crlf_def MAX_WS_HANDSHAKE_BYTES_def)
  moreover have "as_bytes good_request \<noteq> []" by (simp add: good_request_def as_bytes_def)
  ultimately show ?thesis using c by (simp add: sample_ws_def Let_def)
qed

theorem handshake_sound_witness:
  "\<exists>request key n. length request \<le> MAX_WS_HANDSHAKE_BYTES
    \<and> wsl_parse_request sample_ws request = Inr (Some (key, n))
    \<and> parse_query request = (Some 1, Some ''json'', ''42'')"
  using handshake_sound [OF good_handshake] by blast


text \<open>The values given for a parameter, last one first.\<close>

definition param_values :: "str \<Rightarrow> str list \<Rightarrow> str list" where
  "param_values key parts =
     List.map_filter (\<lambda>p. case split_once CHR ''='' p of
       Some (k, v) \<Rightarrow> if k = key then Some v else None | None \<Rightarrow> None) (rev parts)"

lemma map_filter_append: "List.map_filter f (xs @ ys) = List.map_filter f xs @ List.map_filter f ys"
  by (simp add: List.map_filter_def)

text \<open>
  Of every query parameter the last occurrence decides, for all three parameters and whatever
  else the query holds; a later malformed version erases an earlier good one.
\<close>

theorem query_last_wins:
  "query_loop parts (v, encoding, client_id) =
    ((case param_values ''v'' parts of [] \<Rightarrow> v | x # _ \<Rightarrow> parse_u32 x),
     (case param_values ''encoding'' parts of [] \<Rightarrow> encoding | x # _ \<Rightarrow> Some x),
     (case param_values ''client_id'' parts of [] \<Rightarrow> client_id | x # _ \<Rightarrow> x))"
proof (induction parts arbitrary: v encoding client_id)
  case (Cons p parts)
  show ?case
  proof (cases "split_once CHR ''='' p")
    case None
    then show ?thesis by (simp add: Cons.IH param_values_def map_filter_simps map_filter_append)
  next
    case (Some kv)
    obtain k x where "kv = (k, x)" by (cases kv)
    with Some show ?thesis
      by (auto simp: Cons.IH param_values_def map_filter_simps map_filter_append split: list.split)
  qed
qed (simp add: param_values_def map_filter_simps)

text \<open>
  An error response announces exactly the length of its body: split at the first empty line, it
  has the status line, the content length in decimal and the close header, and the body after it.
\<close>

theorem error_response_framing:
  assumes "CHR 0x0A \<notin> set status"
  shows "\<exists>head. http_error_response status body = head @ crlf @ crlf @ body
    \<and> split_on (\<lambda>c. c = CHR 0x0A) head
      = [''HTTP/1.1 '' @ status @ [CHR 0x0D], ''Content-Length: '' @ dec_nat (length body) @ [CHR 0x0D],
         ''Connection: close'']"
proof -
  have d: "CHR 0x0A \<notin> set (dec_nat n)" for n
  proof (induction n rule: dec_nat.induct)
    case (1 n)
    have "k < 10 \<Longrightarrow> CHR 0x0A \<noteq> digit_char k" for k :: nat
    proof
      assume "k < 10" and "CHR 0x0A = digit_char k"
      then have "byte (CHR 0x0A) = 48 + k" using byte_digit_char by simp
      then show False by (simp add: byte_def)
    qed
    with 1 show ?case by (subst dec_nat.simps) auto
  qed
  let ?l1 = "''HTTP/1.1 '' @ status @ [CHR 0x0D]"
  let ?l2 = "''Content-Length: '' @ dec_nat (length body) @ [CHR 0x0D]"
  let ?l3 = "''Connection: close''"
  have "split_on (\<lambda>c. c = CHR 0x0A) (join_with [CHR 0x0A] [?l1, ?l2, ?l3]) = [?l1, ?l2, ?l3]"
    by (rule split_on_join) (use assms d in auto)
  then show ?thesis
    by (intro exI [of _ "join_with [CHR 0x0A] [?l1, ?l2, ?l3]"])
      (simp add: http_error_response_def crlf_def)
qed

theorem error_response_framing_witness:
  "\<exists>head. http_error_response ''403 Forbidden'' ''origin not allowed'' = head @ crlf @ crlf @ ''origin not allowed''"
  using error_response_framing [of "''403 Forbidden''" "''origin not allowed''"] by auto

section \<open>The handshake loops\<close>

lemma do_handshake_bounded:
  "length buf \<le> MAX_WS_HANDSHAKE_BYTES \<Longrightarrow> MAX_WS_HANDSHAKE_BYTES < length buf + length reads \<Longrightarrow>
   do_handshake W write_ok buf (reads @ later) = do_handshake W write_ok buf reads"
proof (induction reads arbitrary: buf)
  case (Cons r reads)
  show ?case
  proof (cases r)
    case (Some chunk)
    show ?thesis
    proof (cases "chunk = [] \<or> MAX_WS_HANDSHAKE_BYTES < length (buf @ chunk)")
      case False
      then have "0 < length chunk" "length (buf @ chunk) \<le> MAX_WS_HANDSHAKE_BYTES" by auto
      with Cons.prems Cons.IH [of "buf @ chunk"] Some show ?thesis
        by (simp add: Let_def split: sum.split option.split)
    qed (auto simp: Some Let_def)
  qed simp
qed simp

text \<open>
  \<open>decided W buf reads request key\<close>: reading on from \<open>buf\<close>, the first buffer that the parser does not find
  incomplete is \<open>request\<close>, within the limit, and it is a complete request with the key \<open>key\<close>.
\<close>

definition decided :: "ws_lib \<Rightarrow> u8 list \<Rightarrow> u8 list option list \<Rightarrow> u8 list \<Rightarrow> str \<Rightarrow> bool" where
  "decided W buf reads request key \<longleftrightarrow>
     (\<exists>k < length reads.
        (\<forall>r \<in> set (take (Suc k) reads). r \<noteq> None \<and> r \<noteq> Some [])
        \<and> request = buf @ concat (map the (take (Suc k) reads)) \<and> length request \<le> MAX_WS_HANDSHAKE_BYTES
        \<and> (\<exists>n. wsl_parse_request W request = Inr (Some (key, n)))
        \<and> (\<forall>j < k. wsl_parse_request W (buf @ concat (map the (take (Suc j) reads))) = Inr None))"

lemma decided_Nil [simp]: "\<not> decided W buf [] request key"
  by (simp add: decided_def)

lemma decided_None [simp]: "\<not> decided W buf (None # reads) request key"
  by (simp add: decided_def)

lemma ex_less_Suc_cases: "(\<exists>k < Suc n. P k) \<longleftrightarrow> P 0 \<or> (\<exists>k < n. P (Suc k))"
  by (metis Suc_less_eq not0_implies_Suc zero_less_Suc)

lemma decided_Some:
  "decided W buf (Some chunk # reads) request key \<longleftrightarrow>
     chunk \<noteq> [] \<and> length (buf @ chunk) \<le> MAX_WS_HANDSHAKE_BYTES
     \<and> ((request = buf @ chunk \<and> (\<exists>n. wsl_parse_request W request = Inr (Some (key, n))))
        \<or> (wsl_parse_request W (buf @ chunk) = Inr None \<and> decided W (buf @ chunk) reads request key))"
  unfolding decided_def length_Cons ex_less_Suc_cases
  by (auto simp: All_less_Suc2)

lemma check_request_Panic_iff:
  "check_request W write_ok request key = Panic \<longleftrightarrow>
     (\<exists>client_id. parse_query request = (Some 1, Some ''json'', client_id)) \<and> extract_origin request = Panic"
  by (cases "extract_origin request") (auto simp: check_request_def reject_def split: prod.splits)

lemma do_handshake_Panic_iff:
  "do_handshake W write_ok buf reads = Panic \<longleftrightarrow>
     (\<exists>request key. decided W buf reads request key \<and> check_request W write_ok request key = Panic)"
proof (induction W write_ok buf reads rule: do_handshake.induct)
  case (3 W write_ok buf chunk reads)
  show ?case
  proof (cases "chunk = [] \<or> MAX_WS_HANDSHAKE_BYTES < length (buf @ chunk)")
    case True
    then show ?thesis by (auto simp: decided_Some Let_def reject_def)
  next
    case False
    then have c: "chunk \<noteq> []" "length (buf @ chunk) \<le> MAX_WS_HANDSHAKE_BYTES" by simp_all
    then show ?thesis
      using "3.IH" [OF c(1) refl] unfolding decided_Some
      by (cases "wsl_parse_request W (buf @ chunk)") (auto simp: Let_def split: option.split)
  qed
qed simp_all

section \<open>The bridge's handshake has no end\<close>

text \<open>A request with a header line that goes on and on, and a peer that sends it byte by byte.\<close>

definition endless :: "nat \<Rightarrow> u8 list" where
  "endless n = as_bytes (''GET / HTTP/1.1'' @ crlf @ ''X: '') @ replicate n 97"

definition endless_reads :: "nat \<Rightarrow> u8 list option list" where
  "endless_reads n = Some (endless 0) # replicate n (Some [97])"

lemma endless_Suc: "endless n @ [97] = endless (Suc n)"
  by (simp add: endless_def replicate_append_same)

lemma endless_ne [simp]: "endless n \<noteq> []"
  by (simp add: endless_def as_bytes_def)

lemma length_endless: "length (endless n) = 19 + n"
  by (simp add: endless_def as_bytes_def crlf_def)

lemma bridge_handshake_waits:
  assumes "\<forall>n. wsl_parse_request W (endless n) = Inr None"
  shows "bridge_handshake W write_ok [] (endless_reads n @ later) = bridge_handshake W write_ok (endless n) later"
proof -
  have "bridge_handshake W write_ok (endless m) (replicate n (Some [97]) @ later)
      = bridge_handshake W write_ok (endless (m + n)) later" for m
    by (induction n arbitrary: m) (simp_all add: assms endless_Suc)
  from this [of 0] show ?thesis by (simp add: endless_reads_def assms)
qed

lemma do_handshake_endless:
  assumes "\<forall>n. wsl_parse_request W (endless n) = Inr None" and "MAX_WS_HANDSHAKE_BYTES < length (endless n)"
  shows "do_handshake W write_ok [] (endless_reads n @ later)
    = Ret (reject write_ok ''431 Request Header Fields Too Large'' ''request too large'' TooLarge)"
proof -
  have "do_handshake W write_ok (endless m) (replicate n (Some [97]) @ later)
      = Ret (reject write_ok ''431 Request Header Fields Too Large'' ''request too large'' TooLarge)"
    if "MAX_WS_HANDSHAKE_BYTES < length (endless (m + n))" "length (endless m) \<le> MAX_WS_HANDSHAKE_BYTES" for m
    using that
  proof (induction n arbitrary: m)
    case (Suc n)
    have e: "endless m @ [97] = endless (Suc m)" by (rule endless_Suc)
    show ?case
    proof (cases "MAX_WS_HANDSHAKE_BYTES < length (endless (Suc m))")
      case True
      then show ?thesis by (simp add: e Let_def del: length_append)
    next
      case False
      with Suc.IH [of "Suc m"] Suc.prems(1) assms(1) show ?thesis by (simp add: e Let_def del: length_append)
    qed
  qed simp
  from this [of 0] assms show ?thesis
    by (simp add: endless_reads_def Let_def length_endless MAX_WS_HANDSHAKE_BYTES_def)
qed

lemma sample_incomplete: "wsl_parse_request sample_ws (endless n) = Inr None"
proof -
  have "\<not> suffix (as_bytes (crlf @ crlf)) (endless n)"
  proof (cases n)
    case 0
    show ?thesis by (simp add: 0 endless_def as_bytes_def crlf_def suffix_def byte_def)
  next
    case (Suc m)
    have "last (endless n) = 97" by (simp add: Suc flip: endless_Suc)
    moreover have "last (as_bytes (crlf @ crlf)) = 10" by (simp add: as_bytes_def crlf_def byte_def)
    moreover have "as_bytes (crlf @ crlf) \<noteq> []" by (simp add: as_bytes_def crlf_def)
    ultimately show ?thesis by (auto simp: suffix_def)
  qed
  then show ?thesis by (simp add: sample_ws_def)
qed

text \<open>
  Claim C17. The handshake of a client ends: 16385 reads decide it, whatever the peer sends and in whatever
  chunks, and no read after them is made. The handshake of the bridge has no such bound: given a parser
  that finds a request incomplete while a header line of it has not ended, a peer that sends one endless
  header line is read for ever and everything it sent is kept; the same peer is refused by the WebSocket
  transport once it has sent more than 16 KiB.
\<close>

theorem handshake_terminates:
  shows "(length reads = MAX_WS_HANDSHAKE_BYTES + 1 \<longrightarrow>
        do_handshake W write_ok [] (reads @ later) = do_handshake W write_ok [] reads)
    \<and> ((\<forall>n. wsl_parse_request W (endless n) = Inr None) \<longrightarrow>
        bridge_handshake W write_ok [] (endless_reads n @ later) = bridge_handshake W write_ok (endless n) later
        \<and> (MAX_WS_HANDSHAKE_BYTES < length (endless n) \<longrightarrow>
            do_handshake W write_ok [] (endless_reads n @ later)
            = Ret (reject write_ok ''431 Request Header Fields Too Large'' ''request too large'' TooLarge)))"
  using do_handshake_bounded [of "[]" reads W write_ok later] bridge_handshake_waits [of W write_ok n later]
    do_handshake_endless [of W n write_ok later]
  by simp

theorem handshake_terminates_witness:
  "do_handshake sample_ws True [] (replicate (MAX_WS_HANDSHAKE_BYTES + 1) (Some [71]) @ [Some [72]])
    = do_handshake sample_ws True [] (replicate (MAX_WS_HANDSHAKE_BYTES + 1) (Some [71]))
   \<and> bridge_handshake sample_ws True [] (endless_reads 20000 @ [None]) = ([], Inl ReadFailed)
   \<and> (\<exists>w. do_handshake sample_ws True [] (endless_reads 20000 @ [None]) = Ret (w, Inl TooLarge))"
  using handshake_terminates [of "replicate (MAX_WS_HANDSHAKE_BYTES + 1) (Some [71])" sample_ws True "[Some [72]]" 0]
    handshake_terminates [of "[]" sample_ws True "[None]" 20000]
  by (simp add: sample_incomplete length_endless reject_def MAX_WS_HANDSHAKE_BYTES_def del: replicate_Suc)

end
