(* ===== verification/Session.thy ===== *)
theory Session
  imports Ipc_Codec Websocket
begin

text \<open>
  Connected clients: \<open>handle_ipc_io\<close> of \<open>src/transports/ipc.rs\<close> and \<open>handle_connection\<close> of
  \<open>src/transports/websocket.rs\<close> after the upgrade, and the choice of the IPC socket
  (\<open>ipc_path\<close>, \<open>find_available_socket\<close>).

  A session is driven by a sequence of inputs: bytes that arrive, the end of the stream, and which branch of
  \<open>select!\<close> is polled. An iteration of the loop creates a fresh \<open>read_frame\<close> future; when the outbound
  branch wins, that future is dropped together with the bytes it has already taken from the socket. The
  reader keeps both apart: what the pending future holds, and what is still in the socket.
\<close>

section \<open>The reader under \<open>select!\<close>\<close>

datatype reader_input = RArrive "u8 list" | RPoll | RCancel

fun reader_step ::
  "reader_input \<Rightarrow> u8 list \<times> u8 list \<Rightarrow> (i32 \<times> u8 list) option \<times> (u8 list \<times> u8 list)" where
  "reader_step (RArrive bs) (held, socket) = (None, (held, socket @ bs))"
| "reader_step RPoll (held, socket) =
     (case read_frame (held @ socket) of
        Inr (f, rest) \<Rightarrow> (Some f, ([], rest))
      | Inl _ \<Rightarrow> (None, (held @ socket, [])))"
| "reader_step RCancel (held, socket) = (None, ([], socket))"

fun reader_run ::
  "reader_input list \<Rightarrow> u8 list \<times> u8 list \<Rightarrow> (i32 \<times> u8 list) list \<times> (u8 list \<times> u8 list)" where
  "reader_run [] r = ([], r)"
| "reader_run (i # is) r =
     (let (f, r1) = reader_step i r; (fs, r2) = reader_run is r1
      in ((case f of None \<Rightarrow> fs | Some x \<Rightarrow> x # fs), r2))"

section \<open>The IPC session\<close>

record ipc_conn =
  ic_socket_id :: u64
  ic_client_id :: str
  ic_rx :: nat
  ic_reader :: "u8 list \<times> u8 list"
  ic_eof :: bool
  ic_out :: "u8 list"
  ic_open :: bool

text \<open>
  The handshake phase on the first frame (\<open>None\<close>: the read failed). A failed write of READY leaves before
  the registration; the allocated id is then spent.
\<close>

definition ipc_handshake ::
  "wire_lib \<Rightarrow> (i32 \<times> u8 list) option \<Rightarrow> u8 list \<Rightarrow> bool \<Rightarrow> nat \<Rightarrow> server_state \<Rightarrow> ipc_conn option \<times> server_state" where
  "ipc_handshake W frame socket write_ok rx st =
     (case frame of
        None \<Rightarrow> (None, st)
      | Some (opcode, body) \<Rightarrow>
          if from_i32 opcode \<noteq> Some OpHandshake then (None, st)
          else
            (case wl_handshake W body of
               None \<Rightarrow> (None, st)
             | Some hs \<Rightarrow>
                 if hs_v hs \<noteq> 1 then (None, st)
                 else
                   (let (socket_id, st1) = next_id st;
                        ready = encode (opcode_i32 OpFrame) READY_PAYLOAD
                    in if \<not> write_ok then (None, st1)
                       else
                         (Some \<lparr>ic_socket_id = socket_id, ic_client_id = hs_client_id hs, ic_rx = rx,
                                ic_reader = ([], socket), ic_eof = False, ic_out = ready, ic_open = True\<rparr>,
                          register_socket socket_id rx (open_channel rx st1)))))"

text \<open>A parsed RPC message: handled, and its response queued for this socket. Bad JSON is only logged.\<close>

definition dispatch_rpc ::
  "wire_lib \<Rightarrow> json_lib \<Rightarrow> bool \<Rightarrow> i64 \<times> i64 \<Rightarrow> u64 \<Rightarrow> str \<Rightarrow> u8 list \<Rightarrow> server_state \<Rightarrow> server_state exec" where
  "dispatch_rpc W J ovf clock socket_id client_id body st =
     (case wl_rpc W body of
        None \<Rightarrow> Ret st
      | Some msg \<Rightarrow>
          exec_map (\<lambda>(r, st1). case r of None \<Rightarrow> st1 | Some resp \<Rightarrow> send_to_socket socket_id resp st1)
            (handle_message J ovf clock socket_id client_id msg st))"

text \<open>Leaving the loop: unregister, then the receiver is dropped.\<close>

definition ipc_end :: "ipc_conn \<Rightarrow> server_state \<Rightarrow> ipc_conn \<times> server_state" where
  "ipc_end c st =
     (c\<lparr>ic_open := False\<rparr>, drop_receiver (ic_rx c) (unregister_socket (ic_socket_id c) st))"

definition ipc_frame ::
  "wire_lib \<Rightarrow> json_lib \<Rightarrow> bool \<Rightarrow> i64 \<times> i64 \<Rightarrow> bool \<Rightarrow> i32 \<times> u8 list \<Rightarrow> ipc_conn \<Rightarrow> server_state
   \<Rightarrow> (ipc_conn \<times> server_state) exec" where
  "ipc_frame W J ovf clock write_ok f c st =
     (case from_i32 (fst f) of
        Some OpPing \<Rightarrow>
          Ret (if write_ok then c\<lparr>ic_out := ic_out c @ encode (opcode_i32 OpPong) []\<rparr> else c, st)
      | Some OpFrame \<Rightarrow>
          exec_map (\<lambda>st1. (c, st1))
            (dispatch_rpc W J ovf clock (ic_socket_id c) (ic_client_id c) (snd f) st)
      | Some OpClose \<Rightarrow> Ret (ipc_end c st)
      | None \<Rightarrow> Ret (ipc_end c st)
      | Some OpHandshake \<Rightarrow> Ret (c, st)
      | Some OpPong \<Rightarrow> Ret (c, st))"

datatype ipc_input = Arrive "u8 list" | PeerEof | PollRead "i64 \<times> i64" bool | PollOut bool

text \<open>
  \<open>recv\<close> on the response channel yields a message, is pending, or ends when the registry no longer holds
  the sender.
\<close>

fun ipc_step ::
  "wire_lib \<Rightarrow> json_lib \<Rightarrow> bool \<Rightarrow> ipc_input \<Rightarrow> ipc_conn \<times> server_state \<Rightarrow> (ipc_conn \<times> server_state) exec" where
  "ipc_step W J ovf i (c, st) =
     (if \<not> ic_open c then Ret (c, st)
      else
        (case i of
           Arrive bs \<Rightarrow> Ret (c\<lparr>ic_reader := snd (reader_step (RArrive bs) (ic_reader c))\<rparr>, st)
         | PeerEof \<Rightarrow> Ret (c\<lparr>ic_eof := True\<rparr>, st)
         | PollRead clock write_ok \<Rightarrow>
             (let (f, r) = reader_step RPoll (ic_reader c); c1 = c\<lparr>ic_reader := r\<rparr>
              in case f of
                   Some frame \<Rightarrow> ipc_frame W J ovf clock write_ok frame c1 st
                 | None \<Rightarrow> Ret (if ic_eof c then ipc_end c1 st else (c1, st)))
         | PollOut write_ok \<Rightarrow>
             (case try_recv (ic_rx c) st of
                (Some js, st1) \<Rightarrow>
                  (let c1 = c\<lparr>ic_reader := snd (reader_step RCancel (ic_reader c))\<rparr>
                   in if write_ok
                      then Ret (c1\<lparr>ic_out := ic_out c @ encode (opcode_i32 OpFrame) js\<rparr>, st1)
                      else Ret (ipc_end c1 st1))
              | (None, st1) \<Rightarrow>
                  if sockets st (ic_socket_id c) = Some (ic_rx c) then Ret (c, st1)
                  else Ret (ipc_end c st1))))"

section \<open>The WebSocket session\<close>

record ws_conn =
  wc_socket_id :: u64
  wc_client_id :: str
  wc_rx :: nat
  wc_sent :: "str list"
  wc_open :: bool

definition ws_begin :: "str \<Rightarrow> bool \<Rightarrow> nat \<Rightarrow> server_state \<Rightarrow> ws_conn option \<times> server_state" where
  "ws_begin client_id write_ok rx st =
     (let (socket_id, st1) = next_id st
      in if \<not> write_ok then (None, st1)
         else (Some \<lparr>wc_socket_id = socket_id, wc_client_id = client_id, wc_rx = rx,
                     wc_sent = [READY_PAYLOAD], wc_open = True\<rparr>,
               register_socket socket_id rx (open_channel rx st1)))"

definition ws_end :: "ws_conn \<Rightarrow> server_state \<Rightarrow> ws_conn \<times> server_state" where
  "ws_end c st =
     (c\<lparr>wc_open := False\<rparr>, drop_receiver (wc_rx c) (unregister_socket (wc_socket_id c) st))"

datatype ws_inbound = WsText "u8 list" | WsClose | WsOther | WsError | WsEnd

datatype ws_input = WsIn ws_inbound "i64 \<times> i64" | WsOut bool

fun ws_step ::
  "wire_lib \<Rightarrow> json_lib \<Rightarrow> bool \<Rightarrow> ws_input \<Rightarrow> ws_conn \<times> server_state \<Rightarrow> (ws_conn \<times> server_state) exec" where
  "ws_step W J ovf i (c, st) =
     (if \<not> wc_open c then Ret (c, st)
      else
        (case i of
           WsIn m clock \<Rightarrow>
             (case m of
                WsText text \<Rightarrow>
                  exec_map (\<lambda>st1. (c, st1))
                    (dispatch_rpc W J ovf clock (wc_socket_id c) (wc_client_id c) text st)
              | WsClose \<Rightarrow> Ret (ws_end c st)
              | WsEnd \<Rightarrow> Ret (ws_end c st)
              | WsOther \<Rightarrow> Ret (c, st)
              | WsError \<Rightarrow> Ret (ws_end c st))
         | WsOut write_ok \<Rightarrow>
             (case try_recv (wc_rx c) st of
                (Some js, st1) \<Rightarrow>
                  if write_ok then Ret (c\<lparr>wc_sent := wc_sent c @ [js]\<rparr>, st1) else Ret (ws_end c st1)
              | (None, st1) \<Rightarrow>
                  if sockets st (wc_socket_id c) = Some (wc_rx c) then Ret (c, st1)
                  else Ret (ws_end c st1))))"

section \<open>The IPC socket\<close>

definition ipc_path :: "(str \<Rightarrow> str option) \<Rightarrow> nat \<Rightarrow> str" where
  "ipc_path env n =
     (let base =
        (case env ''XDG_RUNTIME_DIR'' of Some d \<Rightarrow> d | None \<Rightarrow>
         (case env ''TMPDIR'' of Some d \<Rightarrow> d | None \<Rightarrow>
          (case env ''TMP'' of Some d \<Rightarrow> d | None \<Rightarrow>
           (case env ''TEMP'' of Some d \<Rightarrow> d | None \<Rightarrow> ''/tmp''))))
      in base @ ''/discord-ipc-'' @ dec_nat n)"

text \<open>
  The probe of each path: a path that accepts a connection in time is taken; otherwise the file is removed
  and the path bound. The result carries the paths whose files were removed.
\<close>

fun probe_sockets ::
  "(str \<Rightarrow> str option) \<Rightarrow> (str \<Rightarrow> bool) \<Rightarrow> (str \<Rightarrow> bool) \<Rightarrow> nat list \<Rightarrow> str option \<times> str list" where
  "probe_sockets env connects binds [] = (None, [])"
| "probe_sockets env connects binds (n # ns) =
     (let path = ipc_path env n
      in if connects path then probe_sockets env connects binds ns
         else if binds path then (Some path, [path])
         else (let (r, removed) = probe_sockets env connects binds ns in (r, path # removed)))"

definition find_available_socket ::
  "(str \<Rightarrow> str option) \<Rightarrow> (str \<Rightarrow> bool) \<Rightarrow> (str \<Rightarrow> bool) \<Rightarrow> str option \<times> str list" where
  "find_available_socket env connects binds = probe_sockets env connects binds [0..<10]"

end
