(* ===== verification/Session_Spec.thy ===== *)
theory Session_Spec
  imports Session
begin

text \<open>
  What the transports promise: the life of a registered session (locale \<open>session\<close>, interpreted for IPC and
  WebSocket), the frames the IPC reader sees with and without cancellation, and the choice of the socket.
\<close>

section \<open>Registered sessions\<close>

definition null_event :: "u64 \<Rightarrow> activity_event" where
  "null_event i = \<lparr>ev_activity = None, ev_pid = None, ev_socket_id = i\<rparr>"

fun run_steps :: "('i \<Rightarrow> 's \<Rightarrow> 's exec) \<Rightarrow> 'i list \<Rightarrow> 's \<Rightarrow> 's exec" where
  "run_steps step [] s = Ret s"
| "run_steps step (i # is) s = exec_bind (step i s) (run_steps step is)"

text \<open>\<open>kept st st'\<close>: the registry is unchanged and the broadcast has only grown; \<open>ended\<close>: the session's
  socket is gone and its null event is the last.\<close>

definition kept_open :: "server_state \<Rightarrow> server_state \<Rightarrow> bool" where
  "kept_open st st' \<longleftrightarrow>
     sockets st' = sockets st \<and> (\<exists>evs. activity_tx st' = activity_tx st @ evs)"

definition has_ended :: "u64 \<Rightarrow> server_state \<Rightarrow> server_state \<Rightarrow> bool" where
  "has_ended i st st' \<longleftrightarrow>
     sockets st' = (sockets st)(i := None)
     \<and> (\<exists>evs. activity_tx st' = activity_tx st @ evs @ [null_event i])"

lemma kept_open_trans: "kept_open st1 st2 \<Longrightarrow> kept_open st2 st3 \<Longrightarrow> kept_open st1 st3"
  by (auto simp: kept_open_def)

lemma kept_open_ended: "kept_open st1 st2 \<Longrightarrow> has_ended i st2 st3 \<Longrightarrow> has_ended i st1 st3"
  by (auto simp: kept_open_def has_ended_def)

lemma kept_open_refl [simp]: "kept_open st st"
  by (simp add: kept_open_def)

locale session =
  fixes step :: "'i \<Rightarrow> 'c \<times> server_state \<Rightarrow> ('c \<times> server_state) exec"
    and opened :: "'c \<Rightarrow> bool" and socket_id :: "'c \<Rightarrow> u64"
  assumes step_id: "step i (c, st) = Ret (c', st') \<Longrightarrow> socket_id c' = socket_id c"
    and step_open: "step i (c, st) = Ret (c', st') \<Longrightarrow> opened c' \<Longrightarrow> kept_open st st'"
    and step_end: "step i (c, st) = Ret (c', st') \<Longrightarrow> opened c \<Longrightarrow> \<not> opened c' \<Longrightarrow>
      has_ended (socket_id c) st st'"
    and step_closed: "\<not> opened c \<Longrightarrow> step i (c, st) = Ret (c, st)"
begin

lemma run_closed: "\<not> opened c \<Longrightarrow> run_steps step is (c, st) = Ret (c, st)"
  by (induction "is") (simp_all add: step_closed)

lemma run_result:
  "run_steps step is (c, st) = Ret (c', st') \<Longrightarrow> opened c \<Longrightarrow>
   socket_id c' = socket_id c
   \<and> (if opened c' then kept_open st st' else has_ended (socket_id c) st st')"
proof (induction "is" arbitrary: c st)
  case (Cons i "is")
  obtain c1 st1 where s: "step i (c, st) = Ret (c1, st1)" and r: "run_steps step is (c1, st1) = Ret (c', st')"
    using Cons.prems(1) by (auto simp: exec_simps)
  show ?case
  proof (cases "opened c1")
    case True
    with Cons.IH [OF r] step_id [OF s] step_open [OF s] show ?thesis
      by (auto intro: kept_open_trans kept_open_ended)
  next
    case False
    then have "c' = c1" "st' = st1" using run_closed r by auto
    with False step_end [OF s Cons.prems(2)] step_id [OF s] show ?thesis by simp
  qed
qed simp

end

lemma send_to_socket_kept: "kept_open st (send_to_socket i s st)"
  by (auto simp: kept_open_def send_to_socket_eq try_send_def split: option.split)

lemma try_recv_kept: "try_recv tx st = (r, st') \<Longrightarrow> kept_open st st'"
  by (auto simp: kept_open_def try_recv_def split: option.splits list.splits)

lemma dispatch_rpc_kept:
  "dispatch_rpc W J ovf clock i client_id body st = Ret st' \<Longrightarrow> kept_open st st'"
proof (cases "wl_rpc W body")
  case (Some msg)
  assume "dispatch_rpc W J ovf clock i client_id body st = Ret st'"
  with Some obtain r st1 where h: "handle_message J ovf clock i client_id msg st = Ret (r, st1)"
    and st': "st' = (case r of None \<Rightarrow> st1 | Some resp \<Rightarrow> send_to_socket i resp st1)"
    by (auto simp: dispatch_rpc_def exec_simps)
  have "kept_open st st1" using handle_message_log [OF h] by (auto simp: kept_open_def)
  then show ?thesis
    using st' send_to_socket_kept by (auto split: option.split intro: kept_open_trans)
qed (simp add: dispatch_rpc_def)

lemma end_kept:
  "kept_open st st1 \<Longrightarrow> has_ended i st (drop_receiver rx (unregister_socket i st1))"
  by (auto simp: kept_open_def has_ended_def null_event_def drop_receiver_def unregister_socket_def
      send_activity_def split: option.split)

lemmas session_simps = ipc_end_def ws_end_def end_kept

text \<open>One step of an open session: it stays open with the registry kept, or ends.\<close>

lemma ipc_frame_cases:
  assumes "ipc_frame W J ovf clock wok f c st = Ret (c', st')" and "ic_open c"
  shows "ic_socket_id c' = ic_socket_id c
    \<and> (if ic_open c' then kept_open st st' else has_ended (ic_socket_id c) st st')"
  using assms
  by (auto simp: ipc_frame_def exec_simps session_simps dispatch_rpc_kept
      split: option.splits ipc_opcode.splits if_splits)

lemma ipc_step_cases:
  assumes "ipc_step W J ovf i (c, st) = Ret (c', st')" and "ic_open c"
  shows "ic_socket_id c' = ic_socket_id c
    \<and> (if ic_open c' then kept_open st st' else has_ended (ic_socket_id c) st st')"
proof (cases i)
  case (PollRead clk wok)
  obtain f r where fr: "reader_step RPoll (ic_reader c) = (f, r)" by (cases "reader_step RPoll (ic_reader c)")
  show ?thesis
  proof (cases f)
    case None
    with assms PollRead fr show ?thesis by (auto simp: session_simps Let_def split: if_splits)
  next
    case (Some frame)
    with assms PollRead fr
    have "ipc_frame W J ovf clk wok frame (c\<lparr>ic_reader := r\<rparr>) st = Ret (c', st')" by simp
    from ipc_frame_cases [OF this] assms(2) show ?thesis by (auto split: if_splits)
  qed
next
  case (PollOut wok)
  obtain m st1 where m: "try_recv (ic_rx c) st = (m, st1)" by (cases "try_recv (ic_rx c) st")
  from try_recv_kept [OF m] assms PollOut m show ?thesis
    by (cases m) (auto simp: session_simps Let_def split: if_splits)
qed (use assms in auto)

lemma ws_step_cases:
  assumes "ws_step W J ovf i (c, st) = Ret (c', st')" and "wc_open c"
  shows "wc_socket_id c' = wc_socket_id c
    \<and> (if wc_open c' then kept_open st st' else has_ended (wc_socket_id c) st st')"
proof (cases i)
  case (WsIn m clk)
  with assms show ?thesis
    by (cases m) (auto simp: session_simps exec_simps dispatch_rpc_kept)
next
  case (WsOut wok)
  obtain m st1 where m: "try_recv (wc_rx c) st = (m, st1)" by (cases "try_recv (wc_rx c) st")
  from try_recv_kept [OF m] assms WsOut m show ?thesis
    by (cases m) (auto simp: session_simps split: if_splits)
qed

interpretation ipc: session "ipc_step W J ovf" ic_open ic_socket_id for W J ovf
proof unfold_locales
  fix i c st c' st'
  assume s: "ipc_step W J ovf i (c, st) = Ret (c', st')"
  show "ic_socket_id c' = ic_socket_id c"
    using ipc_step_cases [OF s] s by (cases "ic_open c") auto
  show "kept_open st st'" if "ic_open c'"
    using ipc_step_cases [OF s] s that by (cases "ic_open c") auto
  show "has_ended (ic_socket_id c) st st'" if "ic_open c" "\<not> ic_open c'"
    using ipc_step_cases [OF s that(1)] that by simp
qed simp

interpretation ws: session "ws_step W J ovf" wc_open wc_socket_id for W J ovf
proof unfold_locales
  fix i c st c' st'
  assume s: "ws_step W J ovf i (c, st) = Ret (c', st')"
  show "wc_socket_id c' = wc_socket_id c"
    using ws_step_cases [OF s] s by (cases "wc_open c") auto
  show "kept_open st st'" if "wc_open c'"
    using ws_step_cases [OF s] s that by (cases "wc_open c") auto
  show "has_ended (wc_socket_id c) st st'" if "wc_open c" "\<not> wc_open c'"
    using ws_step_cases [OF s that(1)] that by simp
qed simp

text \<open>
  Claim C13. The life of an IPC session. The handshake is accepted exactly for a HANDSHAKE frame whose
  payload parses with version 1 (and a peer that can be written to); the socket is then registered, and
  however the session goes on, it stays registered while the session is open, and when the session has
  ended the socket is gone and the session's null activity is the last event of the broadcast.
\<close>

theorem ipc_session_life:
  assumes "ipc_handshake W frame socket True rx st = (started, st1)"
  shows "case started of
      None \<Rightarrow> st1 = st \<and> \<not> (\<exists>op body hs. frame = Some (op, body) \<and> op = opcode_i32 OpHandshake
                              \<and> wl_handshake W body = Some hs \<and> hs_v hs = 1)
    | Some c \<Rightarrow> sockets st1 (ic_socket_id c) = Some rx \<and> ic_open c
        \<and> (\<forall>is c' st'. run_steps (ipc_step W J ovf) is (c, st1) = Ret (c', st') \<longrightarrow>
            (if ic_open c' then sockets st' (ic_socket_id c) = Some rx
             else sockets st' (ic_socket_id c) = None \<and> activity_tx st' \<noteq> []
               \<and> last (activity_tx st') = null_event (ic_socket_id c)))"
proof (cases started)
  case None
  with assms show ?thesis
    by (auto simp: ipc_handshake_def from_i32_def Let_def case_prod_unfold
        split: option.splits if_splits)
next
  case (Some c)
  with assms have r: "sockets st1 (ic_socket_id c) = Some rx" and o: "ic_open c"
    by (auto simp: ipc_handshake_def Let_def case_prod_unfold register_socket_def
        split: option.splits if_splits)
  have "if ic_open c' then sockets st' (ic_socket_id c) = Some rx
      else sockets st' (ic_socket_id c) = None \<and> activity_tx st' \<noteq> []
        \<and> last (activity_tx st') = null_event (ic_socket_id c)"
    if "run_steps (ipc_step W J ovf) is (c, st1) = Ret (c', st')" for "is" c' st'
    using ipc.run_result [OF that o] r by (auto simp: kept_open_def has_ended_def)
  with Some r o show ?thesis by simp
qed


definition sample_wire :: wire_lib where
  "sample_wire =
     \<lparr>wl_rpc = (\<lambda>b. if b = [] then Some (rpc_default\<lparr>msg_cmd := ''SET_ACTIVITY''\<rparr>) else None),
      wl_handshake = (\<lambda>b. Some \<lparr>hs_v = 1, hs_client_id = ''42''\<rparr>)\<rparr>"

lemma sample_handshake:
  obtains c st1 where "ipc_handshake sample_wire (Some (0, [])) [] True 0 server_new = (Some c, st1)"
    and "ic_socket_id c = 1" and "ic_open c" and "ic_eof c = False" and "ic_reader c = ([], [])"
  by (simp add: ipc_handshake_def sample_wire_def from_i32_def Let_def next_id_def server_new_def)

theorem ipc_session_life_witness:
  "\<exists>c st1 c' st'. ipc_handshake sample_wire (Some (0, [])) [] True 0 server_new = (Some c, st1)
    \<and> run_steps (ipc_step sample_wire ordered_lib True) [PeerEof, PollRead sample_clock True] (c, st1) = Ret (c', st')
    \<and> sockets st' 1 = None \<and> last (activity_tx st') = null_event 1"
proof -
  obtain c st1 where h: "ipc_handshake sample_wire (Some (0, [])) [] True 0 server_new = (Some c, st1)"
    and c: "ic_socket_id c = 1" "ic_open c" "ic_eof c = False" "ic_reader c = ([], [])"
    using sample_handshake .
  obtain c' st' where r: "run_steps (ipc_step sample_wire ordered_lib True)
      [PeerEof, PollRead sample_clock True] (c, st1) = Ret (c', st')" and e: "\<not> ic_open c'"
    using c by (simp add: read_frame_short Let_def ipc_end_def)
  have "if ic_open c' then sockets st' (ic_socket_id c) = Some 0
      else sockets st' (ic_socket_id c) = None \<and> activity_tx st' \<noteq> []
        \<and> last (activity_tx st') = null_event (ic_socket_id c)"
    using ipc_session_life [OF h, unfolded option.case] r by blast
  with e c have "sockets st' 1 = None \<and> last (activity_tx st') = null_event 1" by simp
  with h r show ?thesis by blast
qed

text \<open>
  The life of a WebSocket session, from the upgrade on: registered while it is open, and after a
  close frame, an error, the end of the stream or a failed write the socket is gone and its null activity
  is the last event of the broadcast.
\<close>

theorem ws_session_life:
  assumes "ws_begin client_id True rx st = (Some c, st1)"
    and "run_steps (ws_step W J ovf) is (c, st1) = Ret (c', st')"
  shows "if wc_open c' then sockets st' (wc_socket_id c) = Some rx
    else sockets st' (wc_socket_id c) = None \<and> activity_tx st' \<noteq> []
      \<and> last (activity_tx st') = null_event (wc_socket_id c)"
proof -
  have "wc_open c" and "sockets st1 (wc_socket_id c) = Some rx"
    using assms(1) by (auto simp: ws_begin_def Let_def case_prod_unfold register_socket_def)
  with ws.run_result [OF assms(2)] show ?thesis by (auto simp: kept_open_def has_ended_def)
qed

theorem ws_session_life_witness:
  "\<exists>c st1 c' st'. ws_begin ''42'' True 0 server_new = (Some c, st1)
    \<and> run_steps (ws_step sample_wire ordered_lib True) [WsIn WsClose sample_clock] (c, st1) = Ret (c', st')
    \<and> sockets st' 1 = None \<and> last (activity_tx st') = null_event 1"
proof -
  obtain c st1 where h: "ws_begin ''42'' True 0 server_new = (Some c, st1)" "wc_open c" "wc_socket_id c = 1"
    by (simp add: ws_begin_def next_id_def server_new_def)
  obtain c' st' where r: "run_steps (ws_step sample_wire ordered_lib True) [WsIn WsClose sample_clock] (c, st1)
      = Ret (c', st')" "\<not> wc_open c'"
    using h(2) by (simp add: ws_end_def)
  from ws_session_life [OF h(1) r(1)] r(2) h(3) have "sockets st' 1 = None \<and> last (activity_tx st') = null_event 1"
    by simp
  with h(1) r(1) show ?thesis by blast
qed

section \<open>Frames under cancellation\<close>

definition bytes_of :: "u8 list \<times> u8 list \<Rightarrow> u8 list" where
  "bytes_of r = fst r @ snd r"

definition arrivals :: "reader_input list \<Rightarrow> u8 list" where
  "arrivals is = concat (map (\<lambda>i. case i of RArrive bs \<Rightarrow> bs | _ \<Rightarrow> []) is)"

text \<open>No outbound message wins while a frame is half read.\<close>

fun cancel_free :: "reader_input list \<Rightarrow> u8 list \<times> u8 list \<Rightarrow> bool" where
  "cancel_free [] r = True"
| "cancel_free (i # is) r = ((i = RCancel \<longrightarrow> fst r = []) \<and> cancel_free is (snd (reader_step i r)))"

lemma read_frame_append: "read_frame bs = Inr (f, rest) \<Longrightarrow> read_frame (bs @ post) = Inr (f, rest @ post)"
  by (auto simp: read_frame_def read_exact_def Let_def split: if_splits sum.splits)

lemma reader_step_conserves:
  assumes "i = RCancel \<longrightarrow> fst r = []" and "reader_step i r = (f, r1)"
  shows "read_frames (bytes_of r @ arrivals [i] @ post)
    = (case f of None \<Rightarrow> [] | Some x \<Rightarrow> [x]) @ read_frames (bytes_of r1 @ post)"
proof (cases r)
  case (Pair held socket)
  show ?thesis
  proof (cases i)
    case RPoll
    show ?thesis
    proof (cases "read_frame (held @ socket)")
      case (Inl e)
      with assms(2) Pair RPoll show ?thesis by (auto simp: bytes_of_def arrivals_def)
    next
      case (Inr x)
      obtain g rest where x: "x = (g, rest)" by (cases x)
      from read_frames_step [OF read_frame_append [OF Inr [unfolded x]]] assms(2) Pair RPoll Inr x
      show ?thesis by (auto simp: bytes_of_def arrivals_def)
    qed
  qed (use assms Pair in \<open>auto simp: bytes_of_def arrivals_def\<close>)
qed

lemma reader_run_conserves:
  "cancel_free is r \<Longrightarrow> reader_run is r = (fs, r1) \<Longrightarrow>
   read_frames (bytes_of r @ arrivals is @ post) = fs @ read_frames (bytes_of r1 @ post)"
proof (induction "is" arbitrary: r fs)
  case Nil
  then show ?case by (simp add: arrivals_def)
next
  case (Cons i "is")
  obtain f r0 where s: "reader_step i r = (f, r0)" by (cases "reader_step i r")
  obtain fs0 where t: "reader_run is r0 = (fs0, r1)" and fs: "fs = (case f of None \<Rightarrow> fs0 | Some x \<Rightarrow> x # fs0)"
    using Cons.prems(2) s by (auto simp: Let_def split: prod.splits)
  have "arrivals (i # is) = arrivals [i] @ arrivals is" by (simp add: arrivals_def)
  then show ?case
    using reader_step_conserves [of i r f r0 "arrivals is @ post"] Cons.IH [OF _ t] Cons.prems(1) s fs
    by (auto split: option.split)
qed

text \<open>
  Claim C25. As long as no outbound message wins the \<open>select!\<close> while a frame is half read, chunking and
  scheduling do not matter: the frames seen, followed by those still to come from the bytes held and in
  the socket, are the frames of all the bytes that arrived.
\<close>

theorem reader_frames:
  assumes "cancel_free is r" and "reader_run is r = (fs, r1)"
  shows "fs @ read_frames (bytes_of r1) = read_frames (bytes_of r @ arrivals is)"
  using reader_run_conserves [OF assms, of "[]"] by simp

theorem reader_frames_witness:
  "\<exists>fs r1. reader_run [RArrive (take 3 (encode 3 [])), RPoll, RArrive (drop 3 (encode 3 [])), RPoll, RCancel] ([], [])
      = (fs, r1)
    \<and> fs @ read_frames (bytes_of r1) = read_frames (encode 3 [])"
proof -
  let ?is = "[RArrive (take 3 (encode 3 [])), RPoll, RArrive (drop 3 (encode 3 [])), RPoll, RCancel]"
  have e: "take 3 (encode 3 []) @ drop 3 (encode 3 []) = encode 3 []" by simp
  have "read_frame (take 3 (encode 3 [])) = Inl UnexpectedEof" by (simp add: read_frame_short)
  moreover have "read_frame (encode 3 []) = Inr ((3, []), [])" using read_frame_encode [of "[]" 3 "[]"] by simp
  ultimately have "cancel_free ?is ([], [])" using e by simp
  moreover obtain fs r1 where run: "reader_run ?is ([], []) = (fs, r1)" by (cases "reader_run ?is ([], [])")
  ultimately have "fs @ read_frames (bytes_of r1) = read_frames (bytes_of ([], []) @ arrivals ?is)"
    by (intro reader_frames)
  also have "bytes_of ([], []) @ arrivals ?is = encode 3 []" by (simp add: bytes_of_def arrivals_def)
  finally show ?thesis using run by blast
qed

lemma read_frames_length: "f \<in> set (read_frames bs) \<Longrightarrow> 8 + length (snd f) \<le> length bs"
proof (induction bs rule: read_frames.induct)
  case (1 bs)
  show ?case
  proof (cases "read_frame bs")
    case (Inr x)
    obtain g rest where x: "x = (g, rest)" by (cases x)
    have "8 + length (snd g) + length rest = length bs"
      using Inr x by (auto simp: read_frame_def read_exact_def Let_def split: if_splits)
    moreover have "f = g \<or> f \<in> set (read_frames rest)"
      using 1 Inr x by (auto simp: read_frames_step)
    moreover have "8 + length (snd f) \<le> length rest" if "f \<in> set (read_frames rest)"
      using 1 Inr x that by (cases g) auto
    ultimately show ?thesis by auto
  next
    case (Inl e)
    then have "read_frames bs = []" by (subst read_frames.simps) simp
    with 1 show ?thesis by simp
  qed
qed

text \<open>
  Claim C26. When an outbound message wins while a frame is half read, the bytes the dropped future held
  are lost: however the rest of the frame then arrives and is read, without further cancellation, the
  frame itself is never seen.
\<close>

theorem cancel_loses_frame:
  assumes "0 < k" and "k < length (encode op data)" and "length data < 2 ^ 32"
    and "reader_run [RArrive (take k (encode op data)), RPoll, RCancel] ([], []) = (fs0, r)"
    and "cancel_free is r" and "arrivals is = drop k (encode op data)" and "reader_run is r = (fs, r1)"
  shows "(op, as_bytes data) \<notin> set (fs0 @ fs)"
proof -
  let ?e = "encode op data"
  have l: "length ?e = 8 + length (as_bytes data)" by (simp add: encode_def Let_def)
  have n: "(op, as_bytes data) \<notin> set (read_frames bs)" if "length bs < length ?e" for bs
    using read_frames_length [of "(op, as_bytes data)" bs] that l by auto
  have "read_frame (take k ?e) = Inl x \<or> (\<exists>f rest. read_frame (take k ?e) = Inr (f, rest))" for x
    by (cases "read_frame (take k ?e)") (auto, metis io_error.exhaust)
  have "read_frame (take k ?e) \<noteq> Inr (f, rest)" for f rest
  proof
    assume a: "read_frame (take k ?e) = Inr (f, rest)"
    have "read_frame ?e = Inr (f, rest @ drop k ?e)" using read_frame_append [OF a, of "drop k ?e"] by simp
    moreover have "read_frame ?e = Inr ((op, as_bytes data), [])"
      using read_frame_encode [OF assms(3), of op "[]"] by simp
    ultimately show False using assms(2) by simp
  qed
  then obtain e where "read_frame (take k ?e) = Inl e" by (cases "read_frame (take k ?e)") auto
  with assms(4) have r: "fs0 = []" "r = ([], [])" by auto
  have "fs @ read_frames (bytes_of r1) = read_frames (drop k ?e)"
    using reader_run_conserves [OF assms(5,7), of "[]"] assms(6) r(2) by (simp add: bytes_of_def)
  then have "set fs \<subseteq> set (read_frames (drop k ?e))" by (metis Un_upper1 set_append)
  with n [of "drop k ?e"] assms(1,2) r(1) show ?thesis by auto
qed

theorem cancel_loses_frame_witness:
  "\<exists>fs0 r fs r1. reader_run [RArrive (take 5 (encode 3 ''ping'')), RPoll, RCancel] ([], []) = (fs0, r)
    \<and> reader_run [RArrive (drop 5 (encode 3 ''ping'')), RPoll, RPoll] r = (fs, r1)
    \<and> (3, as_bytes ''ping'') \<notin> set (fs0 @ fs)"
proof -
  let ?cut = "[RArrive (take 5 (encode 3 ''ping'')), RPoll, RCancel]"
  let ?is = "[RArrive (drop 5 (encode 3 ''ping'')), RPoll, RPoll]"
  obtain fs0 r where a: "reader_run ?cut ([], []) = (fs0, r)" by (cases "reader_run ?cut ([], [])")
  obtain fs r1 where b: "reader_run ?is r = (fs, r1)" by (cases "reader_run ?is r")
  have "(3, as_bytes ''ping'') \<notin> set (fs0 @ fs)"
    by (rule cancel_loses_frame [OF _ _ _ a _ _ b]) (simp_all add: encode_def Let_def arrivals_def)
  with a b show ?thesis by blast
qed

section \<open>The IPC socket\<close>

lemma ipc_path_inj: "ipc_path env m = ipc_path env n \<longleftrightarrow> m = n"
  by (simp add: ipc_path_def Let_def)

lemma probe_sockets_spec:
  "case probe_sockets env connects binds [a..<b] of (r, removed) \<Rightarrow>
    (\<forall>p \<in> set removed. \<not> connects p) \<and>
    (case r of
       None \<Rightarrow> \<forall>n \<in> {a..<b}. connects (ipc_path env n) \<or> \<not> binds (ipc_path env n)
     | Some p \<Rightarrow> \<exists>n \<in> {a..<b}. p = ipc_path env n \<and> \<not> connects p \<and> binds p
         \<and> (\<forall>m \<in> {a..<n}. connects (ipc_path env m) \<or> \<not> binds (ipc_path env m))
         \<and> set removed \<subseteq> ipc_path env ` {a..n})"
proof (induction "b - a" arbitrary: a)
  case (Suc k)
  let ?rest = "probe_sockets env connects binds [Suc a..<b]"
  have u: "[a..<b] = a # [Suc a..<b]" using Suc(2) by (simp add: upt_conv_Cons)
  have e: "{a..<b} = insert a {Suc a..<b}" using Suc(2) by auto
  have i: "{a..n} = insert a {Suc a..n}" "{a..<n} = insert a {Suc a..<n}" if "Suc a \<le> n" for n
    using that by auto
  obtain r removed where rest: "?rest = (r, removed)" by (cases ?rest)
  have ab: "a < b" using Suc(2) by simp
  have IH: "case ?rest of (r, removed) \<Rightarrow>
    (\<forall>p \<in> set removed. \<not> connects p) \<and>
    (case r of
       None \<Rightarrow> \<forall>n \<in> {Suc a..<b}. connects (ipc_path env n) \<or> \<not> binds (ipc_path env n)
     | Some p \<Rightarrow> \<exists>n \<in> {Suc a..<b}. p = ipc_path env n \<and> \<not> connects p \<and> binds p
         \<and> (\<forall>m \<in> {Suc a..<n}. connects (ipc_path env m) \<or> \<not> binds (ipc_path env m))
         \<and> set removed \<subseteq> ipc_path env ` {Suc a..n})"
    by (rule Suc(1)) (use Suc(2) in simp)
  show ?case
  proof (cases "\<not> connects (ipc_path env a) \<and> binds (ipc_path env a)")
    case True
    then show ?thesis using ab by (auto simp: u Let_def intro: bexI [of _ a])
  next
    case taken: False
    show ?thesis
    proof (cases r)
      case None
      with IH rest taken show ?thesis by (auto simp: u e Let_def)
    next
      case (Some p)
      with IH rest obtain n where n: "n \<in> {Suc a..<b}" "p = ipc_path env n" "\<not> connects p" "binds p"
        "\<forall>m \<in> {Suc a..<n}. connects (ipc_path env m) \<or> \<not> binds (ipc_path env m)"
        "set removed \<subseteq> ipc_path env ` {Suc a..n}" "\<forall>p \<in> set removed. \<not> connects p"
        by auto
      then have le: "Suc a \<le> n" by simp
      have "n \<in> {a..<b}" using n(1) by simp
      with Some rest taken n i [OF le] show ?thesis
        by (auto simp: u Let_def intro!: bexI [of _ n])
    qed
  qed
qed simp

text \<open>
  The IPC listener is bound to the first of the ten paths, in order, that no one answers on and
  that can be bound, or to none when there is no such path; no file of a path that accepts connections is
  ever removed, and none beyond the chosen path.
\<close>

theorem find_available_socket_spec:
  "case find_available_socket env connects binds of (r, removed) \<Rightarrow>
    (\<forall>p \<in> set removed. \<not> connects p) \<and>
    (case r of
       None \<Rightarrow> \<forall>n \<in> {0..<10}. connects (ipc_path env n) \<or> \<not> binds (ipc_path env n)
     | Some p \<Rightarrow> \<exists>n \<in> {0..<10}. p = ipc_path env n \<and> \<not> connects p \<and> binds p
         \<and> (\<forall>m \<in> {0..<n}. connects (ipc_path env m) \<or> \<not> binds (ipc_path env m))
         \<and> set removed \<subseteq> ipc_path env ` {0..n})"
  unfolding find_available_socket_def by (rule probe_sockets_spec)

theorem find_available_socket_spec_witness:
  "find_available_socket (\<lambda>_. None) (\<lambda>p. p = ''/tmp/discord-ipc-0'') (\<lambda>_. True)
     = (Some ''/tmp/discord-ipc-1'', [''/tmp/discord-ipc-1''])
   \<and> (\<exists>n \<in> {0..<10}. ''/tmp/discord-ipc-1'' = ipc_path (\<lambda>_. None) n)"
proof -
  have "char_of (48 :: nat) = CHR ''0''" "char_of (49 :: nat) = CHR ''1''" by code_simp+
  then have d: "dec_nat 0 = ''0''" "dec_nat (Suc 0) = ''1''" by (simp_all add: dec_nat.simps digit_char_def)
  have f: "find_available_socket (\<lambda>_. None) (\<lambda>p. p = ''/tmp/discord-ipc-0'') (\<lambda>_. True)
      = (Some ''/tmp/discord-ipc-1'', [''/tmp/discord-ipc-1''])"
    by (simp add: find_available_socket_def upt_conv_Cons ipc_path_def d Let_def)
  with find_available_socket_spec [where env = "\<lambda>_. None" and connects = "\<lambda>p. p = ''/tmp/discord-ipc-0''"
      and binds = "\<lambda>_. True"]
  show ?thesis by auto
qed

end
