(* ===== verification/Session_Owned.thy ===== *)
theory Session_Owned
  imports Session_Spec
begin

text \<open>
  What a session may touch: the locale \<open>owned_session\<close> extends \<open>session\<close> by the footprint of a step (its
  own events, its own queue, no socket id), for IPC and WebSocket and for the sum type \<open>conn\<close> of both.
\<close>

definition own_events :: "u64 \<Rightarrow> server_state \<Rightarrow> server_state \<Rightarrow> bool" where
  "own_events i st st' \<longleftrightarrow>
     (\<exists>evs. activity_tx st' = activity_tx st @ evs \<and> ev_socket_id ` set evs \<subseteq> {i})"

text \<open>The footprint of socket \<open>i\<close> with queue \<open>rx\<close>.\<close>

definition footprint :: "u64 \<Rightarrow> nat \<Rightarrow> server_state \<Rightarrow> server_state \<Rightarrow> bool" where
  "footprint i rx st st' \<longleftrightarrow>
     own_events i st st'
     \<and> (sockets st i = Some rx \<longrightarrow> (\<forall>k. k \<noteq> rx \<longrightarrow> channels st' k = channels st k))
     \<and> dom (channels st') = dom (channels st)
     \<and> next_socket_id st' = next_socket_id st
     \<and> (server_inv st \<longrightarrow> server_inv st')"

locale owned_session = session step opened socket_id
  for step :: "'i \<Rightarrow> 'c \<times> server_state \<Rightarrow> ('c \<times> server_state) exec" and opened socket_id +
  fixes receiver :: "'c \<Rightarrow> nat"
  assumes step_receiver: "step i (c, st) = Ret (c', st') \<Longrightarrow> receiver c' = receiver c"
    and step_footprint: "step i (c, st) = Ret (c', st') \<Longrightarrow> opened c \<Longrightarrow>
      footprint (socket_id c) (receiver c) st st'"
begin

text \<open>A step that ends the session appends its null event last; a later reader of the log sees it.\<close>

lemma step_log:
  assumes "step i (c, st) = Ret (c', st')" and "opened c"
  shows "\<exists>evs. activity_tx st' = activity_tx st @ evs \<and> ev_socket_id ` set evs \<subseteq> {socket_id c}
    \<and> (\<not> opened c' \<longrightarrow> evs \<noteq> [] \<and> last evs = null_event (socket_id c))"
proof -
  obtain evs where e: "activity_tx st' = activity_tx st @ evs" "ev_socket_id ` set evs \<subseteq> {socket_id c}"
    using step_footprint [OF assms] by (auto simp: footprint_def own_events_def)
  have "evs \<noteq> [] \<and> last evs = null_event (socket_id c)" if "\<not> opened c'"
    using step_end [OF assms that] e(1) by (auto simp: has_ended_def)
  with e show ?thesis by blast
qed

lemma step_sockets:
  assumes "step i (c, st) = Ret (c', st')" and "opened c"
  shows "sockets st' = (if opened c' then sockets st else (sockets st)(socket_id c := None))"
  using step_open [OF assms(1)] step_end [OF assms] by (auto simp: kept_open_def has_ended_def)

end

section \<open>The footprint of the parts of a step\<close>

lemma footprint_refl [simp]: "footprint i rx st st"
  by (simp add: footprint_def own_events_def exI [of _ "[]"])

lemma own_events_trans: "own_events i st1 st2 \<Longrightarrow> own_events i st2 st3 \<Longrightarrow> own_events i st1 st3"
  by (force simp: own_events_def)

lemma footprint_trans:
  assumes "footprint i rx st1 st2" and "footprint i rx st2 st3" and "sockets st2 = sockets st1"
  shows "footprint i rx st1 st3"
  using assms by (auto simp: footprint_def intro: own_events_trans)

lemma server_inv_unregister: "server_inv st \<Longrightarrow> server_inv (unregister_socket i st)"
  by (simp add: server_inv_def unregister_socket_def send_activity_def)

lemma own_events_same: "activity_tx st' = activity_tx st \<Longrightarrow> own_events i st st'"
  by (simp add: own_events_def)

lemma footprint_send: "footprint i rx st (send_to_socket i s st)"
proof -
  have "dom (channels (send_to_socket i s st)) = dom (channels st)"
    and "next_socket_id (send_to_socket i s st) = next_socket_id st"
    and "sockets st i = Some rx \<Longrightarrow> k \<noteq> rx \<Longrightarrow> channels (send_to_socket i s st) k = channels st k" for k
    by (auto simp: send_to_socket_eq try_send_def split: option.splits)
  then show ?thesis
    by (simp add: footprint_def own_events_same send_to_socket_log server_inv_send)
qed

lemma footprint_recv:
  assumes "try_recv rx st = (r, st')"
  shows "footprint i rx st st'"
proof -
  have "dom (channels st') = dom (channels st)" "next_socket_id st' = next_socket_id st"
    "k \<noteq> rx \<Longrightarrow> channels st' k = channels st k" for k
    using assms by (auto simp: try_recv_def split: option.splits list.splits if_splits)
  then show ?thesis
    using assms by (simp add: footprint_def own_events_same try_recv_log server_inv_recv)
qed

lemma footprint_message:
  assumes "handle_message J ovf clock i client_id msg st = Ret (r, st')"
  shows "footprint i rx st st' \<and> sockets st' = sockets st"
proof -
  obtain evs where e: "st' = st\<lparr>activity_tx := activity_tx st @ evs\<rparr>" "ev_socket_id ` set evs \<subseteq> {i}"
    using handle_message_owned [OF assms] by blast
  then show ?thesis by (auto simp: footprint_def own_events_def server_inv_def)
qed

lemma footprint_dispatch:
  assumes "dispatch_rpc W J ovf clock i client_id body st = Ret st'"
  shows "footprint i rx st st'"
proof (cases "wl_rpc W body")
  case (Some msg)
  with assms obtain r st1 where h: "handle_message J ovf clock i client_id msg st = Ret (r, st1)"
    and st': "st' = (case r of None \<Rightarrow> st1 | Some resp \<Rightarrow> send_to_socket i resp st1)"
    by (auto simp: dispatch_rpc_def exec_simps)
  show ?thesis
    using footprint_message [OF h, of rx] footprint_send [of i rx st1] st'
    by (auto split: option.split intro: footprint_trans)
qed (use assms in \<open>simp add: dispatch_rpc_def\<close>)

lemma footprint_end:
  assumes "footprint i rx st st1" and "sockets st1 = sockets st"
  shows "footprint i rx st (drop_receiver rx (unregister_socket i st1))"
proof -
  have "footprint i rx st1 (drop_receiver rx (unregister_socket i st1))"
    by (auto simp: footprint_def own_events_def drop_receiver_log unregister_socket_def send_activity_def
        drop_receiver_def server_inv_drop server_inv_unregister server_inv_def chan_ok_def
        split: option.splits)
  with assms show ?thesis by (auto intro: footprint_trans)
qed

lemma try_recv_sockets: "try_recv rx st = (r, st') \<Longrightarrow> sockets st' = sockets st"
  by (auto simp: try_recv_def split: option.splits list.splits)

lemmas footprint_intros = footprint_dispatch footprint_end footprint_recv footprint_refl

section \<open>Both transports\<close>

lemma ipc_frame_footprint:
  assumes "ipc_frame W J ovf clock wok f c st = Ret (c', st')"
  shows "ic_rx c' = ic_rx c \<and> footprint (ic_socket_id c) (ic_rx c) st st'"
  using assms
  by (auto simp: ipc_frame_def exec_simps ipc_end_def
      split: option.splits ipc_opcode.splits if_splits intro: footprint_intros)

lemma ipc_step_footprint:
  assumes "ipc_step W J ovf i (c, st) = Ret (c', st')" and "ic_open c"
  shows "ic_rx c' = ic_rx c \<and> footprint (ic_socket_id c) (ic_rx c) st st'"
proof (cases i)
  case (PollRead clk wok)
  obtain f r where fr: "reader_step RPoll (ic_reader c) = (f, r)" by (cases "reader_step RPoll (ic_reader c)")
  show ?thesis
  proof (cases f)
    case None
    with assms PollRead fr show ?thesis
      by (auto simp: ipc_end_def Let_def split: if_splits intro: footprint_intros)
  next
    case (Some frame)
    with assms PollRead fr
    have "ipc_frame W J ovf clk wok frame (c\<lparr>ic_reader := r\<rparr>) st = Ret (c', st')" by simp
    from ipc_frame_footprint [OF this] show ?thesis by simp
  qed
next
  case (PollOut wok)
  obtain m st1 where m: "try_recv (ic_rx c) st = (m, st1)" by (cases "try_recv (ic_rx c) st")
  from footprint_recv [OF m] try_recv_sockets [OF m] assms PollOut m show ?thesis
    by (cases m) (auto simp: ipc_end_def Let_def split: if_splits intro: footprint_end)
qed (use assms in auto)

lemma ws_step_footprint:
  assumes "ws_step W J ovf i (c, st) = Ret (c', st')" and "wc_open c"
  shows "wc_rx c' = wc_rx c \<and> footprint (wc_socket_id c) (wc_rx c) st st'"
proof (cases i)
  case (WsIn m clk)
  with assms show ?thesis
    by (cases m) (auto simp: ws_end_def exec_simps intro: footprint_intros)
next
  case (WsOut wok)
  obtain m st1 where m: "try_recv (wc_rx c) st = (m, st1)" by (cases "try_recv (wc_rx c) st")
  from footprint_recv [OF m] try_recv_sockets [OF m] assms WsOut m show ?thesis
    by (cases m) (auto simp: ws_end_def split: if_splits intro: footprint_end)
qed

interpretation ipc_owned: owned_session "ipc_step W J ovf" ic_open ic_socket_id ic_rx for W J ovf
proof unfold_locales
  fix i c st c' st'
  assume s: "ipc_step W J ovf i (c, st) = Ret (c', st')"
  show "ic_rx c' = ic_rx c" using ipc_step_footprint [OF s] s by (cases "ic_open c") auto
  show "footprint (ic_socket_id c) (ic_rx c) st st'" if "ic_open c"
    using ipc_step_footprint [OF s that] by simp
qed

interpretation ws_owned: owned_session "ws_step W J ovf" wc_open wc_socket_id wc_rx for W J ovf
proof unfold_locales
  fix i c st c' st'
  assume s: "ws_step W J ovf i (c, st) = Ret (c', st')"
  show "wc_rx c' = wc_rx c" using ws_step_footprint [OF s] s by (cases "wc_open c") auto
  show "footprint (wc_socket_id c) (wc_rx c) st st'" if "wc_open c"
    using ws_step_footprint [OF s that] by simp
qed

section \<open>A connection of either kind\<close>

datatype conn = IpcConn ipc_conn | WsConn ws_conn

datatype conn_input = IpcInput ipc_input | WsInput ws_input

fun conn_step ::
  "wire_lib \<Rightarrow> json_lib \<Rightarrow> bool \<Rightarrow> conn_input \<Rightarrow> conn \<times> server_state \<Rightarrow> (conn \<times> server_state) exec" where
  "conn_step W J ovf (IpcInput i) (IpcConn c, st) =
     exec_map (\<lambda>(c', st'). (IpcConn c', st')) (ipc_step W J ovf i (c, st))"
| "conn_step W J ovf (WsInput i) (WsConn c, st) =
     exec_map (\<lambda>(c', st'). (WsConn c', st')) (ws_step W J ovf i (c, st))"
| "conn_step W J ovf i (c, st) = Ret (c, st)"

fun conn_open :: "conn \<Rightarrow> bool" where
  "conn_open (IpcConn c) = ic_open c"
| "conn_open (WsConn c) = wc_open c"

fun conn_id :: "conn \<Rightarrow> u64" where
  "conn_id (IpcConn c) = ic_socket_id c"
| "conn_id (WsConn c) = wc_socket_id c"

fun conn_rx :: "conn \<Rightarrow> nat" where
  "conn_rx (IpcConn c) = ic_rx c"
| "conn_rx (WsConn c) = wc_rx c"

lemma conn_step_cases:
  assumes "conn_step W J ovf i (c, st) = Ret (c', st')"
  obtains (ipc) j d d' where "i = IpcInput j" "c = IpcConn d" "c' = IpcConn d'"
      "ipc_step W J ovf j (d, st) = Ret (d', st')"
  | (ws) j d d' where "i = WsInput j" "c = WsConn d" "c' = WsConn d'"
      "ws_step W J ovf j (d, st) = Ret (d', st')"
  | (same) "c' = c" "st' = st"
  using assms by (cases i; cases c) (auto simp: exec_simps simp del: ipc_step.simps ws_step.simps)

interpretation conns: owned_session "conn_step W J ovf" conn_open conn_id conn_rx for W J ovf
proof unfold_locales
  fix i c st c' st'
  assume s: "conn_step W J ovf i (c, st) = Ret (c', st')"
  show "conn_id c' = conn_id c"
    using s by (rule conn_step_cases) (simp_all add: ipc.step_id ws.step_id del: ipc_step.simps ws_step.simps)
  show "conn_rx c' = conn_rx c"
    using s by (rule conn_step_cases)
      (simp_all add: ipc_owned.step_receiver ws_owned.step_receiver del: ipc_step.simps ws_step.simps)
  show "kept_open st st'" if "conn_open c'"
    using s by (rule conn_step_cases) (use that in \<open>auto intro: ipc.step_open ws.step_open\<close>)
  show "has_ended (conn_id c) st st'" if "conn_open c" "\<not> conn_open c'"
    using s by (rule conn_step_cases) (use that in \<open>auto intro: ipc.step_end ws.step_end\<close>)
  show "footprint (conn_id c) (conn_rx c) st st'" if "conn_open c"
    using s by (rule conn_step_cases)
      (use that in \<open>auto intro: ipc_owned.step_footprint ws_owned.step_footprint\<close>)
next
  fix i c st
  assume "\<not> conn_open c"
  then show "conn_step W J ovf i (c, st) = Ret (c, st)" by (cases i; cases c) simp_all
qed

end
