(* ===== verification/Response.thy ===== *)
theory Response
  imports Session_Owned
begin

text \<open>
  Requests are answered: the locale \<open>outbox\<close> extends \<open>session\<close> by the outbound branch of the \<open>select!\<close>
  loop, which moves the head of the queue to the peer; it is interpreted for both transports, and gives
  for each the path of a request from its arrival to the response on the wire.
\<close>

locale outbox = session step opened socket_id
  for step :: "'i \<Rightarrow> 'c \<times> server_state \<Rightarrow> ('c \<times> server_state) exec" and opened socket_id +
  fixes receiver :: "'c \<Rightarrow> nat" and poll :: 'i and emit :: "str \<Rightarrow> 'c \<Rightarrow> 'c"
  assumes poll_message: "opened c \<Longrightarrow> try_recv (receiver c) st = (Some m, st1) \<Longrightarrow>
      step poll (c, st) = Ret (emit m c, st1)"
    and emit_opened: "opened c \<Longrightarrow> opened (emit m c)"
    and emit_receiver: "receiver (emit m c) = receiver c"
begin

lemma drain:
  "opened c \<Longrightarrow> channels st (receiver c) = Some ch \<Longrightarrow>
   run_steps step (replicate (length (ch_queue ch)) poll) (c, st)
   = Ret (fold emit (ch_queue ch) c,
       st\<lparr>channels := (channels st)(receiver c \<mapsto> ch\<lparr>ch_queue := []\<rparr>)\<rparr>)"
proof (induction "ch_queue ch" arbitrary: c ch st)
  case Nil
  have q: "ch_queue ch = []" using Nil(1) by simp
  then have ch: "ch\<lparr>ch_queue := []\<rparr> = ch" by (cases ch) simp
  have "st\<lparr>channels := (channels st)(receiver c \<mapsto> ch)\<rparr> = st" using Nil.prems by (simp add: fun_upd_idem)
  then show ?case by (simp add: q ch del: fun_upd_apply)
next
  case (Cons m q)
  let ?ch = "ch\<lparr>ch_queue := q\<rparr>"
  let ?st = "st\<lparr>channels := (channels st)(receiver c \<mapsto> ?ch)\<rparr>"
  have q: "ch_queue ch = m # q" using Cons(2) by simp
  then have "try_recv (receiver c) st = (Some m, ?st)" using Cons.prems by (simp add: try_recv_def)
  then have s: "step poll (c, st) = Ret (emit m c, ?st)" by (rule poll_message [OF Cons.prems(1)])
  have "run_steps step (replicate (length q) poll) (emit m c, ?st)
      = Ret (fold emit q (emit m c), st\<lparr>channels := (channels st)(receiver c \<mapsto> ch\<lparr>ch_queue := []\<rparr>)\<rparr>)"
    using Cons(1) [of ?ch "emit m c" ?st] Cons.prems by (simp add: emit_opened emit_receiver)
  with q s show ?case by simp
qed

lemma fold_emit_opened: "opened c \<Longrightarrow> opened (fold emit ms c)"
  by (induction ms arbitrary: c) (simp_all add: emit_opened)

text \<open>A response that finds room in the queue is sent after what was queued before it.\<close>

lemma answered:
  assumes "opened c" and "sockets st (socket_id c) = Some (receiver c)"
    and "channels st (receiver c) = Some ch" and "\<not> ch_closed ch"
    and "length (ch_queue ch) < SOCKET_QUEUE_CAPACITY"
  shows "run_steps step (replicate (length (ch_queue ch) + 1) poll) (c, send_to_socket (socket_id c) resp st)
    = Ret (fold emit (ch_queue ch @ [resp]) c,
        st\<lparr>channels := (channels st)(receiver c \<mapsto> ch\<lparr>ch_queue := []\<rparr>)\<rparr>)"
proof -
  let ?ch = "ch\<lparr>ch_queue := ch_queue ch @ [resp]\<rparr>"
  have "send_to_socket (socket_id c) resp st = st\<lparr>channels := (channels st)(receiver c \<mapsto> ?ch)\<rparr>"
    using assms(5) by (simp add: send_to_socket_open [OF assms(2-4)])
  with drain [of c "st\<lparr>channels := (channels st)(receiver c \<mapsto> ?ch)\<rparr>" ?ch] assms(1) show ?thesis by simp
qed

end

definition ws_emit :: "str \<Rightarrow> ws_conn \<Rightarrow> ws_conn" where
  "ws_emit m c = c\<lparr>wc_sent := wc_sent c @ [m]\<rparr>"

definition ipc_emit :: "str \<Rightarrow> ipc_conn \<Rightarrow> ipc_conn" where
  "ipc_emit m c = c\<lparr>ic_reader := snd (reader_step RCancel (ic_reader c)),
                    ic_out := ic_out c @ encode (opcode_i32 OpFrame) m\<rparr>"

interpretation ws_outbox: outbox "ws_step W J ovf" wc_open wc_socket_id wc_rx "WsOut True" ws_emit for W J ovf
  by unfold_locales (simp_all add: ws_emit_def)

interpretation ipc_outbox:
  outbox "ipc_step W J ovf" ic_open ic_socket_id ic_rx "PollOut True" ipc_emit for W J ovf
  by unfold_locales (simp_all add: ipc_emit_def)

lemma fold_ws_emit: "fold ws_emit ms c = c\<lparr>wc_sent := wc_sent c @ ms\<rparr>"
  by (induction ms arbitrary: c) (simp_all add: ws_emit_def)

lemma fold_ipc_emit:
  "ic_reader c = ([], rest) \<Longrightarrow>
   fold ipc_emit ms c = c\<lparr>ic_out := ic_out c @ concat (map (encode (opcode_i32 OpFrame)) ms)\<rparr>"
proof (induction ms arbitrary: c)
  case (Cons m ms)
  then have "ipc_emit m c = c\<lparr>ic_out := ic_out c @ encode (opcode_i32 OpFrame) m\<rparr>"
    by (cases c) (simp add: ipc_emit_def)
  with Cons show ?case by simp
qed simp

lemma dispatch_answer:
  assumes "wl_rpc W body = Some msg" and "handle_message J ovf clock i client_id msg st = Ret (Some resp, st1)"
  shows "dispatch_rpc W J ovf clock i client_id body st = Ret (send_to_socket i resp st1)"
  using assms by (simp add: dispatch_rpc_def)

lemma handle_message_frame:
  assumes "handle_message J ovf clock i client_id msg st = Ret (r, st1)"
  shows "sockets st1 = sockets st" "channels st1 = channels st"
  using handle_message_log [OF assms] by auto

text \<open>
  Claim C6. Every IPC request is answered. The bytes of a frame with an RPC message for which the server
  has a response arrive at an open session that is between two frames and whose queue is not full: one
  read and as many turns of the outbound branch as there are messages bring the queued messages and then
  the response onto the wire, each as one frame; the session stays open with an empty queue.
\<close>

theorem ipc_request_answered:
  assumes "ic_open c" and "ic_reader c = ([], [])" and "sockets st (ic_socket_id c) = Some (ic_rx c)"
    and "channels st (ic_rx c) = Some ch" and "\<not> ch_closed ch"
    and "length (ch_queue ch) < SOCKET_QUEUE_CAPACITY"
    and "length js < 2 ^ 32" and "wl_rpc W (as_bytes js) = Some msg"
    and "handle_message J ovf clock (ic_socket_id c) (ic_client_id c) msg st = Ret (Some resp, st1)"
  shows "run_steps (ipc_step W J ovf)
      (Arrive (encode (opcode_i32 OpFrame) js) # PollRead clock write_ok
        # replicate (length (ch_queue ch) + 1) (PollOut True)) (c, st)
    = Ret (c\<lparr>ic_out := ic_out c @ concat (map (encode (opcode_i32 OpFrame)) (ch_queue ch @ [resp]))\<rparr>,
        st1\<lparr>channels := (channels st1)(ic_rx c \<mapsto> ch\<lparr>ch_queue := []\<rparr>)\<rparr>)"
proof -
  let ?bytes = "encode (opcode_i32 OpFrame) js"
  let ?c1 = "c\<lparr>ic_reader := ([], ?bytes)\<rparr>"
  have r: "reader_step RPoll ([], ?bytes) = (Some (opcode_i32 OpFrame, as_bytes js), [], [])"
    using read_frame_encode [OF assms(7), of "opcode_i32 OpFrame" "[]"] by simp
  have c: "?c1\<lparr>ic_reader := ([], [])\<rparr> = c" using assms(2) by (cases c) simp
  have "ipc_step W J ovf (PollRead clock write_ok) (?c1, st)
      = Ret (c, send_to_socket (ic_socket_id c) resp st1)"
    using assms(1) c r dispatch_answer [OF assms(8,9)]
    by (simp add: ipc_frame_def from_i32_def del: reader_step.simps)
  moreover have "ipc_step W J ovf (Arrive ?bytes) (c, st) = Ret (?c1, st)"
    using assms(1,2) by simp
  moreover have "run_steps (ipc_step W J ovf) (replicate (length (ch_queue ch) + 1) (PollOut True))
      (c, send_to_socket (ic_socket_id c) resp st1)
    = Ret (fold ipc_emit (ch_queue ch @ [resp]) c,
        st1\<lparr>channels := (channels st1)(ic_rx c \<mapsto> ch\<lparr>ch_queue := []\<rparr>)\<rparr>)"
    by (rule ipc_outbox.answered) (simp_all add: assms(1,3-6) handle_message_frame [OF assms(9)])
  ultimately show ?thesis
    by (simp only: run_steps.simps exec_bind.simps fold_ipc_emit [OF assms(2)])
qed

text \<open>
  Claim C18. Every WebSocket request is answered: after the text message, as many turns of the outbound
  branch as there are messages send what was queued and then the response.
\<close>

theorem ws_request_answered:
  assumes "wc_open c" and "sockets st (wc_socket_id c) = Some (wc_rx c)"
    and "channels st (wc_rx c) = Some ch" and "\<not> ch_closed ch"
    and "length (ch_queue ch) < SOCKET_QUEUE_CAPACITY" and "wl_rpc W body = Some msg"
    and "handle_message J ovf clock (wc_socket_id c) (wc_client_id c) msg st = Ret (Some resp, st1)"
  shows "run_steps (ws_step W J ovf)
      (WsIn (WsText body) clock # replicate (length (ch_queue ch) + 1) (WsOut True)) (c, st)
    = Ret (c\<lparr>wc_sent := wc_sent c @ ch_queue ch @ [resp]\<rparr>,
        st1\<lparr>channels := (channels st1)(wc_rx c \<mapsto> ch\<lparr>ch_queue := []\<rparr>)\<rparr>)"
proof -
  have "ws_step W J ovf (WsIn (WsText body) clock) (c, st) = Ret (c, send_to_socket (wc_socket_id c) resp st1)"
    using assms(1) dispatch_answer [OF assms(6,7)] by simp
  moreover have "run_steps (ws_step W J ovf) (replicate (length (ch_queue ch) + 1) (WsOut True))
      (c, send_to_socket (wc_socket_id c) resp st1)
    = Ret (fold ws_emit (ch_queue ch @ [resp]) c,
        st1\<lparr>channels := (channels st1)(wc_rx c \<mapsto> ch\<lparr>ch_queue := []\<rparr>)\<rparr>)"
    by (rule ws_outbox.answered) (simp_all add: assms(1-5) handle_message_frame [OF assms(7)])
  ultimately show ?thesis
    by (simp only: run_steps.simps exec_bind.simps fold_ws_emit)
qed

text \<open>A session whose requests are all answered with an error code.\<close>

definition callback_wire :: wire_lib where
  "callback_wire = sample_wire\<lparr>wl_rpc := \<lambda>_. Some (rpc_default\<lparr>msg_cmd := ''CONNECTIONS_CALLBACK''\<rparr>)\<rparr>"

lemma callback_answer:
  obtains resp where "handle_message ordered_lib True clock i client_id
    (rpc_default\<lparr>msg_cmd := ''CONNECTIONS_CALLBACK''\<rparr>) st = Ret (Some resp, st)"
  by (simp add: handle_message_def respond_def ordered_lib_def)

theorem ipc_request_answered_witness:
  "\<exists>c st c' st' resp. ipc_handshake callback_wire (Some (0, [])) [] True 0 server_new = (Some c, st)
    \<and> run_steps (ipc_step callback_wire ordered_lib True)
        [Arrive (encode (opcode_i32 OpFrame) ''{}''), PollRead sample_clock True, PollOut True] (c, st)
      = Ret (c', st')
    \<and> ic_out c' = ic_out c @ encode (opcode_i32 OpFrame) resp"
proof -
  obtain c st where h: "ipc_handshake callback_wire (Some (0, [])) [] True 0 server_new = (Some c, st)"
    and c: "ic_open c" "ic_reader c = ([], [])" "sockets st (ic_socket_id c) = Some (ic_rx c)"
      "channels st (ic_rx c) = Some \<lparr>ch_queue = [], ch_closed = False\<rparr>"
    by (simp add: ipc_handshake_def callback_wire_def sample_wire_def from_i32_def Let_def next_id_def
        server_new_def register_socket_def open_channel_def)
  obtain resp where r: "handle_message ordered_lib True sample_clock (ic_socket_id c) (ic_client_id c)
      (rpc_default\<lparr>msg_cmd := ''CONNECTIONS_CALLBACK''\<rparr>) st = Ret (Some resp, st)"
    by (rule callback_answer)
  have "wl_rpc callback_wire (as_bytes ''{}'') = Some (rpc_default\<lparr>msg_cmd := ''CONNECTIONS_CALLBACK''\<rparr>)"
    by (simp add: callback_wire_def)
  from ipc_request_answered [OF c _ _ _ this r] h show ?thesis
    by (fastforce simp del: ipc_step.simps simp: SOCKET_QUEUE_CAPACITY_def)
qed

theorem ws_request_answered_witness:
  "\<exists>c st c' st' resp. ws_begin ''42'' True 0 server_new = (Some c, st)
    \<and> run_steps (ws_step callback_wire ordered_lib True) [WsIn (WsText []) sample_clock, WsOut True] (c, st)
      = Ret (c', st')
    \<and> wc_sent c' = [READY_PAYLOAD, resp]"
proof -
  obtain c st where h: "ws_begin ''42'' True 0 server_new = (Some c, st)" "wc_sent c = [READY_PAYLOAD]"
    and c: "wc_open c" "sockets st (wc_socket_id c) = Some (wc_rx c)"
      "channels st (wc_rx c) = Some \<lparr>ch_queue = [], ch_closed = False\<rparr>"
    by (simp add: ws_begin_def next_id_def server_new_def register_socket_def open_channel_def)
  obtain resp where r: "handle_message ordered_lib True sample_clock (wc_socket_id c) (wc_client_id c)
      (rpc_default\<lparr>msg_cmd := ''CONNECTIONS_CALLBACK''\<rparr>) st = Ret (Some resp, st)"
    by (rule callback_answer)
  have "wl_rpc callback_wire [] = Some (rpc_default\<lparr>msg_cmd := ''CONNECTIONS_CALLBACK''\<rparr>)"
    by (simp add: callback_wire_def)
  from ws_request_answered [OF c _ _ this r] h show ?thesis
    by (fastforce simp del: ws_step.simps simp: SOCKET_QUEUE_CAPACITY_def)
qed

end
