(* ===== verification/Paths.thy ===== *)
theory Paths
  imports Utf8 "HOL-Library.Sublist"
begin

text \<open>
  The path helpers of \<open>src/process/detectable.rs\<close>: \<open>path_filename\<close> (two backward byte scans),
  \<open>strip_64_suffix\<close> (byte comparisons at the end of the name) and \<open>path_variants\<close> (one joined suffix
  and offsets into it). Every \<open>&s[i..j]\<close> of the code is a checked \<open>str_slice\<close>, so a panic is a value of the
  model. The specifications are on lists of path components.
\<close>

definition is_sep :: "char \<Rightarrow> bool" where
  "is_sep c \<longleftrightarrow> c = CHR ''/'' \<or> c = CHR 0x5C"

lemma is_sep_ascii: "is_sep c \<Longrightarrow> is_ascii c"
  by (auto simp: is_sep_def is_ascii_def byte_def)

text \<open>\<open>path.split(['/', '\\']).filter(|s| !s.is_empty())\<close>.\<close>

definition components :: "str \<Rightarrow> str list" where
  "components path = filter (\<lambda>s. s \<noteq> []) (split_on is_sep path)"

section \<open>The code\<close>

text \<open>The two \<open>while\<close> loops of \<open>path_filename\<close>.\<close>

primrec skip_seps :: "str \<Rightarrow> nat \<Rightarrow> nat" where
  "skip_seps bytes 0 = 0"
| "skip_seps bytes (Suc n) = (if is_sep (bytes ! n) then skip_seps bytes n else Suc n)"

primrec find_start :: "str \<Rightarrow> nat \<Rightarrow> nat" where
  "find_start bytes 0 = 0"
| "find_start bytes (Suc n) = (if \<not> is_sep (bytes ! n) then find_start bytes n else Suc n)"

definition path_filename :: "str \<Rightarrow> str exec" where
  "path_filename path =
     (let end = skip_seps path (length path)
      in if end = 0 then Ret [] else str_slice path (find_start path end) end)"

definition strip_64_suffix :: "str \<Rightarrow> str exec" where
  "strip_64_suffix name =
     (let b = name; len = length b
      in if 4 \<le> len \<and> drop (len - 4) b = ''.x64'' then str_slice name 0 (len - 4)
         else if len < 2 \<or> b ! (len - 2) \<noteq> CHR ''6'' \<or> b ! (len - 1) \<noteq> CHR ''4'' then Ret name
         else if 3 \<le> len \<and> (b ! (len - 3) = CHR ''x'' \<or> b ! (len - 3) = CHR ''_'')
              then str_slice name 0 (len - 3)
         else str_slice name 0 (len - 2))"

definition str_find :: "char \<Rightarrow> str \<Rightarrow> nat option" where
  "str_find c s =
     (let n = length (takeWhile (\<lambda>x. x \<noteq> c) s) in if n < length s then Some n else None)"

fun variants_loop :: "nat \<Rightarrow> str \<Rightarrow> nat \<Rightarrow> str list \<Rightarrow> str list exec" where
  "variants_loop 0 full offset variants = Ret variants"
| "variants_loop (Suc n) full offset variants =
     exec_bind (str_slice full offset (length full)) (\<lambda>suf.
     exec_bind
       (if suffix ''64'' suf
        then exec_bind (strip_64_suffix suf) (\<lambda>cleaned.
               Ret (if length cleaned < length suf
                    then variants @ [suf] @ [cleaned] else variants @ [suf]))
        else Ret (variants @ [suf])) (\<lambda>variants'.
     variants_loop n full
       (case str_find CHR ''/'' suf of Some pos \<Rightarrow> offset + (pos + 1) | None \<Rightarrow> offset) variants'))"

declare variants_loop.simps(2) [simp del]

definition path_variants :: "str \<Rightarrow> str list exec" where
  "path_variants path =
     (let parts = components path;
          start = (if 4 < length parts then length parts - 4 else 0)
      in if length parts \<le> start then Ret []
         else variants_loop (length parts - start) (join_with ''/'' (drop start parts)) 0 [])"

section \<open>Valid pieces\<close>

lemma split_on_context:
  "split_on p s = y # ys \<Longrightarrow>
   (\<exists>b. s = y @ b \<and> (b = [] \<or> p (hd b))) \<and>
   (\<forall>z \<in> set ys. \<exists>a b. s = a @ z @ b \<and> a \<noteq> [] \<and> p (last a) \<and> (b = [] \<or> p (hd b)))"
proof (induction s arbitrary: y ys)
  case (Cons c s)
  obtain y' ys' where s: "split_on p s = y' # ys'" by (cases "split_on p s") auto
  note IH = Cons.IH [OF s]
  show ?case
  proof (cases "p c")
    case True
    then have y: "y = []" "ys = y' # ys'" using Cons.prems s by auto
    have "\<exists>a b. c # s = a @ z @ b \<and> a \<noteq> [] \<and> p (last a) \<and> (b = [] \<or> p (hd b))" if z: "z \<in> set ys" for z
    proof (cases "z = y'")
      case True
      with IH \<open>p c\<close> show ?thesis by (metis append_Cons append_Nil last.simps list.distinct(1))
    next
      case False
      then have "z \<in> set ys'" using z y by auto
      with IH obtain a b where "s = a @ z @ b" "a \<noteq> []" "p (last a)" "b = [] \<or> p (hd b)"
        by blast
      then show ?thesis by (metis append_Cons last.simps list.distinct(1))
    qed
    then show ?thesis using True y by auto
  next
    case False
    then have y: "y = c # y'" "ys = ys'" using Cons.prems s by auto
    show ?thesis unfolding y using IH by (metis append_Cons last.simps list.distinct(1))
  qed
qed simp

lemma after_ascii_valid:
  assumes "valid_utf8 (a @ s)" and "a = [] \<or> is_ascii (last a)"
  shows "valid_utf8 s"
proof (cases "a = []")
  case False
  then obtain a' c where a: "a = a' @ [c]" by (metis rev_exhaust)
  then have c: "is_ascii c" using assms(2) False by simp
  then have "valid_utf8 (c # s)" using assms(1) valid_utf8_split [of a' "c # s"] a by simp
  then show ?thesis using c by (simp add: valid_utf8_Cons_ascii)
qed (use assms in simp)

lemma before_ascii_valid:
  assumes "valid_utf8 (s @ b)" and "b = [] \<or> is_ascii (hd b)"
  shows "valid_utf8 s"
  using assms valid_utf8_split [of s b] by auto

lemma valid_split_on:
  assumes "valid_utf8 s" and "\<And>c. p c \<Longrightarrow> is_ascii c" and "z \<in> set (split_on p s)"
  shows "valid_utf8 z"
proof -
  obtain y ys where s: "split_on p s = y # ys" by (cases "split_on p s") auto
  obtain a b where ab: "s = a @ z @ b" "a = [] \<or> is_ascii (last a)" "b = [] \<or> is_ascii (hd b)"
    using split_on_context [OF s] assms(2,3) s by (metis append_Nil set_ConsD)
  then show ?thesis
    using assms(1) after_ascii_valid [of a "z @ b"] before_ascii_valid [of z b] by auto
qed

lemma valid_components: "valid_utf8 path \<Longrightarrow> z \<in> set (components path) \<Longrightarrow> valid_utf8 z"
  by (auto simp: components_def intro: valid_split_on is_sep_ascii)

lemma components_nonempty: "z \<in> set (components path) \<Longrightarrow> z \<noteq> []"
  by (simp add: components_def)

lemma components_no_sep: "z \<in> set (components path) \<Longrightarrow> c \<in> set z \<Longrightarrow> \<not> is_sep c"
  by (auto simp: components_def dest: split_on_pieces)

section \<open>path_filename\<close>

text \<open>The specification: the last non-empty component, or nothing.\<close>

definition last_component :: "str \<Rightarrow> str" where
  "last_component path = (if components path = [] then [] else last (components path))"

lemma skip_seps_rev:
  "n \<le> length p \<Longrightarrow> skip_seps p n = length (dropWhile is_sep (rev (take n p)))"
  by (induction n) (auto simp: take_Suc_conv_app_nth)

lemma find_start_rev:
  "n \<le> length p \<Longrightarrow>
   find_start p n + length (takeWhile (\<lambda>c. \<not> is_sep c) (rev (take n p))) = n"
  by (induction n) (auto simp: take_Suc_conv_app_nth)

lemma split_on_snoc:
  "split_on p (xs @ [x]) =
     (if p x then split_on p xs @ [[]]
      else butlast (split_on p xs) @ [last (split_on p xs) @ [x]])"
proof (induction xs)
  case (Cons a xs)
  obtain y ys where "split_on p xs = y # ys" by (cases "split_on p xs") auto
  with Cons show ?case by (cases ys rule: rev_cases) auto
qed simp

lemma last_split_on_rev:
  "last (split_on p xs) = rev (takeWhile (\<lambda>x. \<not> p x) (rev xs))"
  by (induction xs rule: rev_induct) (auto simp: split_on_snoc)

lemma last_component_rev:
  "last_component path
     = rev (takeWhile (\<lambda>c. \<not> is_sep c) (dropWhile is_sep (rev path)))"
proof (induction path rule: rev_induct)
  case Nil
  show ?case by (simp add: last_component_def components_def)
next
  case (snoc c path)
  show ?case
  proof (cases "is_sep c")
    case True
    then have "components (path @ [c]) = components path"
      by (simp add: components_def split_on_snoc)
    then have "last_component (path @ [c]) = last_component path" by (simp add: last_component_def)
    with snoc True show ?thesis by simp
  next
    case False
    then have "components (path @ [c]) = filter (\<lambda>s. s \<noteq> []) (butlast (split_on is_sep path))
        @ [last (split_on is_sep path) @ [c]]"
      by (simp add: components_def split_on_snoc)
    with False show ?thesis
      by (simp add: last_component_def last_split_on_rev)
  qed
qed

text \<open>The scans stop at \<open>mid\<close>, the last component, between two parts of the path.\<close>

lemma filename_scan:
  obtains pre post where "path = pre @ last_component path @ post"
    "length pre = find_start path (skip_seps path (length path))"
    "length pre + length (last_component path) = skip_seps path (length path)"
    "pre = [] \<or> is_sep (last pre) \<or> last_component path = []" "post = [] \<or> is_sep (hd post)"
proof -
  let ?q = "dropWhile is_sep (rev path)"
  let ?m = "takeWhile (\<lambda>c. \<not> is_sep c) ?q"
  let ?r = "dropWhile (\<lambda>c. \<not> is_sep c) ?q"
  let ?t = "takeWhile is_sep (rev path)"
  define e where "e = skip_seps path (length path)"
  have e: "e = length ?q" by (simp add: e_def skip_seps_rev)
  have path: "path = rev ?r @ rev ?m @ rev ?t"
    by (metis append.assoc rev_append rev_rev_ident takeWhile_dropWhile_id)
  have tk: "take e path = rev ?q"
  proof -
    have "path = rev ?q @ rev ?t" by (metis rev_append rev_rev_ident takeWhile_dropWhile_id)
    moreover have "length (rev ?q) = e" using e by simp
    ultimately show ?thesis by (metis append_eq_conv_conj)
  qed
  have le: "e \<le> length path" using e by (simp add: length_dropWhile_le [of is_sep "rev path", simplified])
  have "find_start path e + length ?m = e" using find_start_rev [OF le] by (simp add: tk)
  moreover have "length ?r + length ?m = e"
    unfolding e by (metis add.commute length_append takeWhile_dropWhile_id)
  ultimately have len: "length (rev ?r) = find_start path e" "length (rev ?r) + length ?m = e" by auto
  show thesis
  proof (rule that [of "rev ?r" "rev ?t"])
    show "path = rev ?r @ last_component path @ rev ?t" using path by (simp add: last_component_rev)
    show "length (rev ?r) = find_start path (skip_seps path (length path))" using len e_def by simp
    show "length (rev ?r) + length (last_component path) = skip_seps path (length path)"
      using len e_def by (simp add: last_component_rev)
    show "rev ?r = [] \<or> is_sep (last (rev ?r)) \<or> last_component path = []"
      using hd_dropWhile [of "\<lambda>c. \<not> is_sep c" ?q] by (auto simp: last_rev)
    show "rev ?t = [] \<or> is_sep (hd (rev ?t))"
      by (metis hd_in_set set_rev set_takeWhileD)
  qed
qed

lemma path_filename_last: "valid_utf8 path \<Longrightarrow> path_filename path = Ret (last_component path)"
proof -
  assume v: "valid_utf8 path"
  obtain pre post where path: "path = pre @ last_component path @ post"
    and start: "length pre = find_start path (skip_seps path (length path))"
    and fin: "length pre + length (last_component path) = skip_seps path (length path)"
    and pre: "pre = [] \<or> is_sep (last pre) \<or> last_component path = []"
    and post: "post = [] \<or> is_sep (hd post)"
    by (rule filename_scan)
  define m where "m = last_component path"
  show ?thesis
  proof (cases "skip_seps path (length path) = 0")
    case True
    then show ?thesis using fin by (simp add: path_filename_def)
  next
    case False
    have b: "post = [] \<or> \<not> is_cont (hd post)" using post is_sep_ascii by auto
    have a: "m @ post = [] \<or> \<not> is_cont (hd (m @ post))"
    proof (cases "m = []")
      case False
      then have "pre = [] \<or> is_ascii (last pre)" using pre m_def is_sep_ascii by auto
      then have "valid_utf8 (m @ post)" using after_ascii_valid v path m_def by metis
      with False show ?thesis using valid_utf8_hd by (cases m) auto
    qed (use b in simp)
    have "str_slice path (length pre) (length pre + length m) = Ret m"
      using str_slice_mid [OF a b, of pre] path m_def by metis
    then have "str_slice path (length pre) (skip_seps path (length path)) = Ret m"
      unfolding fin [folded m_def] .
    then show ?thesis
      unfolding start using False by (simp add: path_filename_def m_def Let_def)
  qed
qed

section \<open>strip_64_suffix\<close>

text \<open>The specification, by the marker the name ends with; the first that fits is removed.\<close>

definition strip64 :: "str \<Rightarrow> str" where
  "strip64 name =
     (if suffix ''.x64'' name then take (length name - 4) name
      else if suffix ''x64'' name \<or> suffix ''_64'' name then take (length name - 3) name
      else if suffix ''64'' name then take (length name - 2) name
      else name)"

lemma suffix_drop:
  "length t = n \<Longrightarrow> suffix t s \<longleftrightarrow> n \<le> length s \<and> drop (length s - n) s = t"
  by (metis append_eq_conv_conj append_take_drop_id le_add2 length_append length_drop
      add_diff_cancel_right' diff_diff_cancel suffix_def)

lemma suffix64_nth:
  "suffix ''64'' s \<longleftrightarrow> 2 \<le> length s \<and> s ! (length s - 2) = CHR ''6'' \<and> s ! (length s - 1) = CHR ''4''"
proof (cases "2 \<le> length s")
  case True
  then have "drop (length s - 2) s = [s ! (length s - 2), s ! (length s - 1)]"
    by (intro nth_equalityI) (auto simp: less_Suc_eq nth_Cons' numeral_eq_Suc)
  with True show ?thesis by (auto simp: suffix_drop [of _ 2])
qed (simp add: suffix_drop [of _ 2])

lemma suffix_c64_nth:
  "suffix (c # ''64'') s \<longleftrightarrow> 3 \<le> length s \<and> s ! (length s - 3) = c \<and> suffix ''64'' s"
proof (cases "3 \<le> length s")
  case True
  then have "drop (length s - 3) s = [s ! (length s - 3), s ! (length s - 2), s ! (length s - 1)]"
    by (intro nth_equalityI) (auto simp: less_Suc_eq nth_Cons' numeral_eq_Suc)
  with True show ?thesis by (auto simp: suffix_drop [of "c # ''64''" 3] suffix64_nth)
qed (simp add: suffix_drop [of _ 3])

lemma str_slice_before:
  assumes "suffix (c # t) s" and "is_ascii c" and "n = length (c # t)"
  shows "str_slice s 0 (length s - n) = Ret (take (length s - n) s)"
proof -
  obtain p where s: "s = p @ c # t" using assms(1) by (auto simp: suffix_def)
  then show ?thesis using char_boundary_append [of "c # t" p] assms(2,3)
    by (intro str_slice_prefix) auto
qed

lemma strip_64_suffix_strip64: "strip_64_suffix name = Ret (strip64 name)"
proof -
  have x: "(4 \<le> length name \<and> drop (length name - 4) name = ''.x64'') = suffix ''.x64'' name"
    by (simp add: suffix_drop [of _ 4])
  have n: "(length name < 2 \<or> name ! (length name - 2) \<noteq> CHR ''6'' \<or> name ! (length name - 1) \<noteq> CHR ''4'')
      = (\<not> suffix ''64'' name)"
    by (auto simp: suffix64_nth)
  have t: "suffix ''64'' name \<Longrightarrow>
      (3 \<le> length name \<and> (name ! (length name - 3) = CHR ''x'' \<or> name ! (length name - 3) = CHR ''_''))
      = (suffix ''x64'' name \<or> suffix ''_64'' name)"
    by (auto simp: suffix_c64_nth)
  have asc: "is_ascii CHR ''.''" "is_ascii CHR ''x''" "is_ascii CHR ''_''" "is_ascii CHR ''6''"
    by (simp_all add: is_ascii_def byte_def)
  have sl4: "suffix ''.x64'' name \<Longrightarrow>
      str_slice name 0 (length name - 4) = Ret (take (length name - 4) name)"
    using str_slice_before [OF _ asc(1), of "''x64''" name 4] by simp
  have sl3: "suffix ''x64'' name \<or> suffix ''_64'' name \<Longrightarrow>
      str_slice name 0 (length name - 3) = Ret (take (length name - 3) name)"
    using str_slice_before [OF _ asc(2), of "''64''" name 3]
      str_slice_before [OF _ asc(3), of "''64''" name 3] by auto
  have sl2: "suffix ''64'' name \<Longrightarrow>
      str_slice name 0 (length name - 2) = Ret (take (length name - 2) name)"
    using str_slice_before [OF _ asc(4), of "''4''" name 2] by simp
  note sl = sl4 sl3 sl2
  have l: "suffix ''x64'' name \<or> suffix ''_64'' name \<Longrightarrow> suffix ''64'' name"
    by (auto simp: suffix_c64_nth)
  show ?thesis
    unfolding strip_64_suffix_def Let_def x n strip64_def using t sl l by auto
qed

lemma strip64_take: "\<exists>n. strip64 name = take n name"
proof -
  have "name = take (length name) name" by simp
  then show ?thesis unfolding strip64_def by (metis (full_types))
qed

lemma strip64_shorter: "suffix ''64'' name \<Longrightarrow> length (strip64 name) < length name"
  by (auto simp: strip64_def suffix64_nth)

lemma strip64_id: "\<not> suffix ''64'' name \<Longrightarrow> strip64 name = name"
proof -
  assume n: "\<not> suffix ''64'' name"
  then have "\<not> suffix (c # ''64'') name" for c by (simp add: suffix_c64_nth)
  moreover from this have "\<not> suffix ''.x64'' name"
    by (metis suffix_ConsD)
  ultimately show ?thesis using n by (simp add: strip64_def)
qed

section \<open>path_variants\<close>

text \<open>
  The reference: every non-empty suffix of the list of components, longest first, joined with \<open>/\<close>, each
  followed by its stripped form when it ends in \<open>64\<close>.
\<close>

fun variants_of :: "str list \<Rightarrow> str list" where
  "variants_of [] = []"
| "variants_of (p # ps) =
     (let s = join_with ''/'' (p # ps)
      in (if suffix ''64'' s then [s, strip64 s] else [s]) @ variants_of ps)"

definition last_four :: "'a list \<Rightarrow> 'a list" where
  "last_four xs = drop (length xs - 4) xs"

lemma str_find_join:
  assumes "c \<notin> set p"
  shows "str_find c (join_with [c] (p # ps)) = (if ps = [] then None else Some (length p))"
proof (cases ps)
  case Nil
  have "takeWhile (\<lambda>x. x \<noteq> c) p = p"
    by (simp add: takeWhile_eq_all_conv) (use assms in auto)
  then have "length (takeWhile (\<lambda>x. x \<noteq> c) p) = length p" by (rule arg_cong)
  then show ?thesis using Nil by (simp add: str_find_def Let_def)
next
  case (Cons q qs)
  have "takeWhile (\<lambda>x. x \<noteq> c) (p @ c # r) = p" for r
    using assms by (induction p) auto
  then show ?thesis using Cons by (simp add: str_find_def)
qed

lemma join_hd_valid:
  assumes "\<forall>z \<in> set ps. valid_utf8 z \<and> z \<noteq> []"
  shows "join_with sep ps = [] \<or> \<not> is_cont (hd (join_with sep ps))"
proof (cases ps rule: list.exhaust)
  case (Cons q qs)
  then have "q \<noteq> []" "\<not> is_cont (hd q)" using assms valid_utf8_hd by (force simp: neq_Nil_conv)+
  then show ?thesis using Cons by (cases qs) auto
qed simp

lemma push_variant:
  "(if suffix ''64'' suf
    then exec_bind (strip_64_suffix suf) (\<lambda>cleaned.
           Ret (if length cleaned < length suf
                then variants @ [suf] @ [cleaned] else variants @ [suf]))
    else Ret (variants @ [suf]))
   = Ret (variants @ (if suffix ''64'' suf then [suf, strip64 suf] else [suf]))"
  using strip64_shorter [of suf] by (simp add: strip_64_suffix_strip64)

lemma variants_loop_step:
  assumes "str_slice full offset (length full) = Ret suf"
  shows "variants_loop (Suc n) full offset variants =
    variants_loop n full
      (case str_find CHR ''/'' suf of Some pos \<Rightarrow> offset + (pos + 1) | None \<Rightarrow> offset)
      (variants @ (if suffix ''64'' suf then [suf, strip64 suf] else [suf]))"
  unfolding variants_loop.simps(2) assms exec_bind.simps(1) push_variant ..

lemma variants_loop_ref:
  assumes "\<forall>z \<in> set ps. valid_utf8 z \<and> z \<noteq> [] \<and> CHR ''/'' \<notin> set z"
    and "full = pre @ join_with ''/'' ps"
  shows "variants_loop (length ps) full (length pre) acc = Ret (acc @ variants_of ps)"
  using assms
proof (induction ps arbitrary: pre acc)
  case (Cons p ps)
  let ?suf = "join_with ''/'' (p # ps)"
  have bound: "?suf = [] \<or> \<not> is_cont (hd ?suf)"
    by (rule join_hd_valid) (use Cons.prems(1) in auto)
  have slice: "str_slice full (length pre) (length full) = Ret ?suf"
    using char_boundary_append [OF bound, of pre] Cons.prems(2)
    by (subst str_slice_suffix) auto
  have fnd: "str_find CHR ''/'' ?suf = (if ps = [] then None else Some (length p))"
    by (rule str_find_join) (use Cons.prems(1) in auto)
  note step = variants_loop_step [OF slice, of "length ps" acc]
  show ?case
  proof (cases "ps = []")
    case True
    then show ?thesis using step fnd by (simp add: Let_def)
  next
    case False
    then have "full = (pre @ p @ ''/'') @ join_with ''/'' ps"
      using Cons.prems(2) by (cases ps) auto
    then have "variants_loop (length ps) full (length pre + (length p + 1)) acc'
        = Ret (acc' @ variants_of ps)" for acc'
      using Cons.IH [of "pre @ p @ ''/''" acc'] Cons.prems(1) by (simp add: add.assoc)
    then show ?thesis using step fnd False by (simp add: Let_def)
  qed
qed simp

lemma components_slash: "z \<in> set (components path) \<Longrightarrow> CHR ''/'' \<notin> set z"
  using components_no_sep [of z path "CHR ''/''"] by (auto simp: is_sep_def)

lemma path_variants_ref:
  assumes "valid_utf8 path"
  shows "path_variants path = Ret (variants_of (last_four (components path)))"
proof -
  let ?ps = "components path"
  have "\<forall>z \<in> set (last_four ?ps). valid_utf8 z \<and> z \<noteq> [] \<and> CHR ''/'' \<notin> set z"
    using valid_components [OF assms] components_nonempty components_slash
    by (metis in_set_dropD last_four_def)
  then have "variants_loop (length (last_four ?ps)) (join_with ''/'' (last_four ?ps)) 0 []
      = Ret (variants_of (last_four ?ps))"
    using variants_loop_ref [of "last_four ?ps" _ "[]" "[]"] by simp
  moreover have "(if 4 < length ?ps then length ?ps - 4 else 0) = length ?ps - 4" by simp
  moreover have "length ?ps \<le> length ?ps - 4 \<longleftrightarrow> ?ps = []" by (cases ?ps) auto
  ultimately show ?thesis
    by (cases "?ps = []") (simp_all add: path_variants_def last_four_def Let_def)
qed

lemma length_variants_of: "length (variants_of ps) \<le> 2 * length ps"
  by (induction ps) (auto simp: Let_def)

lemma variants_of_last: "ps \<noteq> [] \<Longrightarrow> last ps \<in> set (variants_of ps)"
  by (induction ps rule: variants_of.induct) (auto simp: Let_def)

lemma last_last_four: "xs \<noteq> [] \<Longrightarrow> last_four xs \<noteq> [] \<and> last (last_four xs) = last xs"
  by (cases xs) (auto simp: last_four_def last_drop)

lemma map_slash_components:
  "components (map (\<lambda>c. if c = CHR 0x5C then CHR ''/'' else c) path) = components path"
proof -
  let ?f = "\<lambda>c. if c = CHR 0x5C then CHR ''/'' else c"
  have "split_on is_sep (map ?f path) = split_on is_sep path"
    by (induction path) (auto simp: is_sep_def split: list.splits)
  then show ?thesis by (simp add: components_def)
qed

section \<open>Properties\<close>

text \<open>
  The two backward byte scans of \<open>path_filename\<close> return the last non-empty component of the
  path (nothing for a path of separators only), and on valid UTF-8 the slice never panics.
\<close>

theorem path_filename_spec:
  assumes "valid_utf8 path"
  shows "path_filename path = Ret (last_component path)"
  using assms by (rule path_filename_last)

theorem path_filename_spec_witness:
  "path_filename ''/usr/bin/csgo//'' = Ret ''csgo''"
  by (subst path_filename_spec)
    (simp_all add: valid_utf8_ascii is_ascii_def byte_def last_component_def components_def is_sep_def)

text \<open>
  The byte comparisons of \<open>strip_64_suffix\<close> remove exactly the most specific of the markers
  \<open>.x64\<close>, \<open>x64\<close>, \<open>_64\<close> and \<open>64\<close> at the end of the name and nothing otherwise; no input makes a slice
  panic.
\<close>

theorem strip_64_suffix_spec: "strip_64_suffix name = Ret (strip64 name)"
  by (rule strip_64_suffix_strip64)

text \<open>
  Claim C35. \<open>path_variants\<close>, which joins the last four components once and cuts the shorter suffixes out
  of it by offsets, returns what joining each suffix separately gives, in the same order, without a
  panic.
\<close>

theorem path_variants_reference:
  assumes "valid_utf8 path"
  shows "path_variants path = Ret (variants_of (last_four (components path)))"
  using assms by (rule path_variants_ref)

theorem path_variants_reference_witness:
  "path_variants ''/opt/csgo64'' = Ret [''opt/csgo64'', ''opt/csgo'', ''csgo64'', ''csgo'']"
  by (subst path_variants_reference)
    (simp_all add: valid_utf8_ascii is_ascii_def byte_def components_def is_sep_def last_four_def
      strip64_def suffix_Cons)

text \<open>
  There are at most eight variants, and the witness reaches eight: a path of four
  components whose last ends in a 64-bit marker.
\<close>

theorem path_variants_bound:
  assumes "path_variants path = Ret vs" and "valid_utf8 path"
  shows "length vs \<le> 8"
proof -
  have "length (last_four (components path)) \<le> 4" by (simp add: last_four_def)
  moreover have "vs = variants_of (last_four (components path))"
    using assms path_variants_ref by simp
  ultimately show ?thesis using length_variants_of [of "last_four (components path)"] by simp
qed

theorem path_variants_bound_witness:
  "length [''a/b/c/d64'', ''a/b/c/d'', ''b/c/d64'', ''b/c/d'', ''c/d64'', ''c/d'', ''d64'', ''d''] \<le> 8"
  by (rule path_variants_bound [of "''/a/b/c/d64''"])
    (simp_all add: path_variants_ref valid_utf8_ascii is_ascii_def byte_def components_def is_sep_def
      last_four_def strip64_def suffix_Cons)

end
