(* ===== verification/Detectable.thy ===== *)
theory Detectable
  imports Paths
begin

text \<open>
  The detectable records of \<open>src/process/detectable.rs\<close>, the linear scan \<open>match_process\<close> over a list of
  entries and the match against one archived entry that the database uses, \<open>archived_match\<close>. Both are
  related to one declarative criterion, \<open>entry_matches\<close>.
\<close>

record executable =
  exe_name :: str
  exe_is_launcher :: bool
  exe_arguments :: "str list option"
  exe_os :: "str option"

record detectable_entry =
  de_id :: str
  de_name :: str
  de_executables :: "executable list"

section \<open>The linear scan\<close>

definition starts_with_gt :: "str \<Rightarrow> bool" where
  "starts_with_gt s = (case s of [] \<Rightarrow> False | c # _ \<Rightarrow> c = CHR ''>'')"

definition strip_prefix_gt :: "str \<Rightarrow> str option" where
  "strip_prefix_gt s = (case s of [] \<Rightarrow> None | c # r \<Rightarrow> if c = CHR ''>'' then Some r else None)"

text \<open>\<open>required.iter().all(|ra| args.iter().any(|a| *a == ra))\<close>.\<close>

definition has_all :: "str list \<Rightarrow> str list \<Rightarrow> bool" where
  "has_all required args = list_all (\<lambda>ra. list_ex (\<lambda>a. a = ra) args) required"

text \<open>The inner \<open>for\<close> loop of \<open>match_process\<close>: does one entry's executable list match?\<close>

fun match_executables :: "str list \<Rightarrow> str \<Rightarrow> str list \<Rightarrow> executable list \<Rightarrow> bool" where
  "match_executables variants filename args [] = False"
| "match_executables variants filename args (exe # exes) =
     (let matched =
        (if starts_with_gt (exe_name exe)
         then (case strip_prefix_gt (exe_name exe) of Some exact \<Rightarrow> exact = filename | None \<Rightarrow> False)
         else list_ex (\<lambda>v. v = exe_name exe) variants)
      in if \<not> matched then match_executables variants filename args exes
         else if (case exe_arguments exe of Some req \<Rightarrow> \<not> has_all req args | None \<Rightarrow> False)
              then match_executables variants filename args exes
         else True)"

fun match_entries ::
  "str list \<Rightarrow> str \<Rightarrow> str list \<Rightarrow> detectable_entry list \<Rightarrow> detectable_entry option" where
  "match_entries variants filename args [] = None"
| "match_entries variants filename args (entry # entries) =
     (if match_executables variants filename args (de_executables entry) then Some entry
      else match_entries variants filename args entries)"

definition match_process ::
  "str \<Rightarrow> str list \<Rightarrow> detectable_entry list \<Rightarrow> detectable_entry option exec" where
  "match_process path args entries =
     exec_bind (path_variants path) (\<lambda>variants.
     exec_bind (path_filename path) (\<lambda>filename.
       Ret (match_entries variants filename args entries)))"

section \<open>The match against an archived entry\<close>

fun archived_match ::
  "executable list \<Rightarrow> str list \<Rightarrow> str \<Rightarrow> str list \<Rightarrow> bool exec" where
  "archived_match [] variants filename args = Ret False"
| "archived_match (exe # exes) variants filename args =
     exec_bind
       (if starts_with_gt (exe_name exe)
        then exec_map (\<lambda>exact. exact = filename)
               (str_slice (exe_name exe) 1 (length (exe_name exe)))
        else Ret (list_ex (\<lambda>v. v = exe_name exe) variants))
       (\<lambda>matched.
         if \<not> matched then archived_match exes variants filename args
         else
           (let args_ok = (case exe_arguments exe of None \<Rightarrow> True | Some req \<Rightarrow> has_all req args)
            in if args_ok then Ret True else archived_match exes variants filename args))"

section \<open>The criterion\<close>

definition name_matches :: "str list \<Rightarrow> str \<Rightarrow> str \<Rightarrow> bool" where
  "name_matches variants filename name \<longleftrightarrow>
     (if starts_with_gt name then name = CHR ''>'' # filename else name \<in> set variants)"

definition args_match :: "str list \<Rightarrow> executable \<Rightarrow> bool" where
  "args_match args exe \<longleftrightarrow>
     (case exe_arguments exe of None \<Rightarrow> True | Some req \<Rightarrow> set req \<subseteq> set args)"

definition entry_matches :: "str list \<Rightarrow> str \<Rightarrow> str list \<Rightarrow> detectable_entry \<Rightarrow> bool" where
  "entry_matches variants filename args entry \<longleftrightarrow>
     (\<exists>exe \<in> set (de_executables entry).
        name_matches variants filename (exe_name exe) \<and> args_match args exe)"

definition valid_entry :: "detectable_entry \<Rightarrow> bool" where
  "valid_entry entry \<longleftrightarrow> (\<forall>exe \<in> set (de_executables entry). valid_utf8 (exe_name exe))"

lemma has_all_iff: "has_all req args \<longleftrightarrow> set req \<subseteq> set args"
  by (auto simp: has_all_def list_all_iff list_ex_iff)

lemma match_executables_iff:
  "match_executables variants filename args exes \<longleftrightarrow>
     (\<exists>exe \<in> set exes. name_matches variants filename (exe_name exe) \<and> args_match args exe)"
proof (induction exes)
  case (Cons exe exes)
  have "(if starts_with_gt (exe_name exe)
         then (case strip_prefix_gt (exe_name exe) of Some exact \<Rightarrow> exact = filename | None \<Rightarrow> False)
         else list_ex (\<lambda>v. v = exe_name exe) variants)
       = name_matches variants filename (exe_name exe)"
    by (auto simp: name_matches_def starts_with_gt_def strip_prefix_gt_def list_ex_iff split: list.splits)
  moreover have "(case exe_arguments exe of Some req \<Rightarrow> \<not> has_all req args | None \<Rightarrow> False)
       = (\<not> args_match args exe)"
    by (auto simp: args_match_def has_all_iff split: option.splits)
  ultimately show ?case using Cons.IH by (auto simp: Let_def)
qed simp

lemma match_entries_find:
  "match_entries variants filename args entries = find (entry_matches variants filename args) entries"
  by (induction entries) (auto simp: match_executables_iff entry_matches_def)

lemma match_process_find:
  assumes "valid_utf8 path"
  shows "match_process path args entries =
    Ret (find (entry_matches (variants_of (last_four (components path))) (last_component path) args)
           entries)"
  by (simp add: match_process_def path_variants_ref [OF assms] path_filename_last [OF assms]
      match_entries_find)

lemma archived_match_iff:
  assumes "\<forall>exe \<in> set exes. valid_utf8 (exe_name exe)"
  shows "archived_match exes variants filename args =
    Ret (\<exists>exe \<in> set exes. name_matches variants filename (exe_name exe) \<and> args_match args exe)"
  using assms
proof (induction exes)
  case (Cons exe exes)
  let ?n = "exe_name exe"
  have m: "(if starts_with_gt ?n
       then exec_map (\<lambda>exact. exact = filename) (str_slice ?n 1 (length ?n))
       else Ret (list_ex (\<lambda>v. v = ?n) variants)) = Ret (name_matches variants filename ?n)"
  proof (cases "starts_with_gt ?n")
    case True
    then obtain r where n: "?n = CHR ''>'' # r"
      by (auto simp: starts_with_gt_def split: list.splits)
    have "valid_utf8 r" using Cons.prems n by (simp add: valid_utf8_Cons_ascii is_ascii_def byte_def)
    then have "r = [] \<or> \<not> is_cont (hd r)" using valid_utf8_hd by (cases r) auto
    then have "str_slice ?n 1 (length ?n) = Ret r"
      using str_slice_mid [of r "[]" "[CHR ''>'']"] n by auto
    then show ?thesis using True n by (simp add: name_matches_def)
  next
    case False
    then show ?thesis by (auto simp: name_matches_def list_ex_iff)
  qed
  have a: "(case exe_arguments exe of None \<Rightarrow> True | Some req \<Rightarrow> has_all req args) = args_match args exe"
    by (auto simp: args_match_def has_all_iff split: option.splits)
  show ?case unfolding archived_match.simps m a using Cons by (auto simp: Let_def)
qed simp

text \<open>
  The linear scan returns the first entry, in list order, one of whose executables matches the
  path (by exact filename when its name starts with \<open>>\<close>, by one of the path variants otherwise) and has
  all its required arguments among the process's; it never panics on a valid path.
\<close>

theorem match_process_spec:
  assumes "valid_utf8 path"
  shows "match_process path args entries =
    Ret (find (entry_matches (variants_of (last_four (components path))) (last_component path) args)
           entries)"
  using assms by (rule match_process_find)

theorem match_process_spec_witness:
  "match_process ''/opt/testgame'' []
     [\<lparr>de_id = ''1'', de_name = ''T'', de_executables =
         [\<lparr>exe_name = ''>testgame'', exe_is_launcher = False, exe_arguments = None, exe_os = None\<rparr>]\<rparr>]
   = Ret (Some \<lparr>de_id = ''1'', de_name = ''T'', de_executables =
         [\<lparr>exe_name = ''>testgame'', exe_is_launcher = False, exe_arguments = None, exe_os = None\<rparr>]\<rparr>)"
  by (subst match_process_spec)
    (simp_all add: valid_utf8_ascii is_ascii_def byte_def last_component_def components_def is_sep_def
      entry_matches_def name_matches_def args_match_def starts_with_gt_def)

end
