(* ===== verification/Detectable_Db.thy ===== *)
theory Detectable_Db
  imports Detectable
begin

text \<open>
  \<open>DetectableDb\<close> of \<open>src/process/detectable.rs\<close>: the redb tables \<open>apps\<close> and \<open>exes\<close>, the FST of executable
  names on disk, the in-memory \<open>exe_index\<close>, and the operations \<open>rebuild_with_fst\<close>, \<open>ingest_entries\<close>,
  \<open>open_with_fst\<close>, \<open>load_fst_from_db\<close>, \<open>ensure_fst_file\<close>, \<open>write_fst_file\<close>, \<open>load_mmap_fst\<close> and
  \<open>match_process\<close>.

  Third-party code is the record \<open>db_lib\<close>: the rkyv serialiser and accessor, the FST builder and parser
  (a parsed set is the list of its keys). A redb table is the list of its rows, \<open>None\<close> while it has not
  been created. The environment \<open>io_env\<close> says which file operations succeed; redb commits a write
  transaction as a whole or not at all. The disk holds the redb file and the FST file.
\<close>

section \<open>Library, disk and handle\<close>

record db_lib =
  rkyv_to_bytes :: "detectable_entry \<Rightarrow> u8 list option"
  rkyv_access :: "u8 list \<Rightarrow> detectable_entry option"
  fst_build :: "str list \<Rightarrow> u8 list option"
  fst_parse :: "u8 list \<Rightarrow> str list option"

record io_env =
  io_remove :: bool
  io_create :: bool
  io_write_txn :: bool
  io_write_fst :: bool

record tables =
  tb_apps :: "(str \<times> u8 list) list option"
  tb_exes :: "(str \<times> str) list option"

record disk =
  dk_redb :: "tables option"
  dk_fst :: "u8 list option"

record detectable_db =
  dd_db :: tables
  dd_fst :: "str list"
  dd_exe_index :: "str \<rightharpoonup> str list"

datatype db_error = OpenRedb | CreateRedb | RkyvSerialise | RedbWrite | FstWrite | FstMissing | FstEmpty | FstParse

definition no_tables :: tables where
  "no_tables = \<lparr>tb_apps = None, tb_exes = None\<rparr>"

section \<open>The FST file\<close>

definition write_fst_file :: "db_lib \<Rightarrow> io_env \<Rightarrow> str list \<Rightarrow> disk \<Rightarrow> (db_error + unit) \<times> disk" where
  "write_fst_file L env keys dk =
     (case fst_build L keys of
        None \<Rightarrow> (Inl FstWrite, dk)
      | Some bytes \<Rightarrow>
          if io_write_fst env then (Inr (), dk\<lparr>dk_fst := Some bytes\<rparr>) else (Inl FstWrite, dk))"

definition load_mmap_fst :: "db_lib \<Rightarrow> disk \<Rightarrow> db_error + str list" where
  "load_mmap_fst L dk =
     (case dk_fst dk of
        None \<Rightarrow> Inl FstMissing
      | Some bytes \<Rightarrow>
          if bytes = [] then Inl FstEmpty
          else (case fst_parse L bytes of None \<Rightarrow> Inl FstParse | Some keys \<Rightarrow> Inr keys))"

definition ensure_fst_file :: "db_lib \<Rightarrow> io_env \<Rightarrow> disk \<Rightarrow> (db_error + str list) \<times> disk" where
  "ensure_fst_file L env dk =
     (case load_mmap_fst L dk of
        Inr keys \<Rightarrow> (Inr keys, dk)
      | Inl _ \<Rightarrow>
          if (case dk_fst dk of Some bytes \<Rightarrow> bytes \<noteq> [] | None \<Rightarrow> False) then (Inl FstParse, dk)
          else
            (case write_fst_file L env [] dk of
               (Inl e, dk1) \<Rightarrow> (Inl e, dk1)
             | (Inr _, dk1) \<Rightarrow> (load_mmap_fst L dk1, dk1)))"

section \<open>Ingesting entries\<close>

text \<open>\<open>exe_to_ids.entry(name).or_default().push(id)\<close>.\<close>

fun push_id :: "str \<Rightarrow> str \<Rightarrow> (str \<times> str list) list \<Rightarrow> (str \<times> str list) list" where
  "push_id name app_id [] = [(name, [app_id])]"
| "push_id name app_id ((n, ids) # m) =
     (if n = name then (n, ids @ [app_id]) # m else (n, ids) # push_id name app_id m)"

fun push_executables ::
  "str \<Rightarrow> executable list \<Rightarrow> (str \<times> str list) list \<Rightarrow> (str \<times> str list) list" where
  "push_executables app_id [] m = m"
| "push_executables app_id (exe # exes) m = push_executables app_id exes (push_id (exe_name exe) app_id m)"

text \<open>
  The loop over the entries: each row of \<open>apps\<close> and the names of its executables. A serialisation
  failure returns early, which drops the transaction.
\<close>

fun ingest_loop ::
  "db_lib \<Rightarrow> detectable_entry list \<Rightarrow> (str \<times> u8 list) list \<Rightarrow> (str \<times> str list) list
   \<Rightarrow> ((str \<times> u8 list) list \<times> (str \<times> str list) list) option" where
  "ingest_loop L [] apps exe_to_ids = Some (apps, exe_to_ids)"
| "ingest_loop L (entry # entries) apps exe_to_ids =
     (case rkyv_to_bytes L entry of
        None \<Rightarrow> None
      | Some bytes \<Rightarrow>
          ingest_loop L entries (AList.update (de_id entry) bytes apps)
            (push_executables (de_id entry) (de_executables entry) exe_to_ids))"

fun insert_exes :: "(str \<times> str list) list \<Rightarrow> (str \<times> str) list \<Rightarrow> (str \<times> str) list" where
  "insert_exes [] exes = exes"
| "insert_exes ((name, ids) # m) exes =
     insert_exes m (AList.update name (join_with [CHR 0x0A] ids) exes)"

fun insert_index :: "(str \<times> str list) list \<Rightarrow> (str \<rightharpoonup> str list) \<Rightarrow> (str \<rightharpoonup> str list)" where
  "insert_index [] index = index"
| "insert_index ((name, ids) # m) index = insert_index m (index(name \<mapsto> ids))"

definition rows :: "'a list option \<Rightarrow> 'a list" where
  "rows t = (case t of None \<Rightarrow> [] | Some r \<Rightarrow> r)"

definition ingest_entries ::
  "db_lib \<Rightarrow> io_env \<Rightarrow> detectable_entry list \<Rightarrow> detectable_db \<Rightarrow> disk
   \<Rightarrow> (db_error + detectable_db) \<times> disk" where
  "ingest_entries L env entries this dk =
     (case ingest_loop L entries (rows (tb_apps (dd_db this))) [] of
        None \<Rightarrow> (Inl RkyvSerialise, dk)
      | Some (apps, exe_to_ids) \<Rightarrow>
          if \<not> io_write_txn env then (Inl RedbWrite, dk)
          else
            (let db1 = \<lparr>tb_apps = Some apps,
                        tb_exes = Some (insert_exes exe_to_ids (rows (tb_exes (dd_db this))))\<rparr>;
                 dk1 = dk\<lparr>dk_redb := Some db1\<rparr>;
                 this1 = this\<lparr>dd_db := db1,
                              dd_exe_index := insert_index exe_to_ids (dd_exe_index this)\<rparr>;
                 sorted_names = sort (map fst exe_to_ids)
             in case write_fst_file L env sorted_names dk1 of
                  (Inl e, dk2) \<Rightarrow> (Inl e, dk2)
                | (Inr _, dk2) \<Rightarrow>
                    (case load_mmap_fst L dk2 of
                       Inl e \<Rightarrow> (Inl e, dk2)
                     | Inr keys \<Rightarrow> (Inr (this1\<lparr>dd_fst := keys\<rparr>), dk2))))"

text \<open>
  \<open>rebuild_with_fst\<close>: remove the stale redb file (a failure is ignored, and then \<open>Database::create\<close>
  opens what is there), create (a failure ends it, the old file then being gone), ingest.
\<close>

definition rebuild_with_fst ::
  "db_lib \<Rightarrow> io_env \<Rightarrow> detectable_entry list \<Rightarrow> disk \<Rightarrow> (db_error + detectable_db) \<times> disk" where
  "rebuild_with_fst L env entries dk =
     (let dk1 = (if io_remove env then dk\<lparr>dk_redb := None\<rparr> else dk)
      in if \<not> io_create env then (Inl CreateRedb, dk1)
         else
           (let db = (case dk_redb dk1 of None \<Rightarrow> no_tables | Some t \<Rightarrow> t);
                dk2 = dk1\<lparr>dk_redb := Some db\<rparr>;
                this = \<lparr>dd_db = db, dd_fst = [], dd_exe_index = Map.empty\<rparr>
            in ingest_entries L env entries this dk2))"

section \<open>Opening\<close>

fun load_rows :: "(str \<times> str) list \<Rightarrow> (str \<rightharpoonup> str list) \<Rightarrow> str list \<Rightarrow> (str \<rightharpoonup> str list) \<times> str list" where
  "load_rows [] index names = (index, names)"
| "load_rows ((k, v) # exes) index names =
     load_rows exes (index(k \<mapsto> split_on (\<lambda>c. c = CHR 0x0A) v)) (names @ [k])"

definition load_fst_from_db ::
  "db_lib \<Rightarrow> io_env \<Rightarrow> detectable_db \<Rightarrow> disk \<Rightarrow> (db_error + detectable_db) \<times> disk" where
  "load_fst_from_db L env this dk =
     (case tb_exes (dd_db this) of
        None \<Rightarrow>
          (case ensure_fst_file L env dk of
             (Inl e, dk1) \<Rightarrow> (Inl e, dk1)
           | (Inr keys, dk1) \<Rightarrow> (Inr (this\<lparr>dd_fst := keys\<rparr>), dk1))
      | Some exes \<Rightarrow>
          (let (index, names) = load_rows exes (dd_exe_index this) [];
               this1 = this\<lparr>dd_exe_index := index\<rparr>
           in case (case load_mmap_fst L dk of
                      Inr keys \<Rightarrow> if length keys = length names then Some keys else None
                    | Inl _ \<Rightarrow> None) of
                Some keys \<Rightarrow> (Inr (this1\<lparr>dd_fst := keys\<rparr>), dk)
              | None \<Rightarrow>
                  (case (if names \<noteq> [] then write_fst_file L env (sort names) dk else (Inr (), dk)) of
                     (Inl e, dk1) \<Rightarrow> (Inl e, dk1)
                   | (Inr _, dk1) \<Rightarrow>
                       (case load_mmap_fst L dk1 of
                          Inl e \<Rightarrow> (Inl e, dk1)
                        | Inr keys \<Rightarrow> (Inr (this1\<lparr>dd_fst := keys\<rparr>), dk1)))))"

definition open_with_fst :: "db_lib \<Rightarrow> io_env \<Rightarrow> disk \<Rightarrow> (db_error + detectable_db) \<times> disk" where
  "open_with_fst L env dk =
     (case dk_redb dk of
        None \<Rightarrow> (Inl OpenRedb, dk)
      | Some db \<Rightarrow>
          load_fst_from_db L env \<lparr>dd_db = db, dd_fst = [], dd_exe_index = Map.empty\<rparr> dk)"

definition db_is_empty :: "detectable_db \<Rightarrow> bool" where
  "db_is_empty this = (dd_fst this = [])"

definition fst_len :: "detectable_db \<Rightarrow> nat" where
  "fst_len this = length (dd_fst this)"

section \<open>match_process\<close>

fun scan_ids ::
  "db_lib \<Rightarrow> (str \<times> u8 list) list \<Rightarrow> str list \<Rightarrow> str \<Rightarrow> str list \<Rightarrow> str list \<Rightarrow> str list
   \<Rightarrow> ((str \<times> str) option \<times> str list) exec" where
  "scan_ids L apps variants filename args [] seen = Ret (None, seen)"
| "scan_ids L apps variants filename args (app_id # ids) seen =
     (if app_id \<in> set seen then scan_ids L apps variants filename args ids seen
      else
        (let seen1 = seen @ [app_id]
         in case map_of apps app_id of
              None \<Rightarrow> scan_ids L apps variants filename args ids seen1
            | Some bytes \<Rightarrow>
                (case rkyv_access L bytes of
                   None \<Rightarrow> scan_ids L apps variants filename args ids seen1
                 | Some archived \<Rightarrow>
                     exec_bind (archived_match (de_executables archived) variants filename args)
                       (\<lambda>m. if m then Ret (Some (de_id archived, de_name archived), seen1)
                            else scan_ids L apps variants filename args ids seen1))))"

fun scan_names ::
  "db_lib \<Rightarrow> (str \<times> u8 list) list \<Rightarrow> str list \<Rightarrow> (str \<rightharpoonup> str list) \<Rightarrow> str list \<Rightarrow> str \<Rightarrow> str list
   \<Rightarrow> str list \<Rightarrow> str list \<Rightarrow> (str \<times> str) option exec" where
  "scan_names L apps keys index variants filename args [] seen = Ret None"
| "scan_names L apps keys index variants filename args (n # names) seen =
     (if n \<notin> set keys then scan_names L apps keys index variants filename args names seen
      else
        (case index n of
           None \<Rightarrow> scan_names L apps keys index variants filename args names seen
         | Some ids \<Rightarrow>
             exec_bind (scan_ids L apps variants filename args ids seen)
               (\<lambda>(r, seen1). case r of
                  Some x \<Rightarrow> Ret (Some x)
                | None \<Rightarrow> scan_names L apps keys index variants filename args names seen1)))"

text \<open>\<open>apps\<close> is the table as this call can read it, \<open>None\<close> when the transaction or the table cannot be opened.\<close>

definition db_match_apps ::
  "db_lib \<Rightarrow> (str \<times> u8 list) list option \<Rightarrow> detectable_db \<Rightarrow> str \<Rightarrow> str list \<Rightarrow> (str \<times> str) option exec" where
  "db_match_apps L readable this path args =
     exec_bind (path_variants path) (\<lambda>variants.
     exec_bind (path_filename path) (\<lambda>filename.
       (let exact = (if filename = [] then [] else CHR ''>'' # filename);
            names = variants @ (if exact \<noteq> [] then [exact] else [])
        in if \<not> list_ex (\<lambda>n. n \<in> set (dd_fst this)) names then Ret None
           else (case readable of
                   None \<Rightarrow> Ret None
                 | Some apps \<Rightarrow>
                     scan_names L apps (dd_fst this) (dd_exe_index this) variants filename args
                       names []))))"

text \<open>
  What redb lets a call read: \<open>rd_open\<close> is whether \<open>begin_read\<close> and \<open>open_table\<close> succeed, \<open>rd_get\<close> for which
  ids \<open>get\<close> does. A row that cannot be read is passed over like one that is not there.
\<close>

record db_reads =
  rd_open :: bool
  rd_get :: "str \<Rightarrow> bool"

definition readable_apps :: "db_reads \<Rightarrow> tables \<Rightarrow> (str \<times> u8 list) list option" where
  "readable_apps rd t =
     (if rd_open rd then map_option (filter (\<lambda>row. rd_get rd (fst row))) (tb_apps t) else None)"

definition db_match_reading ::
  "db_lib \<Rightarrow> db_reads \<Rightarrow> detectable_db \<Rightarrow> str \<Rightarrow> str list \<Rightarrow> (str \<times> str) option exec" where
  "db_match_reading L rd this path args = db_match_apps L (readable_apps rd (dd_db this)) this path args"

text \<open>A call whose reads succeed.\<close>

definition db_match_process ::
  "db_lib \<Rightarrow> detectable_db \<Rightarrow> str \<Rightarrow> str list \<Rightarrow> (str \<times> str) option exec" where
  "db_match_process L this path args = db_match_apps L (tb_apps (dd_db this)) this path args"

end
