(* ===== verification/Db_Spec.thy ===== *)
theory Db_Spec
  imports Detectable_Db
begin

text \<open>
  What the database promises: after a rebuild the tables, the index and the FST represent the ingested
  entries; the FST never hides an indexed name (locale \<open>prefilter\<close>); \<open>match_process\<close> returns the first
  matching candidate in the order of the variants; opening the files again gives the same database.
\<close>

section \<open>The contract of the libraries\<close>

locale db_library =
  fixes L :: db_lib
  assumes rkyv_roundtrip: "rkyv_to_bytes L e = Some b \<Longrightarrow> rkyv_access L b = Some e"
    and fst_roundtrip: "sorted ks \<Longrightarrow> distinct ks \<Longrightarrow>
      \<exists>b. fst_build L ks = Some b \<and> b \<noteq> [] \<and> fst_parse L b = Some ks"

section \<open>The membership filter\<close>

locale prefilter =
  fixes contains :: "'k \<Rightarrow> bool" and lookup :: "'k \<Rightarrow> 'v list option"
  assumes no_false_negative: "lookup k = Some vs \<Longrightarrow> contains k"
begin

lemma guarded_lookup: "(if contains k then rows (lookup k) else []) = rows (lookup k)"
  using no_false_negative by (cases "lookup k") (auto simp: rows_def)

lemma all_miss: "\<not> list_ex contains ks \<Longrightarrow> concat (map (\<lambda>k. rows (lookup k)) ks) = []"
  using no_false_negative by (auto simp: list_ex_iff rows_def split: option.splits)

end

section \<open>The index built from the entries\<close>

fun build_ids :: "detectable_entry list \<Rightarrow> (str \<times> str list) list \<Rightarrow> (str \<times> str list) list" where
  "build_ids [] m = m"
| "build_ids (entry # entries) m =
     build_ids entries (push_executables (de_id entry) (de_executables entry) m)"

definition ids_of :: "detectable_entry list \<Rightarrow> str \<Rightarrow> str list" where
  "ids_of entries n =
     concat (map (\<lambda>e. map (\<lambda>_. de_id e) (filter (\<lambda>x. exe_name x = n) (de_executables e))) entries)"

definition last_entry :: "detectable_entry list \<Rightarrow> str \<Rightarrow> detectable_entry option" where
  "last_entry entries i = find (\<lambda>e. de_id e = i) (rev entries)"

lemma find_SomeD: "find P xs = Some x \<Longrightarrow> x \<in> set xs \<and> P x"
  by (induction xs) (auto split: if_splits)

lemma find_append:
  "find P (xs @ ys) = (case find P xs of None \<Rightarrow> find P ys | Some x \<Rightarrow> Some x)"
  by (induction xs) auto

lemma last_entry_SomeD: "last_entry entries i = Some x \<Longrightarrow> x \<in> set entries \<and> de_id x = i"
  unfolding last_entry_def by (drule find_SomeD) simp

lemma last_entry_Nil [simp]: "last_entry [] i = None"
  by (simp add: last_entry_def)

lemma last_entry_Cons:
  "last_entry (e # entries) i
   = (case last_entry entries i of None \<Rightarrow> if de_id e = i then Some e else None | Some x \<Rightarrow> Some x)"
  by (simp add: last_entry_def find_append split: option.splits)

lemma map_of_push_id:
  "map_of (push_id n i m) = (map_of m)(n \<mapsto> rows (map_of m n) @ [i])"
proof (induction m)
  case (Cons e m)
  then show ?case by (cases e) (auto simp: rows_def fun_eq_iff)
qed (simp add: rows_def)

lemma keys_push_id: "fst ` set (push_id n i m) = insert n (fst ` set m)"
proof (induction m)
  case (Cons e m)
  then show ?case by (cases e) (simp add: insert_commute)
qed simp

lemma distinct_push_id: "distinct_keys m \<Longrightarrow> distinct_keys (push_id n i m)"
proof (induction m)
  case (Cons e m)
  obtain k ids where e: "e = (k, ids)" by (cases e)
  have "k \<notin> fst ` set m" using Cons.prems e by simp
  with Cons show ?case by (cases "k = n") (simp_all add: e keys_push_id)
qed simp

lemma push_executables_facts:
  "distinct_keys m \<Longrightarrow>
   distinct_keys (push_executables i xs m)
   \<and> rows (map_of (push_executables i xs m) n)
       = rows (map_of m n) @ map (\<lambda>_. i) (filter (\<lambda>x. exe_name x = n) xs)
   \<and> fst ` set (push_executables i xs m) = exe_name ` set xs \<union> fst ` set m"
proof (induction xs arbitrary: m)
  case (Cons x xs)
  have "distinct_keys (push_id (exe_name x) i m)" using Cons.prems by (rule distinct_push_id)
  from Cons.IH [OF this] show ?case by (auto simp: map_of_push_id keys_push_id rows_def)
qed simp

lemma build_ids_facts:
  "distinct_keys m \<Longrightarrow>
   distinct_keys (build_ids entries m)
   \<and> rows (map_of (build_ids entries m) n) = rows (map_of m n) @ ids_of entries n
   \<and> fst ` set (build_ids entries m)
       = exe_name ` (\<Union>e \<in> set entries. set (de_executables e)) \<union> fst ` set m"
proof (induction entries arbitrary: m)
  case (Cons e entries)
  have d: "distinct_keys (push_executables (de_id e) (de_executables e) m)"
    using push_executables_facts [OF Cons.prems] by blast
  from Cons.IH [OF d] push_executables_facts [OF Cons.prems, of "de_id e" "de_executables e" n]
  show ?case by (auto simp: ids_of_def)
qed (simp add: ids_of_def)

lemma build_ids_distinct: "distinct_keys (build_ids entries [])"
  using build_ids_facts [of "[]" entries] by simp

lemma build_ids_rows: "rows (map_of (build_ids entries []) n) = ids_of entries n"
  using build_ids_facts [of "[]" entries n] by (simp add: rows_def)

lemma insert_index_map_of: "distinct_keys m \<Longrightarrow> insert_index m index = index ++ map_of m"
proof (induction m arbitrary: index)
  case (Cons e m)
  obtain n ids where e: "e = (n, ids)" by (cases e)
  have "map_of m n = None" using Cons.prems e by (simp add: map_of_eq_None_iff)
  with Cons show ?case by (auto simp: e fun_eq_iff map_add_def split: option.splits)
qed simp

lemma insert_exes_facts:
  "distinct_keys m \<Longrightarrow> distinct_keys exes \<Longrightarrow>
   distinct_keys (insert_exes m exes)
   \<and> map_of (insert_exes m exes) = map_of exes ++ (\<lambda>n. map_option (join_with [CHR 0x0A]) (map_of m n))"
proof (induction m arbitrary: exes)
  case (Cons e m)
  obtain n ids where e: "e = (n, ids)" by (cases e)
  have "map_of m n = None" using Cons.prems(1) e by (simp add: map_of_eq_None_iff)
  with Cons show ?case
    by (auto simp: e update_conv' map_add_def fun_eq_iff split: option.splits)
qed (simp add: map_add_def)

text \<open>The filter and the index that \<open>ingest_entries\<close> builds satisfy the contract.\<close>

interpretation ingested: prefilter
  "\<lambda>n. n \<in> set (sort (map fst (build_ids entries [])))"
  "insert_index (build_ids entries []) Map.empty"
  for entries
proof unfold_locales
  fix k vs
  assume "insert_index (build_ids entries []) Map.empty k = Some vs"
  then have "map_of (build_ids entries []) k = Some vs"
    by (simp add: insert_index_map_of build_ids_distinct)
  then show "k \<in> set (sort (map fst (build_ids entries [])))"
    by (force dest: map_of_SomeD)
qed

section \<open>Representation\<close>

definition exe_names :: "detectable_entry list \<Rightarrow> str set" where
  "exe_names entries = exe_name ` (\<Union>e \<in> set entries. set (de_executables e))"

text \<open>
  A handle represents a list of entries: its \<open>apps\<close> table holds the last entry of each id, its index the
  ids that declare each name, in order, and its filter exactly the declared names.
\<close>

definition represents :: "db_lib \<Rightarrow> detectable_entry list \<Rightarrow> detectable_db \<Rightarrow> bool" where
  "represents L entries db \<longleftrightarrow>
     (\<exists>apps. tb_apps (dd_db db) = Some apps \<and>
        (\<forall>i. Option.bind (map_of apps i) (rkyv_access L) = last_entry entries i))
     \<and> (\<forall>n. dd_exe_index db n = (if n \<in> exe_names entries then Some (ids_of entries n) else None))
     \<and> set (dd_fst db) = exe_names entries"

lemma build_ids_SomeD:
  assumes "map_of (build_ids entries []) n = Some ids"
  shows "ids = ids_of entries n \<and> ids \<noteq> []"
proof -
  have i: "ids = ids_of entries n" using build_ids_rows [of entries n] assms by (simp add: rows_def)
  have "n \<in> fst ` set (build_ids entries [])" using assms by (force dest: map_of_SomeD)
  then obtain e x where "e \<in> set entries" "x \<in> set (de_executables e)" "exe_name x = n"
    using build_ids_facts [of "[]" entries] by auto
  then have "de_id e \<in> set (ids_of entries n)" by (force simp: ids_of_def)
  then have "ids_of entries n \<noteq> []" by auto
  with i show ?thesis by simp
qed

lemma built_index:
  "insert_index (build_ids entries []) Map.empty n
   = (if n \<in> exe_names entries then Some (ids_of entries n) else None)"
proof -
  have "n \<in> exe_names entries \<longleftrightarrow> map_of (build_ids entries []) n \<noteq> None"
    using build_ids_facts [of "[]" entries] by (simp add: map_of_eq_None_iff exe_names_def)
  then show ?thesis
    using build_ids_SomeD [of entries n]
    by (cases "map_of (build_ids entries []) n") (simp_all add: insert_index_map_of build_ids_distinct)
qed

lemma ingest_loop_Some:
  assumes "\<forall>e \<in> set entries. rkyv_to_bytes L e \<noteq> None"
  shows "\<exists>apps'. ingest_loop L entries apps m = Some (apps', build_ids entries m) \<and>
    map_of apps' = map_of apps ++ (\<lambda>i. Option.bind (last_entry entries i) (rkyv_to_bytes L))"
  using assms
proof (induction entries arbitrary: apps m)
  case Nil
  then show ?case by (simp add: map_add_def)
next
  case (Cons e entries)
  obtain b where b: "rkyv_to_bytes L e = Some b" using Cons.prems by auto
  obtain apps' where a: "ingest_loop L entries (AList.update (de_id e) b apps)
        (push_executables (de_id e) (de_executables e) m)
      = Some (apps', build_ids entries (push_executables (de_id e) (de_executables e) m))"
    and m: "map_of apps' = map_of (AList.update (de_id e) b apps)
        ++ (\<lambda>i. Option.bind (last_entry entries i) (rkyv_to_bytes L))"
    using Cons by force
  have sl: "last_entry entries i = Some x \<Longrightarrow> rkyv_to_bytes L x \<noteq> None" for i x
    using Cons.prems last_entry_SomeD [of entries i x] by auto
  have "map_of apps' = map_of apps ++ (\<lambda>i. Option.bind (last_entry (e # entries) i) (rkyv_to_bytes L))"
    using b by (auto simp: m update_conv' last_entry_Cons map_add_def fun_eq_iff
        split: option.splits dest: sl)
  with a b show ?case by auto
qed


section \<open>Rebuilding\<close>

definition env_ok :: "io_env \<Rightarrow> disk \<Rightarrow> bool" where
  "env_ok env dk \<longleftrightarrow>
     (io_remove env \<or> dk_redb dk = None) \<and> io_create env \<and> io_write_txn env \<and> io_write_fst env"

definition serialisable :: "db_lib \<Rightarrow> detectable_entry list \<Rightarrow> bool" where
  "serialisable L entries \<longleftrightarrow> (\<forall>e \<in> set entries. rkyv_to_bytes L e \<noteq> None)"

definition sorted_exes :: "detectable_entry list \<Rightarrow> str list" where
  "sorted_exes entries = sort (map fst (build_ids entries []))"

lemma set_sorted_exes: "set (sorted_exes entries) = exe_names entries"
  using build_ids_facts [of "[]" entries] by (simp add: sorted_exes_def exe_names_def)

lemma distinct_sorted_exes: "distinct (sorted_exes entries)"
  by (simp add: sorted_exes_def build_ids_distinct)

lemma sorted_sorted_exes: "sorted (sorted_exes entries)"
  by (simp add: sorted_exes_def)

lemma length_sorted_exes: "length (sorted_exes entries) = card (exe_names entries)"
  using distinct_card [OF distinct_sorted_exes] by (simp add: set_sorted_exes)

definition fresh_exes :: "detectable_entry list \<Rightarrow> (str \<times> str) list" where
  "fresh_exes entries = insert_exes (build_ids entries []) []"

lemma fresh_exes_facts:
  "distinct_keys (fresh_exes entries)
   \<and> map_of (fresh_exes entries)
      = (\<lambda>n. map_option (join_with [CHR 0x0A]) (map_of (build_ids entries []) n))"
  using insert_exes_facts [OF build_ids_distinct, of "[]" entries]
  by (simp add: fresh_exes_def map_add_def fun_eq_iff split: option.splits)

lemma keys_fresh_exes: "fst ` set (fresh_exes entries) = exe_names entries"
proof -
  have "fst ` set (fresh_exes entries) = dom (map_of (fresh_exes entries))"
    by (simp add: dom_map_of_conv_image_fst)
  also have "\<dots> = dom (map_of (build_ids entries []))"
    using fresh_exes_facts [of entries] by (auto simp: dom_def)
  also have "\<dots> = exe_names entries"
    using build_ids_facts [of "[]" entries] by (simp add: dom_map_of_conv_image_fst exe_names_def)
  finally show ?thesis .
qed

context db_library
begin

lemma write_load_fst:
  assumes "sorted ks" and "distinct ks" and "io_write_fst env"
  obtains b where "write_fst_file L env ks dk = (Inr (), dk\<lparr>dk_fst := Some b\<rparr>)"
    and "load_mmap_fst L (dk\<lparr>dk_fst := Some b\<rparr>) = Inr ks"
    and "fst_build L ks = Some b" and "b \<noteq> []" and "fst_parse L b = Some ks"
proof -
  obtain b where "fst_build L ks = Some b" "b \<noteq> []" "fst_parse L b = Some ks"
    using fst_roundtrip [OF assms(1,2)] by blast
  with assms(3) that [of b] show thesis by (simp add: write_fst_file_def load_mmap_fst_def)
qed

lemma rebuild_result:
  assumes "env_ok env dk" and "serialisable L entries"
  obtains apps b where
    "rebuild_with_fst L env entries dk =
      (Inr \<lparr>dd_db = \<lparr>tb_apps = Some apps, tb_exes = Some (fresh_exes entries)\<rparr>,
             dd_fst = sorted_exes entries,
             dd_exe_index = insert_index (build_ids entries []) Map.empty\<rparr>,
       \<lparr>dk_redb = Some \<lparr>tb_apps = Some apps, tb_exes = Some (fresh_exes entries)\<rparr>,
        dk_fst = Some b\<rparr>)"
    and "\<And>i. Option.bind (map_of apps i) (rkyv_access L) = last_entry entries i"
    and "b \<noteq> []" and "fst_parse L b = Some (sorted_exes entries)"
    and "fst_build L (sorted_exes entries) = Some b"
proof -
  let ?I = "build_ids entries []"
  obtain apps where loop: "ingest_loop L entries [] [] = Some (apps, ?I)"
    and m: "map_of apps = (\<lambda>i. Option.bind (last_entry entries i) (rkyv_to_bytes L))"
    using ingest_loop_Some [of entries L "[]" "[]"] assms(2) by (auto simp: serialisable_def)
  define db1 where "db1 = \<lparr>tb_apps = Some apps, tb_exes = Some (fresh_exes entries)\<rparr>"
  obtain b where w: "write_fst_file L env (sorted_exes entries) \<lparr>dk_redb = Some db1, dk_fst = dk_fst dk\<rparr>
        = (Inr (), \<lparr>dk_redb = Some db1, dk_fst = Some b\<rparr>)"
    and l: "load_mmap_fst L \<lparr>dk_redb = Some db1, dk_fst = Some b\<rparr> = Inr (sorted_exes entries)"
    and b: "b \<noteq> []" "fst_parse L b = Some (sorted_exes entries)"
      "fst_build L (sorted_exes entries) = Some b"
    using write_load_fst [OF sorted_sorted_exes distinct_sorted_exes, of env entries
        "\<lparr>dk_redb = Some db1, dk_fst = dk_fst dk\<rparr>"] assms(1)
    by (auto simp: env_ok_def)
  have r: "Option.bind (map_of apps i) (rkyv_access L) = last_entry entries i" for i
  proof (cases "last_entry entries i")
    case (Some e)
    then have "rkyv_to_bytes L e \<noteq> None"
      using assms(2) last_entry_SomeD by (fastforce simp: serialisable_def)
    then show ?thesis using Some rkyv_roundtrip by (auto simp: m)
  qed (simp add: m)
  have d: "(case dk_redb (if io_remove env then dk\<lparr>dk_redb := None\<rparr> else dk) of
      None \<Rightarrow> no_tables | Some t \<Rightarrow> t) = no_tables"
    using assms(1) by (auto simp: env_ok_def)
  have "rebuild_with_fst L env entries dk =
      (Inr \<lparr>dd_db = db1, dd_fst = sorted_exes entries, dd_exe_index = insert_index ?I Map.empty\<rparr>,
       \<lparr>dk_redb = Some db1, dk_fst = Some b\<rparr>)"
    unfolding rebuild_with_fst_def Let_def d
    using assms(1) w l
    by (cases dk) (simp add: ingest_entries_def no_tables_def rows_def loop env_ok_def db1_def Let_def
        fresh_exes_def sorted_exes_def)
  then show thesis by (rule that [OF _ r b, unfolded db1_def [symmetric]])
qed

end

end
