(* ===== verification/Db_Sample.thy ===== *)
theory Db_Sample
  imports Db_Spec
begin

text \<open>
  One concrete instance of the database libraries: self-delimiting byte encodings of strings, lists,
  options and entries. It shows that the contract \<open>db_library\<close> can be met and makes the theorems about
  the database evaluable on concrete entries.
\<close>

section \<open>Self-delimiting encodings\<close>

definition codec :: "('a \<Rightarrow> u8 list) \<Rightarrow> (u8 list \<Rightarrow> ('a \<times> u8 list) option) \<Rightarrow> bool" where
  "codec enc dec \<longleftrightarrow> (\<forall>x r. dec (enc x @ r) = Some (x, r))"

lemma codecD: "codec enc dec \<Longrightarrow> dec (enc x @ r) = Some (x, r)"
  by (simp add: codec_def)

definition enc_len :: "nat \<Rightarrow> u8 list" where
  "enc_len n = replicate n 1 @ [0]"

fun dec_len :: "u8 list \<Rightarrow> (nat \<times> u8 list) option" where
  "dec_len [] = None"
| "dec_len (b # bs) =
     (if b = 0 then Some (0, bs) else map_option (\<lambda>(n, r). (Suc n, r)) (dec_len bs))"

lemma codec_len: "codec enc_len dec_len"
proof -
  have "dec_len (enc_len n @ r) = Some (n, r)" for n r
    by (induction n) (simp_all add: enc_len_def)
  then show ?thesis by (simp add: codec_def)
qed

definition enc_str :: "str \<Rightarrow> u8 list" where
  "enc_str s = enc_len (length s) @ as_bytes s"

definition dec_str :: "u8 list \<Rightarrow> (str \<times> u8 list) option" where
  "dec_str bs = Option.bind (dec_len bs) (\<lambda>(n, r).
     if n \<le> length r then Some (bytes_str (take n r), drop n r) else None)"

lemma codec_str: "codec enc_str dec_str"
  by (simp add: codec_def enc_str_def dec_str_def codecD [OF codec_len])

fun dec_n :: "(u8 list \<Rightarrow> ('a \<times> u8 list) option) \<Rightarrow> nat \<Rightarrow> u8 list \<Rightarrow> ('a list \<times> u8 list) option" where
  "dec_n dec 0 bs = Some ([], bs)"
| "dec_n dec (Suc n) bs = Option.bind (dec bs) (\<lambda>(x, r).
     map_option (\<lambda>(xs, r'). (x # xs, r')) (dec_n dec n r))"

definition enc_list :: "('a \<Rightarrow> u8 list) \<Rightarrow> 'a list \<Rightarrow> u8 list" where
  "enc_list enc xs = enc_len (length xs) @ concat (map enc xs)"

definition dec_list :: "(u8 list \<Rightarrow> ('a \<times> u8 list) option) \<Rightarrow> u8 list \<Rightarrow> ('a list \<times> u8 list) option" where
  "dec_list dec bs = Option.bind (dec_len bs) (\<lambda>(n, r). dec_n dec n r)"

lemma codec_list: "codec enc dec \<Longrightarrow> codec (enc_list enc) (dec_list dec)"
proof -
  assume c: "codec enc dec"
  have "dec_n dec (length xs) (concat (map enc xs) @ r) = Some (xs, r)" for xs r
    by (induction xs) (simp_all add: codecD [OF c])
  then show ?thesis by (simp add: codec_def enc_list_def dec_list_def codecD [OF codec_len])
qed

definition enc_opt :: "('a \<Rightarrow> u8 list) \<Rightarrow> 'a option \<Rightarrow> u8 list" where
  "enc_opt enc x = (case x of None \<Rightarrow> [0] | Some y \<Rightarrow> 1 # enc y)"

fun dec_opt :: "(u8 list \<Rightarrow> ('a \<times> u8 list) option) \<Rightarrow> u8 list \<Rightarrow> ('a option \<times> u8 list) option" where
  "dec_opt dec [] = None"
| "dec_opt dec (b # bs) =
     (if b = 0 then Some (None, bs) else map_option (\<lambda>(x, r). (Some x, r)) (dec bs))"

lemma codec_opt: "codec enc dec \<Longrightarrow> codec (enc_opt enc) (dec_opt dec)"
  by (auto simp: codec_def enc_opt_def split: option.splits)

section \<open>Entries\<close>

definition enc_exe :: "executable \<Rightarrow> u8 list" where
  "enc_exe e = enc_str (exe_name e) @ (if exe_is_launcher e then 1 else 0)
     # enc_opt (enc_list enc_str) (exe_arguments e) @ enc_opt enc_str (exe_os e)"

definition dec_exe :: "u8 list \<Rightarrow> (executable \<times> u8 list) option" where
  "dec_exe bs = Option.bind (dec_str bs) (\<lambda>(n, r).
     case r of [] \<Rightarrow> None | l # r \<Rightarrow>
       Option.bind (dec_opt (dec_list dec_str) r) (\<lambda>(a, r).
         map_option (\<lambda>(os, r). (\<lparr>exe_name = n, exe_is_launcher = (l = 1), exe_arguments = a, exe_os = os\<rparr>, r))
           (dec_opt dec_str r)))"

lemma codec_exe: "codec enc_exe dec_exe"
  by (simp add: codec_def enc_exe_def dec_exe_def codecD [OF codec_str]
      codecD [OF codec_opt [OF codec_str]] codecD [OF codec_opt [OF codec_list [OF codec_str]]])

definition enc_entry :: "detectable_entry \<Rightarrow> u8 list" where
  "enc_entry e = enc_str (de_id e) @ enc_str (de_name e) @ enc_list enc_exe (de_executables e)"

definition dec_entry :: "u8 list \<Rightarrow> (detectable_entry \<times> u8 list) option" where
  "dec_entry bs = Option.bind (dec_str bs) (\<lambda>(i, r). Option.bind (dec_str r) (\<lambda>(n, r).
     map_option (\<lambda>(xs, r). (\<lparr>de_id = i, de_name = n, de_executables = xs\<rparr>, r)) (dec_list dec_exe r)))"

lemma codec_entry: "codec enc_entry dec_entry"
  by (simp add: codec_def enc_entry_def dec_entry_def codecD [OF codec_str]
      codecD [OF codec_list [OF codec_exe]])

section \<open>The instance\<close>

definition sample_lib :: db_lib where
  "sample_lib =
     \<lparr>rkyv_to_bytes = (\<lambda>e. Some (enc_entry e)),
      rkyv_access = (\<lambda>b. map_option fst (dec_entry b)),
      fst_build = (\<lambda>ks. if sorted ks \<and> distinct ks then Some (enc_list enc_str ks) else None),
      fst_parse = (\<lambda>b. map_option fst (dec_list dec_str b))\<rparr>"

interpretation sample: db_library sample_lib
proof unfold_locales
  fix e b
  assume "rkyv_to_bytes sample_lib e = Some b"
  then show "rkyv_access sample_lib b = Some e"
    using codecD [OF codec_entry, of e "[]"] by (auto simp: sample_lib_def)
next
  fix ks :: "str list"
  assume "sorted ks" and "distinct ks"
  then show "\<exists>b. fst_build sample_lib ks = Some b \<and> b \<noteq> [] \<and> fst_parse sample_lib b = Some ks"
    using codecD [OF codec_list [OF codec_str], of ks "[]"]
    by (simp add: sample_lib_def enc_list_def enc_len_def)
qed

definition sample_exe :: "str \<Rightarrow> executable" where
  "sample_exe n = \<lparr>exe_name = n, exe_is_launcher = False, exe_arguments = None, exe_os = None\<rparr>"

definition sample_entry :: "str \<Rightarrow> str \<Rightarrow> str list \<Rightarrow> detectable_entry" where
  "sample_entry i n exes = \<lparr>de_id = i, de_name = n, de_executables = map sample_exe exes\<rparr>"

definition good_env :: io_env where
  "good_env = \<lparr>io_remove = True, io_create = True, io_write_txn = True, io_write_fst = True\<rparr>"

definition no_files :: disk where
  "no_files = \<lparr>dk_redb = None, dk_fst = None\<rparr>"

lemma env_ok_good [simp]: "env_ok good_env dk"
  by (simp add: env_ok_def good_env_def)

lemma serialisable_sample [simp]: "serialisable sample_lib entries"
  by (simp add: serialisable_def sample_lib_def)

lemma sample_library [simp]: "db_library sample_lib"
  by (rule sample.db_library_axioms)

end
