(* ===== verification/Db_Open.thy ===== *)
theory Db_Open
  imports Db_Sample
begin

text \<open>
  Persistence: the database that \<open>rebuild_with_fst\<close> builds, and what \<open>open_with_fst\<close> makes of the same
  files later. Opening reproduces the handle; a missing or unreadable FST file is rebuilt from the
  \<open>exes\<close> table; an FST of the right length is trusted whatever its keys are.
\<close>

text \<open>
  Claim C23. Rebuilding with working file operations succeeds; the handle represents the entries, its
  filter has one key per distinct executable name, and the redb file on disk holds the handle's tables.
\<close>

theorem rebuild_represents:
  assumes "db_library L" and "env_ok env dk" and "serialisable L entries"
  shows "\<exists>db dk'. rebuild_with_fst L env entries dk = (Inr db, dk')
    \<and> represents L entries db \<and> fst_len db = card (exe_names entries)
    \<and> db_is_empty db = (exe_names entries = {}) \<and> dk_redb dk' = Some (dd_db db)"
proof -
  obtain apps b where r: "rebuild_with_fst L env entries dk =
      (Inr \<lparr>dd_db = \<lparr>tb_apps = Some apps, tb_exes = Some (fresh_exes entries)\<rparr>,
             dd_fst = sorted_exes entries,
             dd_exe_index = insert_index (build_ids entries []) Map.empty\<rparr>,
       \<lparr>dk_redb = Some \<lparr>tb_apps = Some apps, tb_exes = Some (fresh_exes entries)\<rparr>,
        dk_fst = Some b\<rparr>)"
    and a: "\<And>i. Option.bind (map_of apps i) (rkyv_access L) = last_entry entries i"
    using db_library.rebuild_result [OF assms] by metis
  have "sorted_exes entries = [] \<longleftrightarrow> exe_names entries = {}"
    using set_sorted_exes [of entries] by (metis set_empty)
  with r a show ?thesis
    by (simp add: represents_def fst_len_def db_is_empty_def length_sorted_exes set_sorted_exes built_index)
qed

theorem rebuild_represents_witness:
  "\<exists>db dk'. rebuild_with_fst sample_lib good_env [sample_entry ''1'' ''G'' [''a'', ''>b'']] no_files
      = (Inr db, dk')
    \<and> represents sample_lib [sample_entry ''1'' ''G'' [''a'', ''>b'']] db
    \<and> fst_len db = card (exe_names [sample_entry ''1'' ''G'' [''a'', ''>b'']])
    \<and> db_is_empty db = (exe_names [sample_entry ''1'' ''G'' [''a'', ''>b'']] = {})
    \<and> dk_redb dk' = Some (dd_db db)"
  by (rule rebuild_represents) simp_all

section \<open>Opening the files again\<close>

definition newline_free :: "detectable_entry list \<Rightarrow> bool" where
  "newline_free entries \<longleftrightarrow> (\<forall>e \<in> set entries. CHR 0x0A \<notin> set (de_id e))"

text \<open>The FST file contents that \<open>load_fst_from_db\<close> uses as they are, for a table of \<open>n\<close> rows.\<close>

definition accepted_fst :: "db_lib \<Rightarrow> nat \<Rightarrow> u8 list option \<Rightarrow> str list option" where
  "accepted_fst L n f =
     (case f of None \<Rightarrow> None
      | Some b \<Rightarrow> if b = [] then None
          else (case fst_parse L b of None \<Rightarrow> None
                | Some keys \<Rightarrow> if length keys = n then Some keys else None))"

lemma load_rows_facts:
  "distinct_keys exes \<Longrightarrow>
   load_rows exes index names
   = (index ++ (\<lambda>n. map_option (split_on (\<lambda>c. c = CHR 0x0A)) (map_of exes n)), names @ map fst exes)"
proof (induction exes arbitrary: index names)
  case (Cons e exes)
  obtain k v where e: "e = (k, v)" by (cases e)
  have "map_of exes k = None" using Cons.prems e by (simp add: map_of_eq_None_iff)
  with Cons show ?case by (auto simp: e fun_eq_iff map_add_def split: option.splits)
qed (simp add: map_add_def)

lemma ids_of_subset: "set (ids_of entries n) \<subseteq> de_id ` set entries"
  by (auto simp: ids_of_def)

lemma load_fresh_exes:
  assumes "newline_free entries"
  shows "load_rows (fresh_exes entries) Map.empty []
    = (insert_index (build_ids entries []) Map.empty, map fst (fresh_exes entries))"
proof -
  have s: "split_on (\<lambda>c. c = CHR 0x0A) (join_with [CHR 0x0A] ids) = ids"
    if "map_of (build_ids entries []) n = Some ids" for n ids
  proof (rule split_on_join)
    show "ids \<noteq> []" using build_ids_SomeD [OF that] by blast
    have "set ids \<subseteq> de_id ` set entries"
      using build_ids_SomeD [OF that] ids_of_subset by metis
    with assms show "\<forall>xs \<in> set ids. CHR 0x0A \<notin> set xs" by (auto simp: newline_free_def)
  qed
  have "(\<lambda>n. map_option (split_on (\<lambda>c. c = CHR 0x0A)) (map_of (fresh_exes entries) n))
      = map_of (build_ids entries [])"
  proof
    fix n
    show "map_option (split_on (\<lambda>c. c = CHR 0x0A)) (map_of (fresh_exes entries) n)
        = map_of (build_ids entries []) n"
      using fresh_exes_facts [of entries] s by (cases "map_of (build_ids entries []) n") simp_all
  qed
  with load_rows_facts [of "fresh_exes entries" Map.empty "[]"] fresh_exes_facts [of entries]
  show ?thesis by (simp add: insert_index_map_of build_ids_distinct)
qed

lemma sort_fresh_exes: "sort (map fst (fresh_exes entries)) = sorted_exes entries"
proof (rule sorted_distinct_set_unique)
  show "set (sort (map fst (fresh_exes entries))) = set (sorted_exes entries)"
    using keys_fresh_exes set_sorted_exes by simp
qed (use fresh_exes_facts [of entries] in \<open>simp_all add: distinct_sorted_exes sorted_sorted_exes\<close>)

lemma length_fresh_exes: "length (fresh_exes entries) = card (exe_names entries)"
  using arg_cong [OF sort_fresh_exes [of entries], of length] by (simp add: length_sorted_exes)

text \<open>\<open>load_fst_from_db\<close> on the tables of a rebuild, whatever the FST file holds.\<close>

lemma open_fresh:
  assumes "newline_free entries"
    and "dk_redb dk = Some \<lparr>tb_apps = apps, tb_exes = Some (fresh_exes entries)\<rparr>"
  shows "open_with_fst L env dk =
    (let this = \<lparr>dd_db = \<lparr>tb_apps = apps, tb_exes = Some (fresh_exes entries)\<rparr>, dd_fst = [],
                 dd_exe_index = insert_index (build_ids entries []) Map.empty\<rparr>
     in case accepted_fst L (card (exe_names entries)) (dk_fst dk) of
       Some keys \<Rightarrow> (Inr (this\<lparr>dd_fst := keys\<rparr>), dk)
     | None \<Rightarrow>
       (case (if exe_names entries \<noteq> {} then write_fst_file L env (sorted_exes entries) dk else (Inr (), dk)) of
          (Inl e, dk1) \<Rightarrow> (Inl e, dk1)
        | (Inr _, dk1) \<Rightarrow>
            (case load_mmap_fst L dk1 of
               Inl e \<Rightarrow> (Inl e, dk1)
             | Inr keys \<Rightarrow> (Inr (this\<lparr>dd_fst := keys\<rparr>), dk1))))"
proof -
  have a: "(case load_mmap_fst L dk of
      Inr keys \<Rightarrow> if length keys = length (map fst (fresh_exes entries)) then Some keys else None
    | Inl _ \<Rightarrow> None) = accepted_fst L (card (exe_names entries)) (dk_fst dk)"
    by (simp add: load_mmap_fst_def accepted_fst_def length_fresh_exes split: option.splits)
  have e: "map fst (fresh_exes entries) \<noteq> [] \<longleftrightarrow> exe_names entries \<noteq> {}"
    using keys_fresh_exes [of entries] by auto
  show ?thesis
    unfolding open_with_fst_def load_fst_from_db_def assms(2)
    by (simp only: Let_def option.case detectable_db.simps tables.simps load_fresh_exes [OF assms(1)]
        case_prod_conv a e sort_fresh_exes)
qed


text \<open>
  Claim C22. Opening the files that a rebuild wrote gives back the very same handle and changes nothing on
  disk, provided no application id contains a newline.
\<close>

theorem open_after_rebuild:
  assumes "db_library L" and "env_ok env dk" and "serialisable L entries" and "newline_free entries"
    and "rebuild_with_fst L env entries dk = (Inr db, dk')"
  shows "open_with_fst L env2 dk' = (Inr db, dk')"
proof (rule db_library.rebuild_result [OF assms(1-3)])
  fix apps b
  assume "rebuild_with_fst L env entries dk =
      (Inr \<lparr>dd_db = \<lparr>tb_apps = Some apps, tb_exes = Some (fresh_exes entries)\<rparr>,
             dd_fst = sorted_exes entries,
             dd_exe_index = insert_index (build_ids entries []) Map.empty\<rparr>,
       \<lparr>dk_redb = Some \<lparr>tb_apps = Some apps, tb_exes = Some (fresh_exes entries)\<rparr>, dk_fst = Some b\<rparr>)"
    and b: "b \<noteq> []" "fst_parse L b = Some (sorted_exes entries)"
  with assms(5) show ?thesis
    by (auto simp: open_fresh [OF assms(4)] accepted_fst_def length_sorted_exes)
qed

theorem open_after_rebuild_witness:
  "\<exists>db dk'. rebuild_with_fst sample_lib good_env [sample_entry ''1'' ''G'' [''a'', ''>b'']] no_files
      = (Inr db, dk') \<and> open_with_fst sample_lib good_env dk' = (Inr db, dk')"
proof -
  let ?es = "[sample_entry ''1'' ''G'' [''a'', ''>b'']]"
  obtain db dk' where r: "rebuild_with_fst sample_lib good_env ?es no_files = (Inr db, dk')"
    using sample.rebuild_result [OF env_ok_good serialisable_sample] by metis
  have "newline_free ?es" by (simp add: newline_free_def sample_entry_def)
  with r open_after_rebuild [of sample_lib good_env no_files ?es db dk' good_env] show ?thesis by simp
qed

text \<open>
  Claim C32. When the FST file next to a rebuilt redb file is missing, empty, unparsable or of the wrong
  length, opening regenerates it from the \<open>exes\<close> table: handle and files are again those of the rebuild,
  provided some executable is declared and the file can be written.
\<close>

theorem open_heals_fst:
  assumes "db_library L" and "env_ok env dk" and "serialisable L entries" and "newline_free entries"
    and "rebuild_with_fst L env entries dk = (Inr db, dk')"
    and "exe_names entries \<noteq> {}" and "io_write_fst env2"
    and "accepted_fst L (card (exe_names entries)) f = None"
  shows "open_with_fst L env2 (dk'\<lparr>dk_fst := f\<rparr>) = (Inr db, dk')"
proof (rule db_library.rebuild_result [OF assms(1-3)])
  fix apps b
  assume r: "rebuild_with_fst L env entries dk =
      (Inr \<lparr>dd_db = \<lparr>tb_apps = Some apps, tb_exes = Some (fresh_exes entries)\<rparr>,
             dd_fst = sorted_exes entries,
             dd_exe_index = insert_index (build_ids entries []) Map.empty\<rparr>,
       \<lparr>dk_redb = Some \<lparr>tb_apps = Some apps, tb_exes = Some (fresh_exes entries)\<rparr>, dk_fst = Some b\<rparr>)"
    and b: "b \<noteq> []" "fst_parse L b = Some (sorted_exes entries)" "fst_build L (sorted_exes entries) = Some b"
  with assms(5) have dk': "dk' = \<lparr>dk_redb = Some \<lparr>tb_apps = Some apps, tb_exes = Some (fresh_exes entries)\<rparr>,
        dk_fst = Some b\<rparr>" by simp
  have "write_fst_file L env2 (sorted_exes entries) (dk'\<lparr>dk_fst := f\<rparr>) = (Inr (), dk')"
    using assms(7) b by (simp add: write_fst_file_def dk')
  moreover have "load_mmap_fst L dk' = Inr (sorted_exes entries)"
    using b by (simp add: load_mmap_fst_def dk')
  ultimately show ?thesis
    using assms(5,6,8) r by (auto simp: open_fresh [OF assms(4)] dk')
qed

theorem open_heals_fst_witness:
  "\<exists>db dk'. rebuild_with_fst sample_lib good_env [sample_entry ''1'' ''G'' [''a'', ''>b'']] no_files
      = (Inr db, dk') \<and> open_with_fst sample_lib good_env (dk'\<lparr>dk_fst := None\<rparr>) = (Inr db, dk')"
proof -
  let ?es = "[sample_entry ''1'' ''G'' [''a'', ''>b'']]"
  obtain db dk' where r: "rebuild_with_fst sample_lib good_env ?es no_files = (Inr db, dk')"
    using sample.rebuild_result [OF env_ok_good serialisable_sample] by metis
  have "newline_free ?es" and "exe_names ?es \<noteq> {}"
    by (simp_all add: newline_free_def sample_entry_def exe_names_def)
  with r open_heals_fst [of sample_lib good_env no_files ?es db dk' good_env None] show ?thesis
    by (simp add: accepted_fst_def good_env_def [symmetric]) (simp add: good_env_def)
qed

text \<open>
  A database whose \<open>exes\<close> table exists but is empty is not healed: with the FST file missing or
  empty, opening fails, although the documentation promises an empty FST in that case.
\<close>

theorem open_empty_table_fails:
  assumes "db_library L" and "env_ok env dk" and "serialisable L entries"
    and "rebuild_with_fst L env entries dk = (Inr db, dk')"
    and "exe_names entries = {}" and "f = None \<or> f = Some []"
  shows "open_with_fst L env2 (dk'\<lparr>dk_fst := f\<rparr>)
    = (Inl (if f = None then FstMissing else FstEmpty), dk'\<lparr>dk_fst := f\<rparr>)"
proof (rule db_library.rebuild_result [OF assms(1-3)])
  fix apps b
  assume r: "rebuild_with_fst L env entries dk =
      (Inr \<lparr>dd_db = \<lparr>tb_apps = Some apps, tb_exes = Some (fresh_exes entries)\<rparr>,
             dd_fst = sorted_exes entries,
             dd_exe_index = insert_index (build_ids entries []) Map.empty\<rparr>,
       \<lparr>dk_redb = Some \<lparr>tb_apps = Some apps, tb_exes = Some (fresh_exes entries)\<rparr>, dk_fst = Some b\<rparr>)"
  have "fresh_exes entries = []" using keys_fresh_exes [of entries] assms(5) by simp
  with r assms(4,6) show ?thesis
    by (auto simp: open_with_fst_def load_fst_from_db_def load_mmap_fst_def)
qed

theorem open_empty_table_fails_witness:
  "\<exists>db dk'. rebuild_with_fst sample_lib good_env [] no_files = (Inr db, dk')
    \<and> fst (open_with_fst sample_lib good_env (dk'\<lparr>dk_fst := None\<rparr>)) = Inl FstMissing"
proof -
  obtain db dk' where r: "rebuild_with_fst sample_lib good_env [] no_files = (Inr db, dk')"
    using sample.rebuild_result [OF env_ok_good serialisable_sample] by metis
  have "exe_names [] = {}" by (simp add: exe_names_def)
  with r open_empty_table_fails [of sample_lib good_env no_files "[]" db dk' None good_env]
  show ?thesis by simp
qed

end
