(* ===== verification/Db_Match.thy ===== *)
theory Db_Match
  imports Db_Open
begin

text \<open>
  What \<open>DetectableDb::match_process\<close> computes on a handle that represents a list of entries: the first
  matching candidate, where the candidates are the ids declaring each variant of the path and then those
  declaring the exact filename. The duplicate buffer and the FST do not change the answer. The last
  section compares it with the linear scan.
\<close>

section \<open>The candidate order\<close>

definition candidate ::
  "detectable_entry list \<Rightarrow> str list \<Rightarrow> str \<Rightarrow> str list \<Rightarrow> str \<Rightarrow> (str \<times> str) option" where
  "candidate entries variants filename args i =
     (case last_entry entries i of
        None \<Rightarrow> None
      | Some e \<Rightarrow> if entry_matches variants filename args e then Some (de_id e, de_name e) else None)"

definition candidate_names :: "str list \<Rightarrow> str \<Rightarrow> str list" where
  "candidate_names variants filename =
     variants @ (if filename = [] then [] else [CHR ''>'' # filename])"

definition db_answer ::
  "detectable_entry list \<Rightarrow> str list \<Rightarrow> str \<Rightarrow> str list \<Rightarrow> (str \<times> str) option" where
  "db_answer entries variants filename args =
     find_map (candidate entries variants filename args)
       (concat (map (ids_of entries) (candidate_names variants filename)))"

lemma exact_candidate:
  "(let exact = (if filename = [] then [] else CHR ''>'' # filename);
        names = variants @ (if exact \<noteq> [] then [exact] else []) in F names)
   = F (candidate_names variants filename)"
  by (cases "filename = []") (simp_all add: candidate_names_def Let_def)

lemma scan_ids_result:
  assumes "\<And>i. Option.bind (map_of apps i) (rkyv_access L) = last_entry entries i"
    and "\<forall>e \<in> set entries. valid_entry e"
  shows "\<forall>i \<in> set seen. candidate entries variants filename args i = None \<Longrightarrow>
    \<exists>seen'. scan_ids L apps variants filename args ids seen
      = Ret (find_map (candidate entries variants filename args) ids, seen')
    \<and> (find_map (candidate entries variants filename args) ids = None \<longrightarrow>
        (\<forall>i \<in> set seen'. candidate entries variants filename args i = None))"
proof (induction ids arbitrary: seen)
  case (Cons i ids)
  let ?f = "candidate entries variants filename args"
  show ?case
  proof (cases "i \<in> set seen \<or> last_entry entries i = None")
    case True
    then have n: "?f i = None" using Cons.prems by (auto simp: candidate_def)
    have "map_of apps i = None \<or> (\<exists>b. map_of apps i = Some b \<and> rkyv_access L b = None)"
      if "i \<notin> set seen" using assms(1) [of i] True that by (cases "map_of apps i") auto
    then obtain seen1 where s: "scan_ids L apps variants filename args (i # ids) seen
        = scan_ids L apps variants filename args ids seen1" and "set seen1 \<subseteq> insert i (set seen)"
      by (cases "i \<in> set seen") (force simp: Let_def)+
    then have "\<forall>j \<in> set seen1. ?f j = None" using Cons.prems n by auto
    from Cons.IH [OF this] s n show ?thesis by simp
  next
    case False
    then obtain e where e: "last_entry entries i = Some e" by auto
    with assms(1) [of i] obtain b where b: "map_of apps i = Some b" "rkyv_access L b = Some e"
      by (cases "map_of apps i") auto
    have "valid_entry e" using assms(2) last_entry_SomeD [OF e] by blast
    then have m: "archived_match (de_executables e) variants filename args
        = Ret (entry_matches variants filename args e)"
      by (simp add: archived_match_iff valid_entry_def entry_matches_def)
    show ?thesis
    proof (cases "entry_matches variants filename args e")
      case True
      then show ?thesis using False e b m by (simp add: candidate_def Let_def)
    next
      case no: False
      then have "\<forall>j \<in> set (seen @ [i]). ?f j = None" using Cons.prems e by (simp add: candidate_def)
      from Cons.IH [OF this] no show ?thesis using False e b m by (simp add: candidate_def Let_def)
    qed
  qed
qed simp

lemma scan_names_result:
  assumes "represents L entries db" and "tb_apps (dd_db db) = Some apps"
    and "\<forall>e \<in> set entries. valid_entry e"
  shows "\<forall>i \<in> set seen. candidate entries variants filename args i = None \<Longrightarrow>
    scan_names L apps (dd_fst db) (dd_exe_index db) variants filename args names seen
      = Ret (find_map (candidate entries variants filename args) (concat (map (ids_of entries) names)))"
proof (induction names arbitrary: seen)
  case (Cons n names)
  let ?f = "candidate entries variants filename args"
  have a: "\<And>i. Option.bind (map_of apps i) (rkyv_access L) = last_entry entries i"
    and x: "dd_exe_index db n = (if n \<in> exe_names entries then Some (ids_of entries n) else None)"
    and k: "set (dd_fst db) = exe_names entries"
    using assms(1,2) by (auto simp: represents_def)
  show ?case
  proof (cases "n \<in> exe_names entries")
    case False
    then have "ids_of entries n = []" by (auto simp: ids_of_def exe_names_def filter_empty_conv)
    with False Cons k show ?thesis by simp
  next
    case True
    obtain seen1 where s: "scan_ids L apps variants filename args (ids_of entries n) seen
        = Ret (find_map ?f (ids_of entries n), seen1)"
      and d: "find_map ?f (ids_of entries n) = None \<longrightarrow> (\<forall>i \<in> set seen1. ?f i = None)"
      using scan_ids_result [OF a assms(3) Cons.prems] by blast
    show ?thesis using True s d x k Cons.IH [of seen1]
      by (auto simp: find_map_append split: option.splits)
  qed
qed simp

lemma db_match_answer:
  assumes "represents L entries db" and "\<forall>e \<in> set entries. valid_entry e" and "valid_utf8 path"
  shows "db_match_process L db path args =
    Ret (db_answer entries (variants_of (last_four (components path))) (last_component path) args)"
proof -
  let ?v = "variants_of (last_four (components path))" and ?f = "last_component path"
  let ?names = "candidate_names ?v ?f"
  obtain apps where a: "tb_apps (dd_db db) = Some apps"
    and k: "set (dd_fst db) = exe_names entries"
    using assms(1) by (auto simp: represents_def)
  have miss: "db_answer entries ?v ?f args = None"
    if "\<not> list_ex (\<lambda>n. n \<in> set (dd_fst db)) ?names"
  proof -
    have "ids_of entries m = []" if "m \<in> set ?names" for m
      using \<open>\<not> list_ex _ _\<close> that k
      by (auto simp: ids_of_def exe_names_def filter_empty_conv list_ex_iff)
    then have "concat (map (ids_of entries) ?names) = []" by simp
    then show ?thesis unfolding db_answer_def by (simp only: find_map.simps)
  qed
  have "db_match_process L db path args =
    (if \<not> list_ex (\<lambda>n. n \<in> set (dd_fst db)) ?names then Ret None
     else scan_names L apps (dd_fst db) (dd_exe_index db) ?v ?f args ?names [])"
    unfolding db_match_process_def db_match_apps_def exact_candidate
    by (simp add: path_variants_ref [OF assms(3)] path_filename_last [OF assms(3)] a)
  with miss show ?thesis
    using scan_names_result [OF assms(1) a assms(2), of "[]" ?v ?f args ?names]
    by (simp add: db_answer_def)
qed


text \<open>
  Claim C20. On a handle that represents the entries, \<open>match_process\<close> never panics and returns the first
  matching candidate in the order of the path variants followed by the exact filename; neither the FST
  check nor the \<open>seen\<close> buffer changes the answer.
\<close>

theorem db_match_spec:
  assumes "represents L entries db" and "\<forall>e \<in> set entries. valid_entry e" and "valid_utf8 path"
  shows "db_match_process L db path args =
    Ret (db_answer entries (variants_of (last_four (components path))) (last_component path) args)"
  by (rule db_match_answer [OF assms])

section \<open>Reads that fail\<close>

text \<open>
  When every read succeeds the answer is the one above; when the table cannot be opened there is none; and a
  row that cannot be read is as good as missing: the answer is that of a handle whose table has only the
  rows that can be read.
\<close>

lemma db_match_reading_ok:
  "rd_open rd \<Longrightarrow> \<forall>i. rd_get rd i \<Longrightarrow> db_match_reading L rd db path args = db_match_process L db path args"
  by (cases "tb_apps (dd_db db)") (simp_all add: db_match_reading_def db_match_process_def readable_apps_def)

lemma db_match_reading_closed:
  assumes "valid_utf8 path" and "\<not> rd_open rd"
  shows "db_match_reading L rd db path args = Ret None"
  unfolding db_match_reading_def db_match_apps_def exact_candidate readable_apps_def
  by (simp add: path_variants_ref [OF assms(1)] path_filename_last [OF assms(1)] assms(2))

lemma db_match_reading_rows:
  "db_match_reading L rd db path args
    = db_match_process L (db\<lparr>dd_db := (dd_db db)\<lparr>tb_apps := readable_apps rd (dd_db db)\<rparr>\<rparr>) path args"
  by (cases "readable_apps rd (dd_db db)"; cases "path_variants path"; cases "path_filename path") (simp_all add: db_match_reading_def db_match_process_def db_match_apps_def Let_def)

section \<open>Agreement with the linear scan\<close>

lemma entry_matches_name:
  assumes "entry_matches variants filename args e"
    and "filename \<noteq> [] \<or> CHR ''>'' # [] \<notin> exe_names [e]"
  shows "\<exists>n \<in> set (candidate_names variants filename). n \<in> exe_names [e]"
proof -
  obtain exe where exe: "exe \<in> set (de_executables e)" "name_matches variants filename (exe_name exe)"
    using assms(1) by (auto simp: entry_matches_def)
  then have n: "exe_name exe \<in> exe_names [e]" by (simp add: exe_names_def)
  have "exe_name exe \<in> set (candidate_names variants filename)"
  proof (cases "starts_with_gt (exe_name exe)")
    case True
    then have g: "exe_name exe = CHR ''>'' # filename" using exe(2) by (simp add: name_matches_def)
    then have "filename \<noteq> []" using assms(2) n by metis
    with g show ?thesis by (simp add: candidate_names_def)
  qed (use exe(2) in \<open>simp add: name_matches_def candidate_names_def\<close>)
  with n show ?thesis by blast
qed

lemma last_entry_distinct:
  "distinct (map de_id entries) \<Longrightarrow> e \<in> set entries \<Longrightarrow> last_entry entries (de_id e) = Some e"
proof (induction entries)
  case (Cons x entries)
  have n: "last_entry entries (de_id x) = None"
  proof (cases "last_entry entries (de_id x)")
    case (Some y)
    then have "de_id x \<in> de_id ` set entries" using last_entry_SomeD [OF Some] by (metis imageI)
    with Cons.prems(1) show ?thesis by simp
  qed
  show ?case
  proof (cases "e = x")
    case True
    with n show ?thesis by (simp add: last_entry_Cons)
  next
    case False
    with Cons have "last_entry entries (de_id e) = Some e" by simp
    then show ?thesis by (simp add: last_entry_Cons)
  qed
qed simp

lemma db_answer_None_iff:
  assumes "distinct (map de_id entries)"
    and "filename \<noteq> [] \<or> CHR ''>'' # [] \<notin> exe_names entries"
  shows "db_answer entries variants filename args = None
    \<longleftrightarrow> (\<forall>e \<in> set entries. \<not> entry_matches variants filename args e)"
proof
  assume none: "db_answer entries variants filename args = None"
  show "\<forall>e \<in> set entries. \<not> entry_matches variants filename args e"
  proof (intro ballI notI)
    fix e
    assume e: "e \<in> set entries" and m: "entry_matches variants filename args e"
    have "filename \<noteq> [] \<or> CHR ''>'' # [] \<notin> exe_names [e]"
      using assms(2) e by (auto simp: exe_names_def)
    from entry_matches_name [OF m this] obtain n where
      n: "n \<in> set (candidate_names variants filename)" "n \<in> exe_names [e]" by blast
    then have "de_id e \<in> set (ids_of entries n)" using e by (force simp: ids_of_def exe_names_def)
    with n(1) none have "candidate entries variants filename args (de_id e) = None"
      by (auto simp: db_answer_def find_map_None_iff)
    then show False using m last_entry_distinct [OF assms(1) e] by (simp add: candidate_def)
  qed
next
  assume "\<forall>e \<in> set entries. \<not> entry_matches variants filename args e"
  then have "candidate entries variants filename args i = None" for i
    using last_entry_SomeD [of entries i] by (auto simp: candidate_def split: option.splits)
  then show "db_answer entries variants filename args = None"
    by (simp add: db_answer_def find_map_None_iff)
qed

lemma db_answer_SomeD:
  assumes "db_answer entries variants filename args = Some (i, n)"
  shows "\<exists>e \<in> set entries. entry_matches variants filename args e \<and> de_id e = i \<and> de_name e = n"
proof -
  obtain j where "candidate entries variants filename args j = Some (i, n)"
    using assms by (auto simp: db_answer_def dest: find_map_SomeD)
  then show ?thesis
    using last_entry_SomeD [of entries j] by (auto simp: candidate_def split: option.splits if_splits)
qed

text \<open>
  Claim C21. With distinct application ids, the database and the linear scan agree on whether a process is
  a known game, and what the database returns are the id and the name of an entry that matches; a path
  without a filename is excluded when an executable is named \<open>>\<close>.
\<close>

theorem db_match_agrees:
  assumes "represents L entries db" and "\<forall>e \<in> set entries. valid_entry e" and "valid_utf8 path"
    and "distinct (map de_id entries)"
    and "last_component path \<noteq> [] \<or> CHR ''>'' # [] \<notin> exe_names entries"
  shows "\<exists>r r'. db_match_process L db path args = Ret r \<and> match_process path args entries = Ret r'
    \<and> (r = None \<longleftrightarrow> r' = None)
    \<and> (\<forall>i n. r = Some (i, n) \<longrightarrow>
        (\<exists>e \<in> set entries. match_process path args [e] = Ret (Some e) \<and> de_id e = i \<and> de_name e = n))"
proof -
  have f: "find P xs = None \<longleftrightarrow> (\<forall>x \<in> set xs. \<not> P x)" for P and xs :: "detectable_entry list"
    by (induction xs) auto
  show ?thesis
    using db_match_answer [OF assms(1-3), of args] db_answer_None_iff [OF assms(4,5)]
    by (auto simp: match_process_find [OF assms(3)] f dest: db_answer_SomeD)
qed

text \<open>
  Which entry is returned can differ: with the exact-filename entry first in the list, the
  linear scan returns it while the database returns the later entry that declares a path variant.
\<close>

theorem db_match_priority:
  assumes "represents L [sample_entry ''1'' ''A'' [''>csgo''], sample_entry ''2'' ''B'' [''csgo'']] db"
  shows "match_process ''/opt/csgo'' [] [sample_entry ''1'' ''A'' [''>csgo''], sample_entry ''2'' ''B'' [''csgo'']]
      = Ret (Some (sample_entry ''1'' ''A'' [''>csgo'']))
    \<and> db_match_process L db ''/opt/csgo'' [] = Ret (Some (''2'', ''B''))"
proof -
  let ?es = "[sample_entry ''1'' ''A'' [''>csgo''], sample_entry ''2'' ''B'' [''csgo'']]"
  have v: "valid_utf8 ''/opt/csgo''" "\<forall>e \<in> set ?es. valid_entry e"
    by (simp_all add: valid_utf8_ascii is_ascii_def byte_def valid_entry_def sample_entry_def sample_exe_def)
  show ?thesis
    unfolding match_process_find [OF v(1)] db_match_answer [OF assms v(2,1)]
    by code_simp
qed


text \<open>Witnesses: a handle that represents three entries, from a rebuild.\<close>

definition sample_entries3 :: "detectable_entry list" where
  "sample_entries3 =
     [sample_entry ''1'' ''A'' [''>csgo''], sample_entry ''2'' ''B'' [''csgo''],
      sample_entry ''3'' ''C'' [''hl2'', ''bin/hl2'']]"

lemma represented:
  assumes "serialisable sample_lib entries"
  obtains db where "represents sample_lib entries db"
proof -
  obtain apps b where "\<And>i. Option.bind (map_of apps i) (rkyv_access sample_lib) = last_entry entries i"
    using sample.rebuild_result [OF env_ok_good assms] by metis
  then have "represents sample_lib entries
      \<lparr>dd_db = \<lparr>tb_apps = Some apps, tb_exes = None\<rparr>, dd_fst = sorted_exes entries,
       dd_exe_index = insert_index (build_ids entries []) Map.empty\<rparr>"
    by (simp add: represents_def built_index set_sorted_exes)
  then show thesis by (rule that)
qed

lemma sample_entries3_valid: "\<forall>e \<in> set sample_entries3. valid_entry e"
  by (simp add: sample_entries3_def valid_entry_def sample_entry_def sample_exe_def valid_utf8_ascii
      is_ascii_def byte_def)

lemma sample_path_valid: "valid_utf8 ''/opt/csgo''"
  by (simp add: valid_utf8_ascii is_ascii_def byte_def)

theorem db_match_spec_witness:
  "\<exists>db. represents sample_lib sample_entries3 db
    \<and> db_match_process sample_lib db ''/opt/csgo'' [] = Ret (Some (''2'', ''B''))"
proof -
  obtain db where r: "represents sample_lib sample_entries3 db"
    using represented [OF serialisable_sample] .
  have "db_answer sample_entries3 (variants_of (last_four (components ''/opt/csgo'')))
      (last_component ''/opt/csgo'') [] = Some (''2'', ''B'')"
    by code_simp
  then have "db_match_process sample_lib db ''/opt/csgo'' [] = Ret (Some (''2'', ''B''))"
    by (simp only: db_match_spec [OF r sample_entries3_valid sample_path_valid])
  with r show ?thesis by blast
qed

theorem db_match_agrees_witness:
  "\<exists>db r r'. represents sample_lib sample_entries3 db
    \<and> db_match_process sample_lib db ''/opt/csgo'' [] = Ret r
    \<and> match_process ''/opt/csgo'' [] sample_entries3 = Ret r' \<and> (r = None \<longleftrightarrow> r' = None)"
proof -
  obtain db where r: "represents sample_lib sample_entries3 db"
    using represented [OF serialisable_sample] .
  have "distinct (map de_id sample_entries3)" and "last_component ''/opt/csgo'' \<noteq> []"
    by (simp add: sample_entries3_def sample_entry_def, code_simp)
  with db_match_agrees [OF r sample_entries3_valid sample_path_valid, of "[]"] r
  show ?thesis by blast
qed

theorem db_match_priority_witness:
  "\<exists>db. represents sample_lib [sample_entry ''1'' ''A'' [''>csgo''], sample_entry ''2'' ''B'' [''csgo'']] db
    \<and> db_match_process sample_lib db ''/opt/csgo'' [] = Ret (Some (''2'', ''B''))"
proof -
  obtain db where
    "represents sample_lib [sample_entry ''1'' ''A'' [''>csgo''], sample_entry ''2'' ''B'' [''csgo'']] db"
    using represented [OF serialisable_sample] .
  with db_match_priority [OF this] show ?thesis by blast
qed

section \<open>A stale FST\<close>

text \<open>
  Claim C33. The redb transaction is committed before the FST is written. When the FST write fails, the
  rebuild returns an error, and the next opening accepts the old FST next to the new tables if the number
  of executable names happens to be the same: then every game none of whose names the old list had is
  missed, although the new entries are in the tables.
\<close>

theorem interrupted_rebuild_hides:
  assumes "db_library L"
    and "env_ok env dk" and "serialisable L old" and "rebuild_with_fst L env old dk = (Inr db, dk1)"
    and "io_remove env1" and "io_write_txn env1" and "\<not> io_write_fst env1" and "serialisable L new"
    and "newline_free new" and "card (exe_names new) = card (exe_names old)"
    and "valid_utf8 path"
    and "exe_names old \<inter> set (candidate_names (variants_of (last_four (components path)))
                                (last_component path)) = {}"
    and "io_create env1"
  shows "\<exists>dk2 db2. rebuild_with_fst L env1 new dk1 = (Inl FstWrite, dk2)
    \<and> open_with_fst L env2 dk2 = (Inr db2, dk2) \<and> db_match_process L db2 path args = Ret None"
proof (rule db_library.rebuild_result [OF assms(1-3)])
  fix apps b
  assume r: "rebuild_with_fst L env old dk =
      (Inr \<lparr>dd_db = \<lparr>tb_apps = Some apps, tb_exes = Some (fresh_exes old)\<rparr>,
             dd_fst = sorted_exes old, dd_exe_index = insert_index (build_ids old []) Map.empty\<rparr>,
       \<lparr>dk_redb = Some \<lparr>tb_apps = Some apps, tb_exes = Some (fresh_exes old)\<rparr>, dk_fst = Some b\<rparr>)"
    and b: "b \<noteq> []" "fst_parse L b = Some (sorted_exes old)"
  obtain apps2 where l: "ingest_loop L new [] [] = Some (apps2, build_ids new [])"
    using ingest_loop_Some [of new L "[]" "[]"] assms(8) by (auto simp: serialisable_def)
  define dk2 where "dk2 = \<lparr>dk_redb = Some \<lparr>tb_apps = Some apps2, tb_exes = Some (fresh_exes new)\<rparr>,
    dk_fst = Some b\<rparr>"
  have w: "write_fst_file L env1 ks d = (Inl FstWrite, d)" for ks d
    using assms(7) by (simp add: write_fst_file_def split: option.splits)
  have re: "rebuild_with_fst L env1 new dk1 = (Inl FstWrite, dk2)"
    using assms(4-6,13) r
    by (auto simp: rebuild_with_fst_def ingest_entries_def no_tables_def rows_def l w Let_def dk2_def
        fresh_exes_def)
  have "accepted_fst L (card (exe_names new)) (dk_fst dk2) = Some (sorted_exes old)"
    using b assms(10) by (simp add: dk2_def accepted_fst_def length_sorted_exes)
  moreover have "dk_redb dk2 = Some \<lparr>tb_apps = Some apps2, tb_exes = Some (fresh_exes new)\<rparr>"
    by (simp add: dk2_def)
  ultimately obtain db2 where o: "open_with_fst L env2 dk2 = (Inr db2, dk2)"
      and f: "dd_fst db2 = sorted_exes old"
    by (auto simp: open_fresh [OF assms(9)] Let_def)
  have "\<not> list_ex (\<lambda>n. n \<in> set (dd_fst db2))
      (candidate_names (variants_of (last_four (components path))) (last_component path))"
    using assms(12) f by (auto simp: set_sorted_exes list_ex_iff)
  then have "db_match_process L db2 path args = Ret None"
    unfolding db_match_process_def db_match_apps_def exact_candidate
    by (simp add: path_variants_ref [OF assms(11)] path_filename_last [OF assms(11)])
  with re o show ?thesis by blast
qed

theorem interrupted_rebuild_hides_witness:
  "\<exists>db dk1 dk2 db2.
    rebuild_with_fst sample_lib good_env [sample_entry ''1'' ''A'' [''old'']] no_files = (Inr db, dk1)
    \<and> rebuild_with_fst sample_lib (good_env\<lparr>io_write_fst := False\<rparr>) [sample_entry ''2'' ''B'' [''csgo'']] dk1
        = (Inl FstWrite, dk2)
    \<and> open_with_fst sample_lib good_env dk2 = (Inr db2, dk2)
    \<and> db_match_process sample_lib db2 ''/opt/csgo'' [] = Ret None
    \<and> match_process ''/opt/csgo'' [] [sample_entry ''2'' ''B'' [''csgo'']]
        = Ret (Some (sample_entry ''2'' ''B'' [''csgo'']))"
proof -
  let ?old = "[sample_entry ''1'' ''A'' [''old'']]" and ?new = "[sample_entry ''2'' ''B'' [''csgo'']]"
  obtain db dk1 where r: "rebuild_with_fst sample_lib good_env ?old no_files = (Inr db, dk1)"
    using sample.rebuild_result [OF env_ok_good serialisable_sample] by metis
  have n: "exe_names ?old = {''old''}" "exe_names ?new = {''csgo''}"
    by (auto simp: exe_names_def sample_entry_def sample_exe_def)
  have nl: "newline_free ?new" by (simp add: newline_free_def sample_entry_def)
  have c: "candidate_names (variants_of (last_four (components ''/opt/csgo''))) (last_component ''/opt/csgo'')
      = [''opt/csgo'', ''csgo'', ''>csgo'']" by code_simp
  have m: "match_process ''/opt/csgo'' [] ?new = Ret (Some (sample_entry ''2'' ''B'' [''csgo'']))"
    unfolding match_process_find [OF sample_path_valid] by code_simp
  have "\<exists>dk2 db2. rebuild_with_fst sample_lib (good_env\<lparr>io_write_fst := False\<rparr>) ?new dk1 = (Inl FstWrite, dk2)
    \<and> open_with_fst sample_lib good_env dk2 = (Inr db2, dk2)
    \<and> db_match_process sample_lib db2 ''/opt/csgo'' [] = Ret None"
    by (rule interrupted_rebuild_hides [OF sample_library env_ok_good serialisable_sample r])
      (simp_all add: good_env_def n c sample_path_valid nl)
  with r m show ?thesis by blast
qed

end
