(* ===== verification/Payload.thy ===== *)
theory Payload
  imports Detectable Json
begin

text \<open>
  Fetching the detectable list, \<open>src/process/detectable.rs\<close>: what \<open>fetch_detectable\<close> makes of an HTTP
  response, the three shapes \<open>parse_detectable_entries\<close> accepts, the recursive search
  \<open>parse_entries_from_value\<close>, the whitespace-compacting preview of error messages, and
  \<open>load_detectable_entries\<close> with its ETag file.

  The decoders that serde derives are the parameters of \<open>serde_det\<close>. An error holds what its text is made
  of; the text itself is in theory Payload_Text.
\<close>

record serde_det =
  sd_entries :: "u8 list \<Rightarrow> detectable_entry list option"
  sd_wrapped :: "u8 list \<Rightarrow> detectable_entry list option"
  sd_value :: "u8 list \<Rightarrow> json option"
  sd_entry :: "json \<Rightarrow> detectable_entry option"

datatype fetch_error = SendFailed | BadStatus nat "u8 list" | UnexpectedShape "u8 list"

section \<open>Parsing\<close>

definition parse_entries_from_array :: "serde_det \<Rightarrow> json list \<Rightarrow> detectable_entry list option" where
  "parse_entries_from_array S items =
     (let entries = List.map_filter (sd_entry S) items
      in if items = [] \<or> entries \<noteq> [] then Some entries else None)"

text \<open>The nodes of a JSON tree, for the termination measure and for the existence of an answer.\<close>

fun json_weight :: "json \<Rightarrow> nat" where
  "json_weight (JObject m) = Suc (Suc (Suc (Suc (Suc (sum_list (map (\<lambda>e. Suc (json_weight (snd e))) m))))))"
| "json_weight _ = 1"

definition map_weight :: "json_map \<Rightarrow> nat" where
  "map_weight m = sum_list (map (\<lambda>e. Suc (json_weight (snd e))) m)"

lemma weight_child: "map_of m k = Some v \<Longrightarrow> json_weight v < map_weight m"
proof (induction m)
  case (Cons e m)
  then show ?case by (cases e) (auto simp: map_weight_def split: if_splits)
qed simp

text \<open>
  The recursion follows the JSON tree; the loop over the three preferred keys comes before the loop over
  all values.
\<close>

function parse_entries_from_value :: "serde_det \<Rightarrow> json \<Rightarrow> detectable_entry list option"
  and parse_keys :: "serde_det \<Rightarrow> str list \<Rightarrow> json_map \<Rightarrow> detectable_entry list option"
  and parse_children :: "serde_det \<Rightarrow> json_map \<Rightarrow> detectable_entry list option" where
  "parse_entries_from_value S (JArray items) = parse_entries_from_array S items"
| "parse_entries_from_value S (JObject m) =
     (case parse_keys S [''applications'', ''data'', ''results''] m of
        Some entries \<Rightarrow> Some entries
      | None \<Rightarrow> parse_children S m)"
| "parse_entries_from_value S JNull = None"
| "parse_entries_from_value S (JBool b) = None"
| "parse_entries_from_value S (JNumber n) = None"
| "parse_entries_from_value S (JString s) = None"
| "parse_keys S [] m = None"
| "parse_keys S (key # keys) m =
     (case map_of m key of
        None \<Rightarrow> parse_keys S keys m
      | Some child \<Rightarrow>
          (case parse_entries_from_value S child of
             Some entries \<Rightarrow> Some entries
           | None \<Rightarrow> parse_keys S keys m))"
| "parse_children S [] = None"
| "parse_children S ((k, child) # m) =
     (case parse_entries_from_value S child of
        Some entries \<Rightarrow> Some entries
      | None \<Rightarrow> parse_children S m)"
  by pat_completeness auto

termination
  by (relation "measure (\<lambda>x. case x of
      Inl (S, v) \<Rightarrow> json_weight v
    | Inr (Inl (S, keys, m)) \<Rightarrow> map_weight m + length keys
    | Inr (Inr (S, m)) \<Rightarrow> map_weight m)")
    (auto simp: map_weight_def dest: weight_child)

definition parse_detectable_entries :: "serde_det \<Rightarrow> u8 list \<Rightarrow> fetch_error + detectable_entry list" where
  "parse_detectable_entries S body =
     (case sd_entries S body of
        Some entries \<Rightarrow> Inr entries
      | None \<Rightarrow>
          (case sd_wrapped S body of
             Some entries \<Rightarrow> Inr entries
           | None \<Rightarrow>
               (case Option.bind (sd_value S body) (parse_entries_from_value S) of
                  Some entries \<Rightarrow> Inr entries
                | None \<Rightarrow> Inl (UnexpectedShape body))))"

section \<open>The preview\<close>

text \<open>The inner loop over the characters of a token; \<open>out\<close> is the string so far as its characters.\<close>

fun push_chars :: "nat \<Rightarrow> str list \<Rightarrow> str list \<Rightarrow> nat \<Rightarrow> str list \<times> nat" where
  "push_chars max_chars [] out used = (out, used)"
| "push_chars max_chars (ch # chs) out used =
     (if max_chars \<le> used then (out, used)
      else push_chars max_chars chs (out @ [ch]) (used + 1))"

fun push_tokens :: "nat \<Rightarrow> str list \<Rightarrow> str list \<Rightarrow> nat \<Rightarrow> str list" where
  "push_tokens max_chars [] out used = out"
| "push_tokens max_chars (token # tokens) out used =
     (if out \<noteq> [] then
        (if max_chars \<le> used then out
         else
           (let (out, used) = push_chars max_chars (str_chars token) (out @ ['' '']) (used + 1)
            in push_tokens max_chars tokens out used))
      else
        (let (out, used) = push_chars max_chars (str_chars token) out used
         in push_tokens max_chars tokens out used))"

definition compact_whitespace_preview :: "str \<Rightarrow> nat \<Rightarrow> str" where
  "compact_whitespace_preview input max_chars =
     (if max_chars = 0 then []
      else concat (push_tokens max_chars (split_whitespace input) [] 0))"

section \<open>Fetching\<close>

record http_response =
  rs_status :: nat
  rs_etag :: "str option"
  rs_body :: "u8 list"

text \<open>The request is sent with the stored ETag, if any; \<open>send\<close> is the network.\<close>

definition fetch_detectable ::
  "serde_det \<Rightarrow> (str option \<Rightarrow> http_response option) \<Rightarrow> str option
   \<Rightarrow> fetch_error + (detectable_entry list \<times> str option) option" where
  "fetch_detectable S send etag =
     (case send etag of
        None \<Rightarrow> Inl SendFailed
      | Some resp \<Rightarrow>
          if rs_status resp = 304 then Inr None
          else if \<not> (200 \<le> rs_status resp \<and> rs_status resp < 300)
          then Inl (BadStatus (rs_status resp) (rs_body resp))
          else
            (case parse_detectable_entries S (rs_body resp) of
               Inl e \<Rightarrow> Inl e
             | Inr entries \<Rightarrow> Inr (Some (entries, rs_etag resp))))"

definition save_etag :: "bool \<Rightarrow> str \<Rightarrow> str option \<Rightarrow> str option" where
  "save_etag writable etag file = (if writable then Some etag else file)"

text \<open>\<open>load_detectable_entries\<close> on the ETag file: the entries, and the file afterwards.\<close>

definition load_detectable_entries ::
  "serde_det \<Rightarrow> (str option \<Rightarrow> http_response option) \<Rightarrow> bool \<Rightarrow> str option
   \<Rightarrow> detectable_entry list \<times> str option" where
  "load_detectable_entries S send writable etag_file =
     (case fetch_detectable S send etag_file of
        Inr None \<Rightarrow> ([], etag_file)
      | Inr (Some (entries, new_etag)) \<Rightarrow>
          (entries, case new_etag of Some tag \<Rightarrow> save_etag writable tag etag_file | None \<Rightarrow> etag_file)
      | Inl e \<Rightarrow> ([], etag_file))"

section \<open>Properties of the parser\<close>

text \<open>\<open>subvalue v w\<close>: \<open>w\<close> is \<open>v\<close> or reachable from it through object members only.\<close>

inductive subvalue :: "json \<Rightarrow> json \<Rightarrow> bool" where
  here: "subvalue v v"
| member: "(k, w) \<in> set m \<Longrightarrow> subvalue w x \<Longrightarrow> subvalue (JObject m) x"

inductive_cases subvalue_ObjectE: "subvalue (JObject m) x"

lemma parse_None_facts:
  "parse_entries_from_value S v = None \<Longrightarrow> subvalue v (JArray items) \<Longrightarrow> parse_entries_from_array S items = None"
  "parse_keys S keys m = None \<Longrightarrow> True"
  "parse_children S m = None \<Longrightarrow> (k, w) \<in> set m \<Longrightarrow> subvalue w (JArray items) \<Longrightarrow>
    parse_entries_from_array S items = None"
proof (induction S v and S keys m and S m arbitrary: and and k w
    rule: parse_entries_from_value_parse_keys_parse_children.induct)
  case (2 S m)
  from 2(4) obtain k w where "(k, w) \<in> set m" "subvalue w (JArray items)"
    by (auto elim: subvalue_ObjectE)
  with 2 show ?case by (auto split: option.splits)
next
  case (10 S k' child m)
  then show ?case by (auto split: option.splits)
qed (auto elim: subvalue.cases split: option.splits)

lemma parse_Some_facts:
  "parse_entries_from_value S v = Some entries \<Longrightarrow>
    \<exists>items. subvalue v (JArray items) \<and> parse_entries_from_array S items = Some entries"
  "parse_keys S keys m = Some entries \<Longrightarrow>
    \<exists>k w items. (k, w) \<in> set m \<and> subvalue w (JArray items) \<and> parse_entries_from_array S items = Some entries"
  "parse_children S m = Some entries \<Longrightarrow>
    \<exists>k w items. (k, w) \<in> set m \<and> subvalue w (JArray items) \<and> parse_entries_from_array S items = Some entries"
proof (induction S v and S keys m and S m
    rule: parse_entries_from_value_parse_keys_parse_children.induct)
  case (1 S items)
  then show ?case by (auto intro: subvalue.here)
next
  case (2 S m)
  then show ?case by (auto split: option.splits intro: subvalue.member)
next
  case (8 S key keys m)
  then show ?case by (auto split: option.splits dest: map_of_SomeD)
next
  case (10 S k child m)
  then show ?case by (auto split: option.splits)
qed simp_all


text \<open>
  Claim C36. The search through an unknown payload fails exactly when no array reachable through object
  members is acceptable, and what it returns is the parse of one such array.
\<close>

theorem parse_value_complete:
  "(parse_entries_from_value S v = None
      \<longleftrightarrow> (\<forall>items. subvalue v (JArray items) \<longrightarrow> parse_entries_from_array S items = None))
   \<and> (\<forall>entries. parse_entries_from_value S v = Some entries \<longrightarrow>
        (\<exists>items. subvalue v (JArray items) \<and> parse_entries_from_array S items = Some entries))"
proof (cases "parse_entries_from_value S v")
  case None
  then show ?thesis using parse_None_facts(1) by auto
next
  case (Some entries)
  then show ?thesis using parse_Some_facts(1) [OF Some] by auto
qed

definition sample_serde :: serde_det where
  "sample_serde =
     \<lparr>sd_entries = (\<lambda>_. None), sd_wrapped = (\<lambda>_. None), sd_value = (\<lambda>_. None),
      sd_entry = (\<lambda>v. case json_get v ''id'' of
        Some (JString i) \<Rightarrow> Some \<lparr>de_id = i, de_name = [], de_executables = []\<rparr> | _ \<Rightarrow> None)\<rparr>"

theorem parse_value_complete_witness:
  "\<exists>items. subvalue (JObject [(''payload'', JArray [JObject [(''id'', JString ''1'')]])]) (JArray items)
    \<and> parse_entries_from_array sample_serde items
      = Some [\<lparr>de_id = ''1'', de_name = [], de_executables = []\<rparr>]"
proof -
  have "parse_entries_from_value sample_serde
      (JObject [(''payload'', JArray [JObject [(''id'', JString ''1'')]])])
      = Some [\<lparr>de_id = ''1'', de_name = [], de_executables = []\<rparr>]"
    by (simp add: parse_entries_from_array_def sample_serde_def map_filter_simps)
  with parse_value_complete [of sample_serde
      "JObject [(''payload'', JArray [JObject [(''id'', JString ''1'')]])]"] show ?thesis by blast
qed

text \<open>
  An empty array anywhere before the games wins: a payload without the three known keys whose
  first member is an empty array parses as the empty list, whatever the other members hold.
\<close>

theorem empty_array_shadows:
  assumes "map_of ((k, JArray []) # m) ''applications'' = None"
    and "map_of ((k, JArray []) # m) ''data'' = None"
    and "map_of ((k, JArray []) # m) ''results'' = None"
  shows "parse_entries_from_value S (JObject ((k, JArray []) # m)) = Some []"
  using assms by (simp add: parse_entries_from_array_def map_filter_simps split: if_splits)

theorem empty_array_shadows_witness:
  "parse_entries_from_value sample_serde
     (JObject [(''errors'', JArray []), (''games'', JArray [JObject [(''id'', JString ''1'')]])]) = Some []"
  by (rule empty_array_shadows) simp_all

section \<open>The preview in closed form\<close>

lemma push_chars_eq:
  "length out \<le> max_chars \<Longrightarrow>
   push_chars max_chars chs out (length out)
   = (take max_chars (out @ chs), length (take max_chars (out @ chs)))"
proof (induction chs arbitrary: out)
  case (Cons ch chs)
  show ?case
  proof (cases "length out = max_chars")
    case False
    with Cons.IH [of "out @ [ch]"] Cons.prems show ?thesis by simp
  qed simp
qed simp

lemma push_tokens_full:
  "length out = max_chars \<Longrightarrow> out \<noteq> [] \<Longrightarrow> push_tokens max_chars tokens out max_chars = out"
  by (cases tokens) simp_all

lemma take_take_append: "take n (take n a @ b) = take n (a @ b)"
  by (cases "length a \<le> n") simp_all

lemma push_tokens_more:
  "length out \<le> max_chars \<Longrightarrow> out \<noteq> [] \<Longrightarrow>
   push_tokens max_chars tokens out (length out)
   = take max_chars (out @ concat (map (\<lambda>t. '' '' # str_chars t) tokens))"
proof (induction tokens arbitrary: out)
  case (Cons t tokens)
  show ?case
  proof (cases "length out = max_chars")
    case False
    let ?out = "take max_chars (out @ '' '' # str_chars t)"
    have l: "length out < max_chars" using False Cons.prems by simp
    have "push_tokens max_chars (t # tokens) out (length out) = push_tokens max_chars tokens ?out (length ?out)"
      using l Cons.prems push_chars_eq [of "out @ [[CHR 0x20]]" max_chars "str_chars t"] by (simp add: Let_def)
    also have "\<dots> = take max_chars (?out @ concat (map (\<lambda>t. '' '' # str_chars t) tokens))"
      using Cons.prems l by (intro Cons.IH) auto
    also have "\<dots> = take max_chars (out @ concat (map (\<lambda>t. '' '' # str_chars t) (t # tokens)))"
      using take_take_append [of max_chars "out @ '' '' # str_chars t"] by simp
    finally show ?thesis .
  qed (simp add: Cons.prems)
qed simp

lemma join_with_concat: "join_with [c] (x # xs) = x @ concat (map ((#) c) xs)"
  by (induction xs arbitrary: x) simp_all

lemma split_whitespace_chars:
  "\<forall>t \<in> set (split_whitespace s). str_chars t \<noteq> [] \<and> concat (str_chars t) = t"
proof
  fix t
  assume "t \<in> set (split_whitespace s)"
  then obtain p where p: "p \<in> set (split_on is_whitespace (str_chars s))" "p \<noteq> []" "t = concat p"
    by (auto simp: split_whitespace_def)
  have "x \<in> set xs" if "ys \<in> set (split_on q xs)" "x \<in> set ys" for x ys q and xs :: "str list"
    using that by (induction xs arbitrary: ys) (fastforce split: if_splits list.splits)+
  then have "\<forall>c \<in> set p. is_scalar c" using p(1) str_chars_scalar by blast
  then have "str_chars t = p" using p(3) by (simp add: str_chars_concat)
  with p show "str_chars t \<noteq> [] \<and> concat (str_chars t) = t" by simp
qed

text \<open>
  The preview is the first \<open>max_chars\<close> characters of the white-space separated tokens joined by
  single spaces; in particular it never has more than \<open>max_chars\<close> characters and never splits one.
\<close>

theorem preview_spec:
  "compact_whitespace_preview input max_chars
   = concat (take max_chars (join_with ['' ''] (map str_chars (split_whitespace input))))"
proof (cases "split_whitespace input")
  case (Cons t ts)
  let ?out = "take max_chars (str_chars t)"
  show ?thesis
  proof (cases "max_chars = 0")
    case False
    have ne: "?out \<noteq> []" using split_whitespace_chars [of input] Cons False by auto
    have "push_tokens max_chars (t # ts) [] 0 = push_tokens max_chars ts ?out (length ?out)"
      using push_chars_eq [of "[]" max_chars "str_chars t"] by (simp add: Let_def)
    also have "\<dots> = take max_chars (?out @ concat (map (\<lambda>t. '' '' # str_chars t) ts))"
      using ne by (intro push_tokens_more) auto
    also have "\<dots> = take max_chars (join_with ['' ''] (map str_chars (t # ts)))"
      by (simp add: take_take_append join_with_concat o_def del: take_append)
    finally show ?thesis using False Cons by (simp add: compact_whitespace_preview_def)
  qed (simp add: compact_whitespace_preview_def)
qed (simp add: compact_whitespace_preview_def)

end
