(* ===== verification/Scanner.thy ===== *)
theory Scanner
  imports Server_Steps Db_Match Payload
begin

text \<open>
  The process scanner, \<open>src/process/mod.rs\<close>: one scan over a process list (\<open>scan_once\<close>), the choice of
  the database at start-up and the weekly refresh (\<open>start_process_scanner\<close>).

  The process list is an argument (it comes from the sysinfo crate). The map \<open>active\<close> is an association
  list; the order in which the hash map yields its entries to \<open>retain\<close> is a parameter, constrained by the
  locale \<open>hash_order\<close>. \<open>clock k\<close> gives, for the \<open>k\<close>-th process of the scan, the reading of \<open>now_ms\<close> and
  the readings of the handler.
\<close>

record process_info =
  pi_pid :: u32
  pi_path :: str
  pi_args :: "str list"

type_synonym active_map = "(u32 \<times> str) list"
type_synonym matcher = "str \<Rightarrow> str list \<Rightarrow> (str \<times> str) option exec"
type_synonym readings = "i64 \<times> i64 \<times> i64"

locale hash_order =
  fixes order :: "active_map \<Rightarrow> active_map"
  assumes set_order: "set (order m) = set m"
    and distinct_order: "distinct_keys m \<Longrightarrow> distinct_keys (order m)"

section \<open>The messages\<close>

definition detect_args :: "json_lib \<Rightarrow> i64 \<Rightarrow> u32 \<Rightarrow> str \<Rightarrow> str \<Rightarrow> json" where
  "detect_args J now pid app_id app_name =
     json_obj J
       [(''pid'', json_u32 pid),
        (''activity'', json_obj J
           [(''application_id'', JString app_id), (''name'', JString app_name),
            (''timestamps'', json_obj J [(''start'', json_i64 now)])])]"

definition lost_args :: "json_lib \<Rightarrow> u32 \<Rightarrow> json" where
  "lost_args J pid = json_obj J [(''pid'', json_u32 pid), (''activity'', JNull)]"

definition set_activity_msg :: "json \<Rightarrow> rpc_message" where
  "set_activity_msg args = rpc_default\<lparr>msg_cmd := ''SET_ACTIVITY'', msg_args := Some args\<rparr>"

section \<open>One scan\<close>

fun detect_loop ::
  "matcher \<Rightarrow> json_lib \<Rightarrow> bool \<Rightarrow> (nat \<Rightarrow> readings) \<Rightarrow> nat \<Rightarrow> process_info list \<Rightarrow> active_map \<Rightarrow> u32 list
   \<Rightarrow> server_state \<Rightarrow> (active_map \<times> u32 list \<times> server_state) exec" where
  "detect_loop mp J ovf clock k [] active present st = Ret (active, present, st)"
| "detect_loop mp J ovf clock k (proc # procs) active present st =
     exec_bind (mp (pi_path proc) (pi_args proc)) (\<lambda>found.
       case found of
         None \<Rightarrow> detect_loop mp J ovf clock (k + 1) procs active present st
       | Some (app_id, app_name) \<Rightarrow>
           exec_bind
             (if map_of active (pi_pid proc) = Some app_id then Ret st
              else exec_map snd
                (handle_message J ovf (snd (clock k)) 0 app_id
                  (set_activity_msg (detect_args J (fst (clock k)) (pi_pid proc) app_id app_name)) st))
             (\<lambda>st1. detect_loop mp J ovf clock (k + 1) procs
                (AList.update (pi_pid proc) app_id active) (pi_pid proc # present) st1))"

fun lost_loop ::
  "json_lib \<Rightarrow> bool \<Rightarrow> i64 \<times> i64 \<Rightarrow> active_map \<Rightarrow> server_state \<Rightarrow> server_state exec" where
  "lost_loop J ovf clock [] st = Ret st"
| "lost_loop J ovf clock ((pid, game_id) # lost) st =
     exec_bind (handle_message J ovf clock 0 game_id (set_activity_msg (lost_args J pid)) st)
       (\<lambda>(r, st1). lost_loop J ovf clock lost st1)"

definition scan_with ::
  "matcher \<Rightarrow> json_lib \<Rightarrow> bool \<Rightarrow> (active_map \<Rightarrow> active_map) \<Rightarrow> (nat \<Rightarrow> readings) \<Rightarrow> active_map
   \<Rightarrow> process_info list \<Rightarrow> server_state \<Rightarrow> (active_map \<times> server_state) exec" where
  "scan_with mp J ovf order clock active procs st =
     exec_bind (detect_loop mp J ovf clock 0 procs active [] st) (\<lambda>(active1, present, st1).
       (let lost = filter (\<lambda>(pid, g). pid \<notin> set present) (order active1);
            active2 = filter (\<lambda>(pid, g). pid \<in> set present) active1
        in exec_map (\<lambda>st2. (active2, st2)) (lost_loop J ovf (snd (clock 0)) lost st1)))"

definition scan_once ::
  "db_lib \<Rightarrow> json_lib \<Rightarrow> bool \<Rightarrow> (active_map \<Rightarrow> active_map) \<Rightarrow> (nat \<Rightarrow> readings) \<Rightarrow> detectable_db
   \<Rightarrow> active_map \<Rightarrow> process_info list \<Rightarrow> server_state \<Rightarrow> (active_map \<times> server_state) exec" where
  "scan_once L J ovf order clock db active procs st =
     scan_with (db_match_process L db) J ovf order clock active procs st"

section \<open>The database of the scanner\<close>

text \<open>
  Start-up: open the cache when it holds something, otherwise fetch and rebuild; a failed rebuild ends
  the scanner (\<open>None\<close>). The file system is the disk and the ETag file.
\<close>

record scanner_io =
  sc_env :: io_env
  sc_send :: "str option \<Rightarrow> http_response option"
  sc_etag_writable :: bool

definition initial_db ::
  "db_lib \<Rightarrow> serde_det \<Rightarrow> scanner_io \<Rightarrow> disk \<Rightarrow> str option
   \<Rightarrow> detectable_db option \<times> disk \<times> str option" where
  "initial_db L S io dk etag =
     (let (opened, dk1) = open_with_fst L (sc_env io) dk
      in case (case opened of Inr d \<Rightarrow> if \<not> db_is_empty d then Some d else None | Inl _ \<Rightarrow> None) of
           Some d \<Rightarrow> (Some d, dk1, etag)
         | None \<Rightarrow>
             (let (entries, etag1) = load_detectable_entries S (sc_send io) (sc_etag_writable io) etag
              in case rebuild_with_fst L (sc_env io) entries dk1 of
                   (Inr d, dk2) \<Rightarrow> (Some d, dk2, etag1)
                 | (Inl _, dk2) \<Rightarrow> (None, dk2, etag1)))"

definition refresh_db ::
  "db_lib \<Rightarrow> serde_det \<Rightarrow> scanner_io \<Rightarrow> detectable_db \<Rightarrow> disk \<Rightarrow> str option
   \<Rightarrow> detectable_db \<times> disk \<times> str option" where
  "refresh_db L S io db dk etag =
     (let (entries, etag1) = load_detectable_entries S (sc_send io) (sc_etag_writable io) etag
      in if entries = [] then (db, dk, etag1)
         else
           (case rebuild_with_fst L (sc_env io) entries dk of
              (Inr new_db, dk1) \<Rightarrow> (new_db, dk1, etag1)
            | (Inl _, dk1) \<Rightarrow> (db, dk1, etag1)))"

text \<open>
  The loop: a tick sleeps five seconds, refreshes when more than a week (in whole seconds) has passed
  since the last refresh, and scans. \<open>now\<close> is the time of that check, \<open>refreshed\<close> the time when a refresh,
  if there is one, is over, which is what is recorded.
\<close>

record scanner_state =
  sn_db :: detectable_db
  sn_disk :: disk
  sn_etag :: "str option"
  sn_active :: active_map
  sn_last_refresh :: nat

definition week_secs :: nat where
  "week_secs = 7 * 24 * 3600"

definition scanner_tick ::
  "db_lib \<Rightarrow> serde_det \<Rightarrow> json_lib \<Rightarrow> bool \<Rightarrow> (active_map \<Rightarrow> active_map) \<Rightarrow> scanner_io \<Rightarrow> (nat \<Rightarrow> readings) \<Rightarrow> nat
   \<Rightarrow> nat \<Rightarrow> process_info list \<Rightarrow> scanner_state \<Rightarrow> server_state \<Rightarrow> (scanner_state \<times> server_state) exec" where
  "scanner_tick L S J ovf order io clock now refreshed procs sn st =
     (let sn1 =
        (if now - sn_last_refresh sn > week_secs
         then (let (db1, dk1, etag1) = refresh_db L S io (sn_db sn) (sn_disk sn) (sn_etag sn)
               in sn\<lparr>sn_db := db1, sn_disk := dk1, sn_etag := etag1, sn_last_refresh := refreshed\<rparr>)
         else sn)
      in exec_map (\<lambda>(active1, st1). (sn1\<lparr>sn_active := active1\<rparr>, st1))
           (scan_once L J ovf order clock (sn_db sn1) (sn_active sn1) procs st))"

end
