(* ===== verification/Bridge.thy ===== *)
theory Bridge
  imports Server_Steps
begin

text \<open>
  The bridge, \<open>src/bridge.rs\<close>: the feed task that turns activity events into JSON, keeps the last message
  of each socket and broadcasts, and the client task that sends a catch-up snapshot and then the
  broadcast.

  A tokio broadcast channel is the log of what was sent; a receiver is the position of its next message.
  It can read the last \<open>capacity\<close> messages; a receiver further behind is told that it lagged and continues
  with the oldest message still there.
\<close>

section \<open>Broadcast receivers\<close>

datatype 'a recv_result = Received 'a nat | Lagged nat nat | Pending

definition recv :: "nat \<Rightarrow> 'a list \<Rightarrow> nat \<Rightarrow> 'a recv_result" where
  "recv capacity log pos =
     (if length log \<le> pos then Pending
      else if capacity < length log - pos
      then Lagged (length log - capacity - pos) (length log - capacity)
      else Received (log ! pos) (pos + 1))"

section \<open>The feed task\<close>

definition ACTIVITY_CAPACITY :: nat where
  "ACTIVITY_CAPACITY = 64"

definition BRIDGE_CAPACITY :: nat where
  "BRIDGE_CAPACITY = 256"

record bridge_state =
  last_msgs :: "u64 \<rightharpoonup> str"
  br_tx :: "str list"

definition bridge_new :: bridge_state where
  "bridge_new = \<lparr>last_msgs = Map.empty, br_tx = []\<rparr>"

definition bridge_msg :: "json_lib \<Rightarrow> activity_event \<Rightarrow> json" where
  "bridge_msg J event =
     json_obj J
       [(''activity'', case ev_activity event of None \<Rightarrow> JNull | Some a \<Rightarrow> a),
        (''pid'', case ev_pid event of None \<Rightarrow> JNull | Some p \<Rightarrow> json_u32 p),
        (''socketId'', JString (dec_nat (unat (ev_socket_id event))))]"

definition feed_event :: "json_lib \<Rightarrow> activity_event \<Rightarrow> bridge_state \<Rightarrow> bridge_state" where
  "feed_event J event st =
     (case jl_to_string J (bridge_msg J event) of
        None \<Rightarrow> st
      | Some js \<Rightarrow>
          (let key = ev_socket_id event;
               st1 = (case ev_activity event of
                        None \<Rightarrow> st\<lparr>last_msgs := (last_msgs st)(key := None)\<rparr>
                      | Some _ \<Rightarrow> st\<lparr>last_msgs := (last_msgs st)(key \<mapsto> js)\<rparr>)
           in st1\<lparr>br_tx := br_tx st1 @ [js]\<rparr>))"

text \<open>One turn of the feed loop on the activity log.\<close>

definition feed_step ::
  "json_lib \<Rightarrow> activity_event list \<Rightarrow> bridge_state \<times> nat \<Rightarrow> bridge_state \<times> nat" where
  "feed_step J log s =
     (case recv ACTIVITY_CAPACITY log (snd s) of
        Received event pos \<Rightarrow> (feed_event J event (fst s), pos)
      | Lagged n pos \<Rightarrow> (fst s, pos)
      | Pending \<Rightarrow> s)"

section \<open>The client task\<close>

text \<open>
  \<open>cl_pos\<close> is the broadcast receiver, \<open>cl_queue\<close> what of the snapshot is still to be sent, \<open>cl_sent\<close> what
  the peer has been sent. A send that fails ends the task.
\<close>

record client =
  cl_pos :: nat
  cl_queue :: "str list"
  cl_sent :: "str list"
  cl_open :: bool

definition subscribe :: "bridge_state \<Rightarrow> client" where
  "subscribe st = \<lparr>cl_pos = length (br_tx st), cl_queue = [], cl_sent = [], cl_open = True\<rparr>"

text \<open>The values of \<open>last_msgs\<close> in the iteration order of the map, given by the order of its keys.\<close>

definition take_snapshot :: "u64 list \<Rightarrow> bridge_state \<Rightarrow> client \<Rightarrow> client" where
  "take_snapshot keys st c = c\<lparr>cl_queue := List.map_filter (last_msgs st) keys\<rparr>"

definition client_send :: "bool \<Rightarrow> str \<Rightarrow> client \<Rightarrow> client" where
  "client_send ok payload c =
     (if ok then c\<lparr>cl_sent := cl_sent c @ [payload]\<rparr> else c\<lparr>cl_open := False\<rparr>)"

definition client_step :: "bool \<Rightarrow> bridge_state \<Rightarrow> client \<Rightarrow> client" where
  "client_step ok st c =
     (if \<not> cl_open c then c
      else
        (case cl_queue c of
           payload # rest \<Rightarrow> client_send ok payload (c\<lparr>cl_queue := rest\<rparr>)
         | [] \<Rightarrow>
             (case recv BRIDGE_CAPACITY (br_tx st) (cl_pos c) of
                Received payload pos \<Rightarrow> client_send ok payload (c\<lparr>cl_pos := pos\<rparr>)
              | Lagged n pos \<Rightarrow> c\<lparr>cl_pos := pos\<rparr>
              | Pending \<Rightarrow> c)))"

text \<open>A frame from the client: only a close frame, the end of the stream or an error matter.\<close>

datatype incoming = InClose | InOther | InError | InEnd

definition client_incoming :: "incoming \<Rightarrow> client \<Rightarrow> client" where
  "client_incoming m c =
     (case m of InOther \<Rightarrow> c | InClose \<Rightarrow> c\<lparr>cl_open := False\<rparr> | InEnd \<Rightarrow> c\<lparr>cl_open := False\<rparr>
      | InError \<Rightarrow> c\<lparr>cl_open := False\<rparr>)"

section \<open>Last-writer-wins maps\<close>

locale last_write =
  fixes key :: "'e \<Rightarrow> 'k" and update :: "'e \<Rightarrow> ('k \<rightharpoonup> 'v) \<Rightarrow> ('k \<rightharpoonup> 'v)"
  assumes other: "k \<noteq> key e \<Longrightarrow> update e m k = m k"
    and own: "update e m (key e) = update e m' (key e)"
begin

lemma fold_other: "k \<notin> key ` set es \<Longrightarrow> fold update es m k = m k"
  by (induction es arbitrary: m) (auto simp: other)

lemma fold_own: "k \<in> key ` set es \<Longrightarrow> fold update es m k = fold update es m' k"
proof (induction es arbitrary: m m')
  case (Cons e es)
  show ?case
  proof (cases "k \<in> key ` set es")
    case True
    then show ?thesis using Cons.IH by simp
  next
    case False
    with Cons.prems have "k = key e" by simp
    with False show ?thesis using own by (simp add: fold_other)
  qed
qed simp

text \<open>Replaying again events that the map has already seen changes nothing.\<close>

lemma replay_overlap: "fold update (ys @ zs) (fold update (xs @ ys) m) = fold update (xs @ ys @ zs) m"
proof
  fix k
  show "fold update (ys @ zs) (fold update (xs @ ys) m) k = fold update (xs @ ys @ zs) m k"
  proof (cases "k \<in> key ` set (ys @ zs)")
    case True
    from fold_own [OF True] show ?thesis by simp
  next
    case False
    then have "k \<notin> key ` set ys" "k \<notin> key ` set zs" by auto
    then show ?thesis by (simp add: fold_other)
  qed
qed

lemma fold_last: "es \<noteq> [] \<Longrightarrow> key ` set es = {k} \<Longrightarrow> fold update es m k = update (last es) m k"
proof (induction es rule: rev_induct)
  case (snoc e es)
  then have "key e = k" by auto
  then show ?case using own by auto
qed simp

end

text \<open>What one event does to \<open>last_msgs\<close> when the serialiser does not fail.\<close>

definition total_lib :: "json_lib \<Rightarrow> bool" where
  "total_lib J \<longleftrightarrow> (\<forall>v. jl_to_string J v \<noteq> None)"

definition payload :: "json_lib \<Rightarrow> activity_event \<Rightarrow> str" where
  "payload J event = the (jl_to_string J (bridge_msg J event))"

definition upd_last :: "json_lib \<Rightarrow> activity_event \<Rightarrow> (u64 \<rightharpoonup> str) \<Rightarrow> (u64 \<rightharpoonup> str)" where
  "upd_last J event m = m(ev_socket_id event := map_option (\<lambda>_. payload J event) (ev_activity event))"

interpretation feed_map: last_write ev_socket_id "upd_last J" for J
  by unfold_locales (simp_all add: upd_last_def)

lemma total_ordered [simp]: "total_lib ordered_lib"
  by (simp add: total_lib_def ordered_lib_def)

definition feed_all :: "json_lib \<Rightarrow> activity_event list \<Rightarrow> bridge_state \<Rightarrow> bridge_state" where
  "feed_all J evs st =
     \<lparr>last_msgs = fold (upd_last J) evs (last_msgs st), br_tx = br_tx st @ map (payload J) evs\<rparr>"

lemma feed_event_total:
  assumes "total_lib J"
  shows "feed_event J ev st = feed_all J [ev] st"
proof -
  obtain js where "jl_to_string J (bridge_msg J ev) = Some js"
    using assms by (metis option.exhaust total_lib_def)
  then show ?thesis
    by (cases st; cases "ev_activity ev")
      (simp_all add: feed_event_def feed_all_def upd_last_def payload_def Let_def)
qed

lemma feed_all_Nil [simp]: "feed_all J [] st = st"
  by (cases st) (simp add: feed_all_def)

lemma feed_all_append: "feed_all J ys (feed_all J xs st) = feed_all J (xs @ ys) st"
  by (simp add: feed_all_def)

lemma fold_feed_event: "total_lib J \<Longrightarrow> fold (feed_event J) evs st = feed_all J evs st"
  by (induction evs arbitrary: st) (simp_all add: feed_event_total feed_all_append)

section \<open>The feed loop catches up\<close>

lemma feed_step_near:
  assumes "total_lib J" and "pos < length log" and "length log - pos \<le> ACTIVITY_CAPACITY"
  shows "feed_step J log (st, pos) = (feed_all J [log ! pos] st, pos + 1)"
  using assms by (simp add: feed_step_def recv_def feed_event_total)

lemma feed_steps_near:
  assumes "total_lib J" and "length log - pos \<le> ACTIVITY_CAPACITY" and "pos \<le> length log"
  shows "(feed_step J log ^^ (length log - pos)) (st, pos) = (feed_all J (drop pos log) st, length log)"
  using assms
proof (induction "length log - pos" arbitrary: pos st)
  case (Suc n)
  then have p: "pos < length log" and n: "n = length log - (pos + 1)" by simp_all
  have "(feed_step J log ^^ (length log - pos)) (st, pos)
      = (feed_step J log ^^ n) (feed_step J log (st, pos))"
    using Suc(2) by (metis comp_apply funpow_Suc_right)
  also have "\<dots> = (feed_all J (drop (pos + 1) log) (feed_all J [log ! pos] st), length log)"
    using Suc(1) [OF n Suc.prems(1)] Suc.prems p by (simp add: feed_step_near [OF Suc.prems(1)] n)
  also have "feed_all J (drop (pos + 1) log) (feed_all J [log ! pos] st) = feed_all J (drop pos log) st"
    using p by (simp add: feed_all_append Cons_nth_drop_Suc)
  finally show ?case .
qed simp

text \<open>
  The feed loop catches up: from any position it processes, in order, every event that has not
  been overwritten, which is all of them when at most 64 are pending and the last 64 otherwise; it then
  stands at the end of the log.
\<close>

theorem feed_catches_up:
  assumes "total_lib J" and "pos \<le> length log"
  shows "\<exists>n. (feed_step J log ^^ n) (st, pos)
    = (feed_all J (drop (max pos (length log - ACTIVITY_CAPACITY)) log) st, length log)"
proof (cases "length log - pos \<le> ACTIVITY_CAPACITY")
  case True
  then have "max pos (length log - ACTIVITY_CAPACITY) = pos" by simp
  with feed_steps_near [OF assms(1) True assms(2)] show ?thesis by metis
next
  case False
  let ?p = "length log - ACTIVITY_CAPACITY"
  have m: "max pos ?p = ?p" using False by simp
  have "pos < length log" using False by simp
  then have "feed_step J log (st, pos) = (st, ?p)" using False by (simp add: feed_step_def recv_def)
  moreover have "(feed_step J log ^^ (length log - ?p)) (st, ?p) = (feed_all J (drop ?p log) st, length log)"
    using assms(1) by (intro feed_steps_near) simp_all
  ultimately have "(feed_step J log ^^ Suc (length log - ?p)) (st, pos)
      = (feed_all J (drop ?p log) st, length log)"
    by (simp only: funpow_Suc_right comp_apply)
  then show ?thesis unfolding m by metis
qed

definition sample_event :: "u64 \<Rightarrow> json option \<Rightarrow> activity_event" where
  "sample_event i a = \<lparr>ev_activity = a, ev_pid = None, ev_socket_id = i\<rparr>"

theorem feed_catches_up_witness:
  "\<exists>n. (feed_step ordered_lib [sample_event 1 (Some (JObject [])), sample_event 1 None] ^^ n) (bridge_new, 0)
    = (feed_all ordered_lib [sample_event 1 (Some (JObject [])), sample_event 1 None] bridge_new, 2)"
  using feed_catches_up [of ordered_lib 0 "[sample_event 1 (Some (JObject [])), sample_event 1 None]" bridge_new]
  by (simp add: ACTIVITY_CAPACITY_def numeral_2_eq_2)

text \<open>
  Claim C30. A feed task that lags can keep a ghost: when the backlog exceeds 64 events and the last events
  of a socket, its clearing included, are among those skipped, the socket's old activity stays in
  \<open>last_msgs\<close> and is sent to every client that connects later.
\<close>

theorem feed_lag_ghost:
  assumes "total_lib J" and "pos + ACTIVITY_CAPACITY < length log"
    and "i \<notin> ev_socket_id ` set (drop (length log - ACTIVITY_CAPACITY) log)"
  shows "\<exists>n st'. (feed_step J log ^^ n) (st, pos) = (st', length log)
    \<and> last_msgs st' i = last_msgs st i"
proof -
  let ?p = "length log - ACTIVITY_CAPACITY"
  have m: "max pos ?p = ?p" using assms(2) by simp
  have "feed_step J log (st, pos) = (st, ?p)" using assms(2) by (simp add: feed_step_def recv_def)
  moreover have "(feed_step J log ^^ (length log - ?p)) (st, ?p) = (feed_all J (drop ?p log) st, length log)"
    using assms(1) by (intro feed_steps_near) simp_all
  ultimately have "(feed_step J log ^^ Suc (length log - ?p)) (st, pos)
      = (feed_all J (drop ?p log) st, length log)"
    by (simp only: funpow_Suc_right comp_apply)
  moreover have "last_msgs (feed_all J (drop ?p log) st) i = last_msgs st i"
    by (simp add: feed_all_def feed_map.fold_other [OF assms(3)])
  ultimately show ?thesis by metis
qed

theorem feed_lag_ghost_witness:
  "\<exists>n st'. (feed_step ordered_lib (sample_event 1 None # replicate 64 (sample_event 2 None)) ^^ n)
      (bridge_new\<lparr>last_msgs := [1 \<mapsto> ''old'']\<rparr>, 0) = (st', 65) \<and> last_msgs st' 1 = Some ''old''"
  using feed_lag_ghost [of ordered_lib 0 "sample_event 1 None # replicate 64 (sample_event 2 None)" 1
      "bridge_new\<lparr>last_msgs := [1 \<mapsto> ''old'']\<rparr>"]
  by (simp add: ACTIVITY_CAPACITY_def sample_event_def bridge_new_def)

section \<open>Clients\<close>

lemma client_drain_snapshot:
  "cl_open c \<Longrightarrow> cl_queue c = q \<Longrightarrow>
   (client_step True st ^^ length q) c = c\<lparr>cl_queue := [], cl_sent := cl_sent c @ q\<rparr>"
proof (induction q arbitrary: c)
  case Nil
  then show ?case by simp
next
  case (Cons x q)
  let ?c = "c\<lparr>cl_queue := q, cl_sent := cl_sent c @ [x]\<rparr>"
  have "client_step True st c = ?c" using Cons.prems by (simp add: client_step_def client_send_def)
  then have "(client_step True st ^^ length (x # q)) c = (client_step True st ^^ length q) ?c"
    by (simp add: funpow_Suc_right del: funpow.simps)
  also have "\<dots> = c\<lparr>cl_queue := [], cl_sent := cl_sent c @ x # q\<rparr>"
    using Cons.IH [of ?c] Cons.prems by simp
  finally show ?case .
qed

lemma client_drain_broadcast:
  assumes "length (br_tx st) - cl_pos c \<le> BRIDGE_CAPACITY" and "cl_pos c \<le> length (br_tx st)"
    and "cl_open c" and "cl_queue c = []"
  shows "(client_step True st ^^ (length (br_tx st) - cl_pos c)) c
    = c\<lparr>cl_pos := length (br_tx st), cl_sent := cl_sent c @ drop (cl_pos c) (br_tx st)\<rparr>"
  using assms
proof (induction "length (br_tx st) - cl_pos c" arbitrary: c)
  case (Suc n)
  then have p: "cl_pos c < length (br_tx st)" by simp
  let ?c = "c\<lparr>cl_pos := cl_pos c + 1, cl_sent := cl_sent c @ [br_tx st ! cl_pos c]\<rparr>"
  have n: "n = length (br_tx st) - cl_pos ?c" using Suc(2) p by simp
  have "client_step True st c = ?c"
    using Suc.prems p by (simp add: client_step_def recv_def client_send_def)
  then have "(client_step True st ^^ (length (br_tx st) - cl_pos c)) c = (client_step True st ^^ n) ?c"
    using Suc(2) by (metis comp_apply funpow_Suc_right)
  also have "\<dots> = c\<lparr>cl_pos := length (br_tx st), cl_sent := cl_sent c @ drop (cl_pos c) (br_tx st)\<rparr>"
    using Suc(1) [OF n] Suc.prems p n by (simp add: Cons_nth_drop_Suc)
  finally show ?case .
qed simp

text \<open>
  Catch-up is complete. A client subscribes, takes its snapshot after \<open>ys\<close> more events and reads
  after \<open>zs\<close> more, at most 256 in all: it is sent the snapshot and then the message of every event since
  it subscribed, in order, and applying those messages to the snapshot gives the current last messages,
  although the events \<open>ys\<close> are in the snapshot already.
\<close>

theorem client_converges:
  assumes "total_lib J" and "st2 = fold (feed_event J) ys st1" and "st3 = fold (feed_event J) zs st2"
    and "length (ys @ zs) \<le> BRIDGE_CAPACITY"
  shows "\<exists>n. let c = (client_step True st3 ^^ n) (take_snapshot keys st2 (subscribe st1))
    in cl_sent c = List.map_filter (last_msgs st2) keys @ map (payload J) (ys @ zs)
      \<and> cl_pos c = length (br_tx st3) \<and> cl_open c
      \<and> fold (upd_last J) (ys @ zs) (last_msgs st2) = last_msgs st3"
proof -
  note st = assms(2,3) [unfolded fold_feed_event [OF assms(1)]]
  let ?q = "List.map_filter (last_msgs st2) keys" and ?c0 = "take_snapshot keys st2 (subscribe st1)"
  let ?c1 = "?c0\<lparr>cl_queue := [], cl_sent := ?q\<rparr>"
  have t: "br_tx st3 = br_tx st1 @ map (payload J) (ys @ zs)" by (simp add: st feed_all_def)
  have "(client_step True st3 ^^ length ?q) ?c0 = ?c1"
    using client_drain_snapshot [of ?c0 ?q st3] by (simp add: take_snapshot_def subscribe_def)
  moreover have "(client_step True st3 ^^ (length (br_tx st3) - cl_pos ?c1)) ?c1
      = ?c1\<lparr>cl_pos := length (br_tx st3), cl_sent := cl_sent ?c1 @ drop (cl_pos ?c1) (br_tx st3)\<rparr>"
    by (rule client_drain_broadcast) (use assms(4) in \<open>simp_all add: t take_snapshot_def subscribe_def\<close>)
  ultimately have "(client_step True st3 ^^ (length (br_tx st3) - cl_pos ?c1 + length ?q)) ?c0
      = ?c1\<lparr>cl_pos := length (br_tx st3), cl_sent := cl_sent ?c1 @ drop (cl_pos ?c1) (br_tx st3)\<rparr>"
    by (simp only: funpow_add comp_apply)
  moreover have "fold (upd_last J) (ys @ zs) (last_msgs st2) = last_msgs st3"
    using feed_map.replay_overlap [of J ys zs "[]" "last_msgs st1"]
    by (simp add: st feed_all_def)
  ultimately show ?thesis
    by (intro exI [of _ "length (br_tx st3) - cl_pos ?c1 + length ?q"])
      (simp add: Let_def t take_snapshot_def subscribe_def)
qed

theorem client_converges_witness:
  "\<exists>n. let st2 = fold (feed_event ordered_lib) [sample_event 1 (Some JNull)] bridge_new;
        st3 = fold (feed_event ordered_lib) [sample_event 2 (Some JNull)] st2;
        c = (client_step True st3 ^^ n) (take_snapshot [1] st2 (subscribe bridge_new))
    in length (cl_sent c) = 3"
  using client_converges [OF total_ordered refl refl, of "[sample_event 1 (Some JNull)]"
      "[sample_event 2 (Some JNull)]" bridge_new "[1]"]
  by (auto simp: BRIDGE_CAPACITY_def Let_def feed_event_total feed_all_def upd_last_def sample_event_def
      map_filter_simps elim!: ex_forward)

end
