(* ===== verification/System.thy ===== *)
theory System
  imports Session_Owned Scanner Bridge
begin

text \<open>
  The running program: the server with any number of IPC and WebSocket sessions, the messages of the
  process scanner and the feed task of the bridge, in any interleaving.

  A connection has a number, which is also the number of its response channel. The scanner contributes its
  detections and losses one at a time, in any order. With \<open>lag = False\<close> the feed is never overtaken by 64
  unread events.
\<close>

record system =
  sy_server :: server_state
  sy_conns :: "nat \<rightharpoonup> conn"
  sy_bridge :: bridge_state
  sy_pos :: nat

definition system_new :: system where
  "system_new = \<lparr>sy_server = server_new, sy_conns = Map.empty, sy_bridge = bridge_new, sy_pos = 0\<rparr>"

definition accepted :: "nat \<Rightarrow> conn option \<times> server_state \<Rightarrow> system \<Rightarrow> system" where
  "accepted k r s =
     s\<lparr>sy_server := snd r, sy_conns := (case fst r of None \<Rightarrow> sy_conns s | Some c \<Rightarrow> (sy_conns s)(k \<mapsto> c))\<rparr>"

inductive system_step ::
  "wire_lib \<Rightarrow> json_lib \<Rightarrow> bool \<Rightarrow> bool \<Rightarrow> system \<Rightarrow> system \<Rightarrow> bool" for W J ovf lag where
  accept_ipc: "channels (sy_server s) k = None \<Longrightarrow>
    ipc_handshake W frame socket write_ok k (sy_server s) = (r, st) \<Longrightarrow>
    system_step W J ovf lag s (accepted k (map_option IpcConn r, st) s)"
| accept_ws: "channels (sy_server s) k = None \<Longrightarrow>
    ws_begin client_id write_ok k (sy_server s) = (r, st) \<Longrightarrow>
    system_step W J ovf lag s (accepted k (map_option WsConn r, st) s)"
| session: "sy_conns s k = Some c \<Longrightarrow> conn_step W J ovf i (c, sy_server s) = Ret (c', st) \<Longrightarrow>
    system_step W J ovf lag s (s\<lparr>sy_server := st, sy_conns := (sy_conns s)(k \<mapsto> c')\<rparr>)"
| scanner: "args = detect_args J now pid game app_name \<or> args = lost_args J pid \<Longrightarrow>
    handle_message J ovf clock 0 game (set_activity_msg args) (sy_server s) = Ret (r, st) \<Longrightarrow>
    system_step W J ovf lag s (s\<lparr>sy_server := st\<rparr>)"
| feed: "lag \<or> length (activity_tx (sy_server s)) - sy_pos s \<le> ACTIVITY_CAPACITY \<Longrightarrow>
    feed_step J (activity_tx (sy_server s)) (sy_bridge s, sy_pos s) = (br, pos) \<Longrightarrow>
    system_step W J ovf lag s (s\<lparr>sy_bridge := br, sy_pos := pos\<rparr>)"

inductive_cases system_stepE [consumes 1]: "system_step W J ovf lag s s'"

section \<open>What a step does to the server\<close>

text \<open>\<open>opened_as st k st' c\<close>: a new registered connection; \<open>refused\<close>: at most an id is spent.\<close>

definition opened_as :: "server_state \<Rightarrow> nat \<Rightarrow> server_state \<Rightarrow> conn \<Rightarrow> bool" where
  "opened_as st k st' c \<longleftrightarrow>
     conn_open c \<and> conn_rx c = k \<and> conn_id c = next_socket_id st
     \<and> st' = register_socket (next_socket_id st) k (open_channel k (snd (next_id st)))"

lemma ipc_handshake_cases:
  assumes "ipc_handshake W frame socket write_ok k st = (r, st')"
  shows "case r of None \<Rightarrow> st' = st \<or> st' = snd (next_id st) | Some c \<Rightarrow> opened_as st k st' (IpcConn c)"
  using assms
  by (auto simp: ipc_handshake_def opened_as_def next_id_def Let_def split: option.splits if_splits)

lemma ws_begin_cases:
  assumes "ws_begin client_id write_ok k st = (r, st')"
  shows "case r of None \<Rightarrow> st' = st \<or> st' = snd (next_id st) | Some c \<Rightarrow> opened_as st k st' (WsConn c)"
  using assms by (auto simp: ws_begin_def opened_as_def next_id_def split: if_splits)

text \<open>The five rules as four kinds of step, with the two transports merged.\<close>

lemma system_step_kinds:
  assumes "system_step W J ovf lag s s'"
  obtains (refuse) "sy_server s' = sy_server s \<or> sy_server s' = snd (next_id (sy_server s))"
      "sy_conns s' = sy_conns s" "sy_bridge s' = sy_bridge s" "sy_pos s' = sy_pos s"
  | (open_conn) k c where "channels (sy_server s) k = None" "opened_as (sy_server s) k (sy_server s') c"
      "sy_conns s' = (sy_conns s)(k \<mapsto> c)" "sy_bridge s' = sy_bridge s" "sy_pos s' = sy_pos s"
  | (session) k c i c' where "sy_conns s k = Some c" "conn_step W J ovf i (c, sy_server s) = Ret (c', sy_server s')"
      "sy_conns s' = (sy_conns s)(k \<mapsto> c')" "sy_bridge s' = sy_bridge s" "sy_pos s' = sy_pos s"
  | (scanner) clock game args r
      where "handle_message J ovf clock 0 game (set_activity_msg args) (sy_server s) = Ret (r, sy_server s')"
      "sy_conns s' = sy_conns s" "sy_bridge s' = sy_bridge s" "sy_pos s' = sy_pos s"
  | (feed) "lag \<or> length (activity_tx (sy_server s)) - sy_pos s \<le> ACTIVITY_CAPACITY"
      "feed_step J (activity_tx (sy_server s)) (sy_bridge s, sy_pos s) = (sy_bridge s', sy_pos s')"
      "sy_server s' = sy_server s" "sy_conns s' = sy_conns s"
  using assms
proof cases
  case (accept_ipc k frame socket write_ok r st)
  with ipc_handshake_cases [OF accept_ipc(3)] refuse open_conn show ?thesis
    by (cases r) (auto simp: accepted_def)
next
  case (accept_ws k client_id write_ok r st)
  with ws_begin_cases [OF accept_ws(3)] refuse open_conn show ?thesis
    by (cases r) (auto simp: accepted_def)
qed (use session scanner feed in auto)

text \<open>A step of the program only extends the log and moves the feed forward.\<close>

lemma system_step_log:
  assumes "system_step W J ovf lag s s'"
  obtains evs where "activity_tx (sy_server s') = activity_tx (sy_server s) @ evs" "sy_pos s \<le> sy_pos s'"
  using assms
proof (cases rule: system_step_kinds)
  case refuse
  then show ?thesis using that [of "[]"] by (auto simp: next_id_def)
next
  case (open_conn k c)
  then show ?thesis
    using that [of "[]"] by (simp add: opened_as_def register_socket_def open_channel_def next_id_def)
next
  case (session k c i c')
  show ?thesis
  proof (cases "conn_open c")
    case True
    with conns.step_footprint [OF session(2) True] session(5) that show ?thesis
      by (auto simp: footprint_def own_events_def)
  next
    case False
    with conns.step_closed [OF False] session(2,5) that [of "[]"] show ?thesis by simp
  qed
next
  case (scanner clock game args r)
  then show ?thesis using handle_message_owned [OF scanner(1)] that by auto
next
  case feed
  then have "sy_pos s \<le> sy_pos s'"
    by (auto simp: feed_step_def recv_def split: if_splits)
  with feed(3) that [of "[]"] show ?thesis by simp
qed

section \<open>The registry holds exactly the open sessions\<close>

text \<open>After \<open>n\<close> steps; the socket ids in use lie strictly between 0 and the next id.\<close>

definition system_inv :: "nat \<Rightarrow> system \<Rightarrow> bool" where
  "system_inv n s \<longleftrightarrow>
     server_inv (sy_server s)
     \<and> (\<forall>k c. sy_conns s k = Some c \<longrightarrow> conn_rx c = k \<and> k \<in> dom (channels (sy_server s))
          \<and> 0 < conn_id c \<and> conn_id c < next_socket_id (sy_server s)
          \<and> (conn_open c \<longrightarrow> sockets (sy_server s) (conn_id c) = Some k))
     \<and> (\<forall>i k. sockets (sy_server s) i = Some k \<longrightarrow> (\<exists>c. sy_conns s k = Some c \<and> conn_open c \<and> conn_id c = i))
     \<and> 0 < next_socket_id (sy_server s) \<and> unat (next_socket_id (sy_server s)) \<le> n + 1"

lemma system_inv_new: "system_inv 0 system_new"
  by (simp add: system_inv_def system_new_def server_inv_new) (simp add: server_new_def)

lemma system_inv_conn:
  assumes "system_inv n s" and "sy_conns s k = Some c"
  shows "conn_rx c = k" "k \<in> dom (channels (sy_server s))" "0 < conn_id c"
    "conn_id c < next_socket_id (sy_server s)"
    "conn_open c \<Longrightarrow> sockets (sy_server s) (conn_id c) = Some k"
  using assms by (simp_all add: system_inv_def)

lemma system_inv_socket:
  assumes "system_inv n s" and "sockets (sy_server s) i = Some k"
  obtains c where "sy_conns s k = Some c" "conn_open c" "conn_id c = i"
  using assms unfolding system_inv_def by blast

lemma system_inv_next:
  assumes "system_inv n s" and "n < 2 ^ 64 - 2"
  shows "next_socket_id (sy_server s) < next_socket_id (sy_server s) + 1"
    "unat (next_socket_id (sy_server s) + 1) = unat (next_socket_id (sy_server s)) + 1"
proof -
  let ?x = "next_socket_id (sy_server s)"
  have b: "unat ?x + 1 < 2 ^ 64" using assms by (simp add: system_inv_def)
  then show u: "unat (?x + 1) = unat ?x + 1" by (simp add: unat_word_ariths)
  then show "?x < ?x + 1" by (simp add: word_less_nat_alt)
qed

lemma system_inv_mono: "system_inv n s \<Longrightarrow> n \<le> m \<Longrightarrow> system_inv m s"
  by (auto simp: system_inv_def)

lemma system_inv_same:
  "system_inv n s \<Longrightarrow> sy_server s' = sy_server s \<Longrightarrow> sy_conns s' = sy_conns s \<Longrightarrow> system_inv n s'"
  by (simp add: system_inv_def)

lemma system_inv_refuse:
  assumes i: "system_inv n s" and "n < 2 ^ 64 - 2"
    and "sy_server s' = snd (next_id (sy_server s))" and "sy_conns s' = sy_conns s"
  shows "system_inv (Suc n) s'"
proof -
  note nx = system_inv_next [OF assms(1,2)]
  have "sockets (sy_server s') = sockets (sy_server s)" "channels (sy_server s') = channels (sy_server s)"
    "next_socket_id (sy_server s') = next_socket_id (sy_server s) + 1"
    by (simp_all add: assms(3) next_id_def)
  with i nx assms(4) show ?thesis
    by (auto simp: system_inv_def server_inv_def word_less_nat_alt intro: less_trans)
qed

lemma system_inv_open:
  assumes i: "system_inv n s" and n: "n < 2 ^ 64 - 2" and k: "channels (sy_server s) k = None"
    and o: "opened_as (sy_server s) k (sy_server s') c" and c: "sy_conns s' = (sy_conns s)(k \<mapsto> c)"
  shows "system_inv (Suc n) s'"
proof -
  let ?st = "sy_server s"
  note nx = system_inv_next [OF i n]
  have st: "sockets (sy_server s') = (sockets ?st)(next_socket_id ?st \<mapsto> k)"
    "channels (sy_server s') = (channels ?st)(k \<mapsto> \<lparr>ch_queue = [], ch_closed = False\<rparr>)"
    "next_socket_id (sy_server s') = next_socket_id ?st + 1"
    using o by (simp_all add: opened_as_def register_socket_def open_channel_def next_id_def)
  have free: "sy_conns s k = None"
    using i k by (metis domIff option.exhaust system_inv_conn(2))
  have old: "conn_id d \<noteq> next_socket_id ?st" if "sy_conns s j = Some d" for j d
    using system_inv_conn(4) [OF i that] by simp
  have "server_inv (sy_server s')"
    using i by (auto simp: system_inv_def server_inv_def st chan_ok_def)
  moreover have "\<exists>d. sy_conns s' j = Some d \<and> conn_open d \<and> conn_id d = m"
    if m: "sockets (sy_server s') m = Some j" for m j
  proof (cases "m = next_socket_id ?st")
    case True
    with m st o c show ?thesis by (auto simp: opened_as_def)
  next
    case False
    with m st have "sockets ?st m = Some j" by simp
    then obtain d where "sy_conns s j = Some d" "conn_open d" "conn_id d = m"
      using system_inv_socket [OF i] by blast
    with free c show ?thesis by (auto intro: exI [of _ d])
  qed
  moreover have "conn_rx d = j \<and> j \<in> dom (channels (sy_server s')) \<and> 0 < conn_id d
      \<and> conn_id d < next_socket_id (sy_server s')
      \<and> (conn_open d \<longrightarrow> sockets (sy_server s') (conn_id d) = Some j)" if "sy_conns s' j = Some d" for j d
  proof (cases "j = k")
    case True
    with that c o i nx st show ?thesis by (auto simp: opened_as_def system_inv_def)
  next
    case False
    with that c have j: "sy_conns s j = Some d" by simp
    with system_inv_conn [OF i j] old [OF j] nx(1) st show ?thesis by (auto intro: less_trans)
  qed
  ultimately show ?thesis using i nx(2) by (auto simp: system_inv_def st word_less_nat_alt)
qed

lemma system_inv_session:
  assumes i: "system_inv n s" and k: "sy_conns s k = Some c"
    and step: "conn_step W J ovf inp (c, sy_server s) = Ret (c', sy_server s')"
    and c: "sy_conns s' = (sy_conns s)(k \<mapsto> c')"
  shows "system_inv n s'"
proof (cases "conn_open c")
  case False
  with conns.step_closed [OF False] step have "c' = c" "sy_server s' = sy_server s" by simp_all
  with k c have "sy_conns s' = sy_conns s" "sy_server s' = sy_server s" by (simp_all add: fun_upd_idem)
  then show ?thesis using system_inv_same [OF i] by simp
next
  case True
  let ?st = "sy_server s"
  have id: "conn_id c' = conn_id c" "conn_rx c' = conn_rx c"
    using conns.step_id [OF step] conns.step_receiver [OF step] by simp_all
  have so: "sockets (sy_server s') = (if conn_open c' then sockets ?st else (sockets ?st)(conn_id c := None))"
    by (rule conns.step_sockets [OF step True])
  have fp: "dom (channels (sy_server s')) = dom (channels ?st)"
    "next_socket_id (sy_server s') = next_socket_id ?st" "server_inv (sy_server s')"
    using conns.step_footprint [OF step True] i by (simp_all add: footprint_def system_inv_def)
  have r: "sockets ?st (conn_id c) = Some k" by (rule system_inv_conn(5) [OF i k True])
  have other: "conn_id d \<noteq> conn_id c" if "sy_conns s j = Some d" "conn_open d" "j \<noteq> k" for j d
    using system_inv_conn(5) [OF i that(1,2)] r that(3) by auto
  have "conn_rx d = j \<and> j \<in> dom (channels (sy_server s')) \<and> 0 < conn_id d
      \<and> conn_id d < next_socket_id (sy_server s')
      \<and> (conn_open d \<longrightarrow> sockets (sy_server s') (conn_id d) = Some j)" if "sy_conns s' j = Some d" for j d
  proof (cases "j = k")
    case True
    with that c have "d = c'" by simp
    with True system_inv_conn [OF i k] r show ?thesis by (auto simp: id so fp)
  next
    case False
    with that c have j: "sy_conns s j = Some d" by simp
    with False other [OF j] system_inv_conn [OF i j] show ?thesis by (auto simp: so fp)
  qed
  moreover have "\<exists>d. sy_conns s' j = Some d \<and> conn_open d \<and> conn_id d = m"
    if m: "sockets (sy_server s') m = Some j" for m j
  proof -
    have "sockets ?st m = Some j" and ne: "\<not> conn_open c' \<Longrightarrow> m \<noteq> conn_id c"
      using m by (auto simp: so split: if_splits)
    then obtain d where d: "sy_conns s j = Some d" "conn_open d" "conn_id d = m"
      using system_inv_socket [OF i] by blast
    show ?thesis
    proof (cases "j = k")
      case True
      with d k have "d = c" by simp
      with d ne True c id show ?thesis by auto
    next
      case False
      with d c show ?thesis by simp
    qed
  qed
  ultimately show ?thesis using i by (simp add: system_inv_def fp)
qed

lemma system_inv_scanner:
  assumes "system_inv n s"
    and "handle_message J ovf clock 0 game msg (sy_server s) = Ret (r, sy_server s')"
    and "sy_conns s' = sy_conns s"
  shows "system_inv n s'"
proof -
  obtain evs where "sy_server s' = (sy_server s)\<lparr>activity_tx := activity_tx (sy_server s) @ evs\<rparr>"
    using handle_message_owned [OF assms(2)] by blast
  with assms(1,3) show ?thesis by (simp add: system_inv_def server_inv_def)
qed

lemma system_inv_step:
  assumes "system_step W J ovf lag s s'" and "system_inv n s" and "n < 2 ^ 64 - 2"
  shows "system_inv (Suc n) s'"
  using assms(1)
proof (cases rule: system_step_kinds)
  case refuse
  then show ?thesis
    using assms(2,3) system_inv_refuse system_inv_same system_inv_mono [of n _ "Suc n"] by fastforce
next
  case (open_conn k c)
  then show ?thesis by (intro system_inv_open [OF assms(2,3)])
next
  case (session k c i c')
  then show ?thesis using system_inv_session [OF assms(2)] system_inv_mono [of n _ "Suc n"] by simp
next
  case (scanner clock game args r)
  then show ?thesis using system_inv_scanner [OF assms(2)] system_inv_mono [of n _ "Suc n"] by simp
next
  case feed
  then show ?thesis using system_inv_same [OF assms(2)] system_inv_mono [of n _ "Suc n"] by simp
qed

lemma system_inv_reach:
  "(system_step W J ovf lag ^^ n) system_new s \<Longrightarrow> n < 2 ^ 64 - 1 \<Longrightarrow> system_inv n s"
proof (induction n arbitrary: s)
  case 0
  then show ?case by (simp add: system_inv_new)
next
  case (Suc n)
  then obtain t where "(system_step W J ovf lag ^^ n) system_new t" "system_step W J ovf lag t s" by auto
  with Suc show ?case by (intro system_inv_step) simp_all
qed

text \<open>
  Claim C4. As long as fewer than \<open>2 ^ 64 - 1\<close> steps have been made, in any interleaving of sessions,
  scanner and feed: the registry holds exactly the open sessions, each under its own id and with its own
  queue; no two open sessions share an id, none has the id 0 of the scanner, and no queue exceeds 128.
\<close>

theorem registry_is_open_sessions:
  assumes "(system_step W J ovf lag ^^ n) system_new s" and "n < 2 ^ 64 - 1"
  shows "(\<forall>i k. sockets (sy_server s) i = Some k
            \<longleftrightarrow> (\<exists>c. sy_conns s k = Some c \<and> conn_open c \<and> conn_id c = i))
    \<and> sockets (sy_server s) 0 = None
    \<and> (\<forall>k k' c c'. sy_conns s k = Some c \<and> conn_open c \<and> sy_conns s k' = Some c' \<and> conn_open c'
          \<and> conn_id c = conn_id c' \<longrightarrow> k = k')
    \<and> server_inv (sy_server s)"
proof -
  note i = system_inv_reach [OF assms]
  have r: "sockets (sy_server s) i = Some k
      \<longleftrightarrow> (\<exists>c. sy_conns s k = Some c \<and> conn_open c \<and> conn_id c = i)" for i k
    using system_inv_socket [OF i] system_inv_conn(5) [OF i] by blast
  moreover have "sockets (sy_server s) 0 = None"
    using r [of 0] system_inv_conn(3) [OF i] by (cases "sockets (sy_server s) 0") fastforce+
  moreover have "server_inv (sy_server s)" using i by (simp add: system_inv_def)
  moreover have "k = k'" if "sy_conns s k = Some c" "conn_open c" "sy_conns s k' = Some c'" "conn_open c'"
    "conn_id c = conn_id c'" for k k' c c'
    using system_inv_conn(5) [OF i that(1,2)] system_inv_conn(5) [OF i that(3,4)] that(5) by simp
  ultimately show ?thesis by blast
qed

text \<open>
  Claim C5. Sessions are isolated: in every reachable state, a step of one session leaves the queue, the
  registration and the state of every other session alone, broadcasts only events with its own socket id,
  and removes from the registry at most itself.
\<close>

theorem session_isolation:
  assumes "(system_step W J ovf lag ^^ n) system_new s" and "n < 2 ^ 64 - 1"
    and "sy_conns s k = Some c" and "conn_open c"
    and "conn_step W J ovf i (c, sy_server s) = Ret (c', st)"
  shows "(\<forall>k' d. k' \<noteq> k \<and> sy_conns s k' = Some d \<and> conn_open d \<longrightarrow>
            channels st k' = channels (sy_server s) k' \<and> sockets st (conn_id d) = Some k')
    \<and> (\<exists>evs. activity_tx st = activity_tx (sy_server s) @ evs \<and> ev_socket_id ` set evs \<subseteq> {conn_id c})
    \<and> sockets st (conn_id c) = (if conn_open c' then Some k else None)"
proof -
  note inv = system_inv_reach [OF assms(1,2)]
  have r: "sockets (sy_server s) (conn_id c) = Some k" by (rule system_inv_conn(5) [OF inv assms(3,4)])
  have rx: "conn_rx c = k" by (rule system_inv_conn(1) [OF inv assms(3)])
  note f = conns.step_footprint [OF assms(5,4)]
  have so: "sockets st = (if conn_open c' then sockets (sy_server s)
      else (sockets (sy_server s))(conn_id c := None))"
    by (rule conns.step_sockets [OF assms(5,4)])
  have "channels st k' = channels (sy_server s) k' \<and> sockets st (conn_id d) = Some k'"
    if d: "k' \<noteq> k" "sy_conns s k' = Some d" "conn_open d" for k' d
  proof -
    have "sockets (sy_server s) (conn_id d) = Some k'" by (rule system_inv_conn(5) [OF inv d(2,3)])
    with r d(1) have "conn_id d \<noteq> conn_id c" "sockets (sy_server s) (conn_id d) = Some k'" by auto
    with f r rx d(1) show ?thesis by (simp add: footprint_def so)
  qed
  with f r so show ?thesis by (auto simp: footprint_def own_events_def)
qed

text \<open>A run: two WebSocket clients connect, the first sends an activity.\<close>

definition sample_wire2 :: wire_lib where
  "sample_wire2 = sample_wire\<lparr>wl_rpc := \<lambda>_. Some sample_msg\<rparr>"

lemma two_sessions:
  obtains s c d where "(system_step sample_wire2 ordered_lib True False ^^ 2) system_new s"
    and "sy_conns s 0 = Some (WsConn c)" "wc_open c" "wc_socket_id c = 1"
    and "sy_conns s 1 = Some (WsConn d)" "wc_open d" "wc_socket_id d = 2"
    and "activity_tx (sy_server s) = []" "sy_bridge s = bridge_new" "sy_pos s = 0"
proof -
  let ?step = "system_step sample_wire2 ordered_lib True False"
  obtain c st where c: "ws_begin ''42'' True 0 server_new = (Some c, st)" "wc_open c" "wc_socket_id c = 1"
    "channels st 1 = None" "next_socket_id st = 2" "activity_tx st = []"
    by (simp add: ws_begin_def next_id_def server_new_def register_socket_def open_channel_def)
  obtain d st2 where d: "ws_begin ''43'' True 1 st = (Some d, st2)" "wc_open d" "wc_socket_id d = 2"
    "activity_tx st2 = []"
    using c(5,6) by (simp add: ws_begin_def next_id_def register_socket_def open_channel_def)
  let ?s1 = "accepted 0 (map_option WsConn (Some c), st) system_new"
  let ?s2 = "accepted 1 (map_option WsConn (Some d), st2) ?s1"
  have "?step system_new ?s1"
    by (rule system_step.accept_ws [where client_id = "''42''" and write_ok = True])
      (simp_all add: system_new_def c(1), simp add: server_new_def)
  moreover have "?step ?s1 ?s2"
    by (rule system_step.accept_ws [where client_id = "''43''" and write_ok = True])
      (simp_all add: accepted_def c(4) d(1) del: One_nat_def)
  ultimately have "(?step ^^ 2) system_new ?s2" by (auto simp: numeral_2_eq_2)
  then show thesis
    by (rule that) (use c d in \<open>simp_all add: accepted_def system_new_def\<close>)
qed

theorem registry_is_open_sessions_witness:
  "\<exists>s. (system_step sample_wire2 ordered_lib True False ^^ 2) system_new s
    \<and> sockets (sy_server s) 1 = Some 0 \<and> sockets (sy_server s) 2 = Some 1 \<and> sockets (sy_server s) 0 = None"
proof -
  obtain s c d where r: "(system_step sample_wire2 ordered_lib True False ^^ 2) system_new s"
    and s: "sy_conns s 0 = Some (WsConn c)" "wc_open c" "wc_socket_id c = 1"
      "sy_conns s 1 = Some (WsConn d)" "wc_open d" "wc_socket_id d = 2"
    by (rule two_sessions)
  have b: "(2 :: nat) < 2 ^ 64 - 1" by simp
  have q: "sockets (sy_server s) i = Some k
      \<longleftrightarrow> (\<exists>c. sy_conns s k = Some c \<and> conn_open c \<and> conn_id c = i)" "sockets (sy_server s) 0 = None" for i k
    using registry_is_open_sessions [OF r b] by blast+
  have "conn_open (WsConn c)" "conn_id (WsConn c) = 1" "conn_open (WsConn d)" "conn_id (WsConn d) = 2"
    using s by simp_all
  with q s r show ?thesis by blast
qed

theorem session_isolation_witness:
  "\<exists>(s :: system) c c' st. sy_conns s 0 = Some c
    \<and> conn_step sample_wire2 ordered_lib True (WsInput (WsIn WsClose sample_clock)) (c, sy_server s) = Ret (c', st)
    \<and> sockets st 1 = None \<and> sockets st 2 = Some 1"
proof -
  obtain s c d where r: "(system_step sample_wire2 ordered_lib True False ^^ 2) system_new s"
    and s: "sy_conns s 0 = Some (WsConn c)" "wc_open c" "wc_socket_id c = 1"
      "sy_conns s 1 = Some (WsConn d)" "wc_open d" "wc_socket_id d = 2"
    by (rule two_sessions)
  obtain c' st where m: "conn_step sample_wire2 ordered_lib True (WsInput (WsIn WsClose sample_clock))
      (WsConn c, sy_server s) = Ret (c', st)" "\<not> conn_open c'"
    using s(2) by (simp add: ws_end_def)
  have b: "(2 :: nat) < 2 ^ 64 - 1" and o: "conn_open (WsConn c)" "conn_open (WsConn d)" "(1 :: nat) \<noteq> 0"
    and ids: "conn_id (WsConn c) = 1" "conn_id (WsConn d) = 2"
    using s by simp_all
  note iso = session_isolation [OF r b s(1) o(1) m(1)]
  have "sockets st 2 = Some 1" using iso s(4) o(2,3) ids(2) by metis
  moreover have "sockets st 1 = None" using iso m(2) ids(1) by simp
  ultimately show ?thesis
    using s(1) m(1)
    by (intro exI [of _ s] exI [of _ "WsConn c"] exI [of _ c'] exI [of _ st]) blast
qed

section \<open>The bridge shows the open sessions\<close>

definition live_ids :: "system \<Rightarrow> u64 set" where
  "live_ids s = {conn_id c |c k. sy_conns s k = Some c \<and> conn_open c}"

lemma live_idsI: "sy_conns s k = Some c \<Longrightarrow> conn_open c \<Longrightarrow> conn_id c \<in> live_ids s"
  by (auto simp: live_ids_def)

text \<open>What the log says about each socket, and that nothing is left of a session that has ended.\<close>

definition shown :: "json_lib \<Rightarrow> system \<Rightarrow> u64 \<rightharpoonup> str" where
  "shown J s = fold (upd_last J) (activity_tx (sy_server s)) Map.empty"

definition clean :: "json_lib \<Rightarrow> system \<Rightarrow> bool" where
  "clean J s \<longleftrightarrow> (\<forall>i. i \<noteq> 0 \<longrightarrow> i \<notin> live_ids s \<longrightarrow> shown J s i = None)"

lemma shown_other:
  assumes "activity_tx (sy_server s') = activity_tx (sy_server s) @ evs" and "i \<notin> ev_socket_id ` set evs"
  shows "shown J s' i = shown J s i"
  using assms by (simp add: shown_def feed_map.fold_other)

lemma shown_last:
  assumes "activity_tx (sy_server s') = activity_tx (sy_server s) @ evs" and "evs \<noteq> []"
    and "last evs = null_event i"
  shows "shown J s' i = None"
proof -
  obtain es where "evs = es @ [null_event i]" using assms(2,3) by (metis append_butlast_last_id)
  with assms(1) show ?thesis by (simp add: shown_def upd_last_def null_event_def)
qed

lemma clean_weaken:
  assumes "clean J s" and "activity_tx (sy_server s') = activity_tx (sy_server s)"
    and "live_ids s \<subseteq> live_ids s'"
  shows "clean J s'"
  using assms by (auto simp: clean_def shown_def)

lemma clean_session:
  assumes cl: "clean J s" and k: "sy_conns s k = Some c"
    and step: "conn_step W J ovf inp (c, sy_server s) = Ret (c', sy_server s')"
    and c: "sy_conns s' = (sy_conns s)(k \<mapsto> c')"
  shows "clean J s'"
proof (cases "conn_open c")
  case False
  with conns.step_closed [OF False] step have "c' = c" "sy_server s' = sy_server s" by simp_all
  with k c cl show ?thesis by (simp add: clean_def live_ids_def shown_def fun_upd_idem)
next
  case True
  obtain evs where e: "activity_tx (sy_server s') = activity_tx (sy_server s) @ evs"
      "ev_socket_id ` set evs \<subseteq> {conn_id c}"
    and z: "\<not> conn_open c' \<Longrightarrow> evs \<noteq> [] \<and> last evs = null_event (conn_id c)"
    using conns.step_log [OF step True] by blast
  have id: "conn_id c' = conn_id c" by (rule conns.step_id [OF step])
  have "shown J s' i = None" if i: "i \<noteq> 0" "i \<notin> live_ids s'" for i
  proof (cases "i = conn_id c")
    case True
    have "\<not> conn_open c'" using live_idsI [of s' k c'] i(2) True id c by auto
    with z shown_last [OF e(1)] True show ?thesis by simp
  next
    case False
    have "i \<notin> live_ids s"
    proof
      assume "i \<in> live_ids s"
      then obtain d j where d: "sy_conns s j = Some d" "conn_open d" "i = conn_id d"
        by (auto simp: live_ids_def)
      with False k have "j \<noteq> k" by auto
      with d c have "i \<in> live_ids s'" using live_idsI [of s' j d] by simp
      with i(2) show False ..
    qed
    with cl i(1) have "shown J s i = None" by (simp add: clean_def)
    moreover have "i \<notin> ev_socket_id ` set evs" using e(2) False by auto
    ultimately show ?thesis using shown_other [OF e(1)] by simp
  qed
  then show ?thesis by (simp add: clean_def)
qed

lemma clean_open:
  assumes "clean J s" and "channels (sy_server s) k = None" and "opened_as (sy_server s) k (sy_server s') c"
    and "sy_conns s' = (sy_conns s)(k \<mapsto> c)" and "sy_conns s k = None"
  shows "clean J s'"
proof (rule clean_weaken [OF assms(1)])
  show "activity_tx (sy_server s') = activity_tx (sy_server s)"
    using assms(3) by (simp add: opened_as_def register_socket_def open_channel_def next_id_def)
  show "live_ids s \<subseteq> live_ids s'"
    using assms(4,5) by (force simp: live_ids_def)
qed

lemma clean_scanner:
  assumes "clean J s" and "handle_message J ovf clock 0 game msg (sy_server s) = Ret (r, sy_server s')"
    and "sy_conns s' = sy_conns s"
  shows "clean J s'"
proof -
  obtain evs where e: "sy_server s' = (sy_server s)\<lparr>activity_tx := activity_tx (sy_server s) @ evs\<rparr>"
    and o: "ev_socket_id ` set evs \<subseteq> {0}"
    using handle_message_owned [OF assms(2)] by blast
  have l: "activity_tx (sy_server s') = activity_tx (sy_server s) @ evs" by (simp add: e)
  have "shown J s' i = shown J s i" if "i \<noteq> 0" for i
    using shown_other [OF l] o that by auto
  with assms(1,3) show ?thesis by (simp add: clean_def live_ids_def)
qed

text \<open>The latest event of a socket in the log, which is what \<open>shown\<close> amounts to.\<close>

definition latest :: "u64 \<Rightarrow> activity_event list \<Rightarrow> activity_event option" where
  "latest i log = find (\<lambda>e. ev_socket_id e = i) (rev log)"

lemma latest_snoc: "latest i (log @ [e]) = (if ev_socket_id e = i then Some e else latest i log)"
  by (simp add: latest_def)

lemma fold_latest:
  "fold (upd_last J) log Map.empty i
   = Option.bind (latest i log) (\<lambda>e. map_option (\<lambda>_. payload J e) (ev_activity e))"
proof (induction log rule: rev_induct)
  case (snoc e log)
  then show ?case by (simp add: latest_snoc upd_last_def)
qed (simp add: latest_def)

text \<open>The feed without lag: it has processed the log up to its position.\<close>

definition fed :: "json_lib \<Rightarrow> system \<Rightarrow> bool" where
  "fed J s \<longleftrightarrow> sy_pos s \<le> length (activity_tx (sy_server s))
     \<and> sy_bridge s = feed_all J (take (sy_pos s) (activity_tx (sy_server s))) bridge_new"

definition fresh_numbers :: "system \<Rightarrow> bool" where
  "fresh_numbers s \<longleftrightarrow> dom (sy_conns s) \<subseteq> dom (channels (sy_server s))"

lemma fed_grow:
  assumes "fed J s" and "activity_tx (sy_server s') = activity_tx (sy_server s) @ evs"
    and "sy_bridge s' = sy_bridge s" and "sy_pos s' = sy_pos s"
  shows "fed J s'"
  using assms by (simp add: fed_def)

lemma fed_step:
  assumes "total_lib J" and "fed J s" and "length (activity_tx (sy_server s)) - sy_pos s \<le> ACTIVITY_CAPACITY"
    and "feed_step J (activity_tx (sy_server s)) (sy_bridge s, sy_pos s) = (sy_bridge s', sy_pos s')"
    and "sy_server s' = sy_server s"
  shows "fed J s'"
proof (cases "sy_pos s < length (activity_tx (sy_server s))")
  case True
  with feed_step_near [OF assms(1) True assms(3)] assms(4)
  have "sy_pos s' = Suc (sy_pos s)"
    and "sy_bridge s' = feed_all J [activity_tx (sy_server s) ! sy_pos s] (sy_bridge s)" by simp_all
  with True assms(2,5) show ?thesis
    by (simp add: fed_def feed_all_append take_Suc_conv_app_nth)
next
  case False
  then show ?thesis using assms(2,4,5) by (simp add: fed_def feed_step_def recv_def)
qed

lemma system_step_clean:
  assumes "system_step W J ovf False s s'" and t: "total_lib J" and "clean J s \<and> fresh_numbers s \<and> fed J s"
  shows "clean J s' \<and> fresh_numbers s' \<and> fed J s'"
  using assms(1)
proof (cases rule: system_step_kinds)
  case refuse
  then have "activity_tx (sy_server s') = activity_tx (sy_server s) @ []"
    "channels (sy_server s') = channels (sy_server s)" by (auto simp: next_id_def)
  with refuse assms(3) fed_grow [of J s s' "[]"] clean_weaken [of J s s'] show ?thesis
    by (auto simp: fresh_numbers_def live_ids_def)
next
  case (open_conn k c)
  have n: "sy_conns s k = None" using open_conn(1) assms(3) by (auto simp: fresh_numbers_def)
  have l: "activity_tx (sy_server s') = activity_tx (sy_server s) @ []"
    and d: "dom (channels (sy_server s')) = insert k (dom (channels (sy_server s)))"
    using open_conn(2) by (auto simp: opened_as_def register_socket_def open_channel_def next_id_def)
  show ?thesis
    using clean_open [OF _ open_conn(1,2,3) n] fed_grow [OF _ l open_conn(4,5)] assms(3) d open_conn(3)
    by (auto simp: fresh_numbers_def)
next
  case (session k c i c')
  obtain evs where l: "activity_tx (sy_server s') = activity_tx (sy_server s) @ evs"
    and d: "dom (channels (sy_server s')) = dom (channels (sy_server s))"
  proof (cases "conn_open c")
    case True
    with conns.step_footprint [OF session(2) True] that show ?thesis by (auto simp: footprint_def own_events_def)
  next
    case False
    with conns.step_closed [OF False] session(2) that [of "[]"] show ?thesis by simp
  qed
  show ?thesis
    using clean_session [OF _ session(1,2,3)] fed_grow [OF _ l session(4,5)] assms(3) d session(1,3)
    by (auto simp: fresh_numbers_def)
next
  case (scanner clock game args r)
  obtain evs where e: "sy_server s' = (sy_server s)\<lparr>activity_tx := activity_tx (sy_server s) @ evs\<rparr>"
    using handle_message_owned [OF scanner(1)] by blast
  have l: "activity_tx (sy_server s') = activity_tx (sy_server s) @ evs" by (simp add: e)
  show ?thesis
    using clean_scanner [OF _ scanner(1,2)] fed_grow [OF _ l scanner(3,4)] assms(3) scanner(2)
    by (auto simp: fresh_numbers_def e)
next
  case feed
  then have "length (activity_tx (sy_server s)) - sy_pos s \<le> ACTIVITY_CAPACITY" by simp
  with fed_step [OF t _ this feed(2,3)] assms(3) feed(3,4) show ?thesis
    by (simp add: clean_def live_ids_def shown_def fresh_numbers_def)
qed

lemma system_clean:
  assumes "(system_step W J ovf False)\<^sup>*\<^sup>* system_new s" and "total_lib J"
  shows "clean J s \<and> fresh_numbers s \<and> fed J s"
  using assms(1)
proof (induction rule: rtranclp_induct)
  case base
  have "bridge_new = feed_all J [] bridge_new" by simp
  then show ?case
    by (simp add: clean_def shown_def fresh_numbers_def fed_def system_new_def server_new_def)
next
  case (step t u)
  then show ?case using system_step_clean [OF step(2) assms(2)] by simp
qed

lemma system_pos:
  assumes "(system_step W J ovf lag)\<^sup>*\<^sup>* system_new s"
  shows "sy_pos s \<le> length (activity_tx (sy_server s))"
  using assms
proof (induction rule: rtranclp_induct)
  case base
  then show ?case by (simp add: system_new_def)
next
  case (step t u)
  obtain evs where l: "activity_tx (sy_server u) = activity_tx (sy_server t) @ evs"
    using system_step_log [OF step(2)] .
  show ?case
    using step(2)
  proof cases
    case (feed br pos)
    then show ?thesis
      using step(3) by (auto simp: feed_step_def recv_def split: if_splits)
  qed (use step(3) l in \<open>auto simp: accepted_def\<close>)
qed

text \<open>A retained event decides what the bridge shows for its socket, whatever came before.\<close>

lemma latest_retained:
  assumes "i \<in> ev_socket_id ` set (drop p log)"
  shows "fold (upd_last J) (drop p log) m i = Option.bind (latest i log) (\<lambda>e. map_option (\<lambda>_. payload J e) (ev_activity e))"
proof -
  have "fold (upd_last J) (drop p log) m i = fold (upd_last J) (drop p log) (fold (upd_last J) (take p log) Map.empty) i"
    by (rule feed_map.fold_own [OF assms])
  also have "\<dots> = fold (upd_last J) log Map.empty i"
    by (metis append_take_drop_id comp_apply fold_append)
  finally show ?thesis by (simp add: fold_latest)
qed

text \<open>
  Claim C2. The bridge catches up with the sessions. From every reachable state, whether or not its feed has
  been overtaken, finitely many turns of the feed lead to the end of the log and to a bridge that holds,
  for every socket with an unread event among the last 64, the message of its latest event (nothing
  when that has no activity). When the feed has never been overtaken and has at most 64 unread events,
  this is so for every socket, and hence the bridge holds nothing for any socket but the scanner's and
  those of the sessions that are open. The serialiser is taken not to fail.
\<close>

theorem bridge_shows_open_sessions:
  assumes "(system_step W J ovf lag)\<^sup>*\<^sup>* system_new s" and "total_lib J"
  shows "\<exists>n br. (feed_step J (activity_tx (sy_server s)) ^^ n) (sy_bridge s, sy_pos s)
        = (br, length (activity_tx (sy_server s)))
    \<and> (\<forall>i. i \<in> ev_socket_id ` set (drop (max (sy_pos s) (length (activity_tx (sy_server s)) - ACTIVITY_CAPACITY))
                                      (activity_tx (sy_server s)))
           \<longrightarrow> last_msgs br i = Option.bind (latest i (activity_tx (sy_server s)))
                 (\<lambda>e. map_option (\<lambda>_. payload J e) (ev_activity e)))
    \<and> (\<not> lag \<and> length (activity_tx (sy_server s)) - sy_pos s \<le> ACTIVITY_CAPACITY \<longrightarrow>
        (\<forall>i. last_msgs br i = Option.bind (latest i (activity_tx (sy_server s)))
               (\<lambda>e. map_option (\<lambda>_. payload J e) (ev_activity e)))
        \<and> (\<forall>i. last_msgs br i \<noteq> None \<longrightarrow> i = 0 \<or> (\<exists>k c. sy_conns s k = Some c \<and> conn_open c \<and> conn_id c = i)))"
proof -
  let ?log = "activity_tx (sy_server s)"
  let ?p = "max (sy_pos s) (length ?log - ACTIVITY_CAPACITY)"
  let ?br = "feed_all J (drop ?p ?log) (sy_bridge s)"
  let ?shown = "\<lambda>i. Option.bind (latest i ?log) (\<lambda>e. map_option (\<lambda>_. payload J e) (ev_activity e))"
  obtain n where run: "(feed_step J ?log ^^ n) (sy_bridge s, sy_pos s) = (?br, length ?log)"
    using feed_catches_up [OF assms(2) system_pos [OF assms(1)]] by blast
  have "last_msgs ?br i = ?shown i" if "i \<in> ev_socket_id ` set (drop ?p ?log)" for i
    by (simp add: feed_all_def latest_retained [OF that])
  moreover have "(\<forall>i. last_msgs ?br i = ?shown i)
      \<and> (\<forall>i. last_msgs ?br i \<noteq> None \<longrightarrow> i = 0 \<or> (\<exists>k c. sy_conns s k = Some c \<and> conn_open c \<and> conn_id c = i))"
    if "\<not> lag" "length ?log - sy_pos s \<le> ACTIVITY_CAPACITY"
  proof -
    have c: "clean J s" and f: "sy_pos s \<le> length ?log"
      "sy_bridge s = feed_all J (take (sy_pos s) ?log) bridge_new"
      using system_clean [OF _ assms(2), of W ovf s] assms(1) that(1) by (auto simp: fed_def)
    have p: "?p = sy_pos s" using that(2) f(1) by simp
    have "?br = feed_all J ?log bridge_new" unfolding p by (subst f(2)) (simp add: feed_all_append)
    then have l: "last_msgs ?br = shown J s" by (simp add: feed_all_def shown_def bridge_new_def)
    then have "i = 0 \<or> i \<in> live_ids s" if "last_msgs ?br i \<noteq> None" for i
      using that c by (auto simp: clean_def)
    with l show ?thesis by (auto simp: live_ids_def shown_def fold_latest)
  qed
  ultimately show ?thesis
    using run by blast
qed

text \<open>A run in which two sessions have opened and the first has announced an activity.\<close>

lemma one_announcement:
  obtains s ev where "(system_step sample_wire2 ordered_lib True False)\<^sup>*\<^sup>* system_new s"
    and "activity_tx (sy_server s) = [ev]" "sy_bridge s = bridge_new" "sy_pos s = 0"
    and "ev_socket_id ev = 1" "ev_activity ev \<noteq> None"
proof -
  let ?step = "system_step sample_wire2 ordered_lib True False"
  obtain s c d where r: "(?step ^^ 2) system_new s"
    and s: "sy_conns s 0 = Some (WsConn c)" "wc_open c" "wc_socket_id c = 1"
    and n: "activity_tx (sy_server s) = []" "sy_bridge s = bridge_new" "sy_pos s = 0"
    by (rule two_sessions)
  obtain m ev where h: "handle_message ordered_lib True sample_clock 1 (wc_client_id c) sample_msg (sy_server s)
      = Ret (m, send_activity ev (sy_server s))" and e: "ev_socket_id ev = 1" "ev_activity ev \<noteq> None"
    using set_activity_effect [of sample_clock ordered_lib True 1 "wc_client_id c" sample_msg "sy_server s"]
    by (auto simp: handle_message_def sample_msg_def the_activity_def)
  let ?st = "case m of None \<Rightarrow> send_activity ev (sy_server s)
    | Some resp \<Rightarrow> send_to_socket 1 resp (send_activity ev (sy_server s))"
  let ?t = "s\<lparr>sy_server := ?st, sy_conns := (sy_conns s)(0 \<mapsto> WsConn c)\<rparr>"
  have "conn_step sample_wire2 ordered_lib True (WsInput (WsIn (WsText []) sample_clock))
      (WsConn c, sy_server s) = Ret (WsConn c, ?st)"
    using s h by (simp add: dispatch_rpc_def sample_wire2_def)
  from system_step.session [OF s(1) this] r have "?step\<^sup>*\<^sup>* system_new ?t"
    by (meson relpowp_imp_rtranclp rtranclp.rtrancl_into_rtrancl)
  moreover have "activity_tx ?st = [ev]"
    by (cases m) (simp_all add: send_to_socket_log, simp_all add: send_activity_def n)
  ultimately show thesis using that [of ?t ev] e n by simp
qed

theorem bridge_shows_open_sessions_witness:
  "\<exists>s n br ev. (system_step sample_wire2 ordered_lib True False)\<^sup>*\<^sup>* system_new s
    \<and> (feed_step ordered_lib (activity_tx (sy_server s)) ^^ n) (sy_bridge s, sy_pos s) = (br, 1)
    \<and> last_msgs br 1 = Some (payload ordered_lib ev) \<and> last_msgs br 2 = None"
proof -
  obtain s ev where run: "(system_step sample_wire2 ordered_lib True False)\<^sup>*\<^sup>* system_new s"
    and n: "activity_tx (sy_server s) = [ev]" "sy_bridge s = bridge_new" "sy_pos s = 0"
    and e: "ev_socket_id ev = 1" "ev_activity ev \<noteq> None"
    by (rule one_announcement)
  obtain k br where k: "(feed_step ordered_lib [ev] ^^ k) (bridge_new, 0) = (br, 1)"
    and b: "\<forall>i. last_msgs br i = Option.bind (latest i [ev])
      (\<lambda>e. map_option (\<lambda>_. payload ordered_lib e) (ev_activity e))"
    using bridge_shows_open_sessions [OF run total_ordered] by (auto simp: n ACTIVITY_CAPACITY_def)
  have "last_msgs br 1 = Some (payload ordered_lib ev)" "last_msgs br 2 = None"
    using e b by (auto simp: latest_def)
  with run k show ?thesis by (intro exI [of _ s]) (auto simp: n)
qed

end
