(* ===== verification/Presence.thy ===== *)
theory Presence
  imports System
begin

text \<open>
  The abstract specification of the program, and the proof that the system refines it. A presence board
  holds at most one activity for each live participant; participants join, announce or clear their
  activity, and leave, which clears it. Socket 0 is the scanner, which never leaves.
\<close>

section \<open>The board\<close>

record presence =
  board :: "u64 \<rightharpoonup> json"
  live :: "u64 set"

definition presence_new :: presence where
  "presence_new = \<lparr>board = Map.empty, live = {}\<rparr>"

inductive presence_step :: "presence \<Rightarrow> presence \<Rightarrow> bool" where
  join: "i \<notin> live p \<Longrightarrow> i \<noteq> 0 \<Longrightarrow> presence_step p (p\<lparr>live := insert i (live p)\<rparr>)"
| announce: "i \<in> live p \<or> i = 0 \<Longrightarrow> presence_step p (p\<lparr>board := (board p)(i := act)\<rparr>)"
| leave: "i \<in> live p \<Longrightarrow>
    presence_step p (p\<lparr>board := (board p)(i := None), live := live p - {i}\<rparr>)"

inductive_cases presence_stepE: "presence_step p p'"

lemma presence_step_inv:
  "presence_step p p' \<Longrightarrow> dom (board p) \<subseteq> insert 0 (live p) \<Longrightarrow> dom (board p') \<subseteq> insert 0 (live p')"
  by (induction rule: presence_step.induct) (auto split: if_splits)

lemma presence_inv:
  assumes "presence_step\<^sup>*\<^sup>* presence_new p"
  shows "dom (board p) \<subseteq> insert 0 (live p)"
  using assms
  by (induction rule: rtranclp_induct) (simp_all add: presence_new_def presence_step_inv)

section \<open>The system refines the board\<close>

definition log_board :: "activity_event list \<Rightarrow> u64 \<rightharpoonup> json" where
  "log_board log = (\<lambda>i. Option.bind (latest i log) ev_activity)"

definition presence_of :: "system \<Rightarrow> presence" where
  "presence_of s = \<lparr>board = log_board (activity_tx (sy_server s)), live = live_ids s\<rparr>"

lemma log_board_snoc: "log_board (log @ [e]) = (log_board log)(ev_socket_id e := ev_activity e)"
  by (auto simp: log_board_def latest_snoc)

lemma announce_events:
  assumes "ev_socket_id ` set evs \<subseteq> {i}" and "i \<in> ids \<or> i = 0"
  shows "presence_step\<^sup>*\<^sup>* \<lparr>board = log_board log, live = ids\<rparr> \<lparr>board = log_board (log @ evs), live = ids\<rparr>"
  using assms(1)
proof (induction evs rule: rev_induct)
  case (snoc e evs)
  let ?p = "\<lparr>board = log_board (log @ evs), live = ids\<rparr>"
  have e: "ev_socket_id e = i" using snoc.prems by simp
  have "presence_step ?p (?p\<lparr>board := (board ?p)(i := ev_activity e)\<rparr>)"
    by (rule presence_step.announce) (use assms(2) in simp)
  moreover have "?p\<lparr>board := (board ?p)(i := ev_activity e)\<rparr>
      = \<lparr>board = log_board (log @ evs @ [e]), live = ids\<rparr>"
    using log_board_snoc [of "log @ evs" e] e by simp
  ultimately show ?case using snoc by simp
qed simp

text \<open>The open sessions on the channels other than \<open>k\<close>, which an update of channel \<open>k\<close> leaves alone.\<close>

definition other_ids :: "system \<Rightarrow> nat \<Rightarrow> u64 set" where
  "other_ids s k = {conn_id d |d j. j \<noteq> k \<and> sy_conns s j = Some d \<and> conn_open d}"

lemma live_ids_split:
  "live_ids s = other_ids s k \<union> (case sy_conns s k of None \<Rightarrow> {} | Some c \<Rightarrow> if conn_open c then {conn_id c} else {})"
proof (rule set_eqI)
  fix i
  show "i \<in> live_ids s \<longleftrightarrow> i \<in> other_ids s k
      \<union> (case sy_conns s k of None \<Rightarrow> {} | Some c \<Rightarrow> if conn_open c then {conn_id c} else {})"
    by (cases "sy_conns s k"; simp add: live_ids_def other_ids_def) (metis option.inject option.distinct(1))+
qed

lemma other_ids_upd: "sy_conns s' = (sy_conns s)(k \<mapsto> c) \<Longrightarrow> other_ids s' k = other_ids s k"
  unfolding other_ids_def by (intro Collect_cong) (auto simp: fun_upd_apply)

lemma live_ids_update:
  assumes "sy_conns s k = Some c" and "conn_open c" and "conn_id c' = conn_id c"
    and "sy_conns s' = (sy_conns s)(k \<mapsto> c')"
    and "\<And>j d. sy_conns s j = Some d \<Longrightarrow> conn_open d \<Longrightarrow> conn_id d = conn_id c \<Longrightarrow> j = k"
  shows "live_ids s' = (if conn_open c' then live_ids s else live_ids s - {conn_id c})"
proof -
  have "conn_id c \<notin> other_ids s k" using assms(5) by (auto simp: other_ids_def)
  then show ?thesis
    using assms(1-4) by (simp add: live_ids_split [of s k] live_ids_split [of s' k] other_ids_upd)
qed

lemma presence_session:
  assumes inv: "system_inv n s" and k: "sy_conns s k = Some c"
    and step: "conn_step W J ovf i (c, sy_server s) = Ret (c', sy_server s')"
    and c: "sy_conns s' = (sy_conns s)(k \<mapsto> c')"
  shows "presence_step\<^sup>*\<^sup>* (presence_of s) (presence_of s')"
proof (cases "conn_open c")
  case False
  with conns.step_closed [OF False] step have "c' = c" "sy_server s' = sy_server s" by simp_all
  with k c have "presence_of s' = presence_of s" by (simp add: presence_of_def live_ids_def fun_upd_idem)
  then show ?thesis by simp
next
  case True
  let ?log = "activity_tx (sy_server s)" and ?i = "conn_id c"
  obtain evs where e: "activity_tx (sy_server s') = ?log @ evs" "ev_socket_id ` set evs \<subseteq> {?i}"
    and z: "\<not> conn_open c' \<Longrightarrow> evs \<noteq> [] \<and> last evs = null_event ?i"
    using conns.step_log [OF step True] by blast
  have "j = k" if "sy_conns s j = Some d" "conn_open d" "conn_id d = ?i" for j d
    using system_inv_conn(5) [OF inv that(1,2)] system_inv_conn(5) [OF inv k True] that(3) by simp
  then have live: "live_ids s' = (if conn_open c' then live_ids s else live_ids s - {?i})"
    by (rule live_ids_update [OF k True conns.step_id [OF step] c])
  have i: "?i \<in> live_ids s" by (rule live_idsI [OF k True])
  show ?thesis
  proof (cases "conn_open c'")
    case True
    with announce_events [OF e(2)] i e(1) live show ?thesis by (simp add: presence_of_def)
  next
    case False
    with z obtain es where es: "evs = es @ [null_event ?i]" by (metis append_butlast_last_id)
    let ?p = "\<lparr>board = log_board (?log @ es), live = live_ids s\<rparr>"
    have "presence_step\<^sup>*\<^sup>* (presence_of s) ?p"
      using announce_events [of es ?i "live_ids s" ?log] e(2) es i by (simp add: presence_of_def)
    moreover have "presence_step ?p (?p\<lparr>board := (board ?p)(?i := None), live := live ?p - {?i}\<rparr>)"
      by (rule presence_step.leave) (use i in simp)
    moreover have "?p\<lparr>board := (board ?p)(?i := None), live := live ?p - {?i}\<rparr> = presence_of s'"
      using log_board_snoc [of "?log @ es" "null_event ?i"] False e(1) es live
      by (simp add: presence_of_def null_event_def)
    ultimately show ?thesis by simp
  qed
qed

lemma presence_open:
  assumes inv: "system_inv n s" and k: "channels (sy_server s) k = None"
    and o: "opened_as (sy_server s) k (sy_server s') c" and c: "sy_conns s' = (sy_conns s)(k \<mapsto> c)"
  shows "presence_step\<^sup>*\<^sup>* (presence_of s) (presence_of s')"
proof -
  let ?i = "next_socket_id (sy_server s)"
  have l: "activity_tx (sy_server s') = activity_tx (sy_server s)"
    using o by (simp add: opened_as_def register_socket_def open_channel_def next_id_def)
  have free: "sy_conns s k = None"
    using inv k by (metis domIff option.exhaust system_inv_conn(2))
  have "live_ids s' = insert ?i (live_ids s)"
    using o c free by (simp add: live_ids_split [of s k] live_ids_split [of s' k] other_ids_upd opened_as_def)
  moreover have "?i \<notin> live_ids s" using system_inv_conn(4) [OF inv] by (fastforce simp: live_ids_def)
  moreover have "?i \<noteq> 0" using inv by (auto simp: system_inv_def)
  ultimately have "presence_step (presence_of s) (presence_of s')"
    using presence_step.join [of ?i "presence_of s"] l by (simp add: presence_of_def)
  then show ?thesis by simp
qed

lemma system_step_presence:
  assumes "system_step W J ovf lag s s'" and "system_inv n s"
  shows "presence_step\<^sup>*\<^sup>* (presence_of s) (presence_of s')"
  using assms(1)
proof (cases rule: system_step_kinds)
  case refuse
  then have "presence_of s' = presence_of s"
    by (auto simp: presence_of_def live_ids_def next_id_def)
  then show ?thesis by simp
next
  case (open_conn k c)
  then show ?thesis by (intro presence_open [OF assms(2)])
next
  case (session k c i c')
  then show ?thesis by (intro presence_session [OF assms(2)])
next
  case (scanner clock game args r)
  obtain evs where e: "sy_server s' = (sy_server s)\<lparr>activity_tx := activity_tx (sy_server s) @ evs\<rparr>"
    and o: "ev_socket_id ` set evs \<subseteq> {0}"
    using handle_message_owned [OF scanner(1)] by blast
  from announce_events [OF o] scanner(2) show ?thesis
    by (simp add: presence_of_def live_ids_def e)
next
  case feed
  then have "presence_of s' = presence_of s" by (simp add: presence_of_def live_ids_def)
  then show ?thesis by simp
qed

interpretation system_presence:
  simulation "system_step W J ovf lag" presence_step presence_of "\<lambda>s. \<exists>n. system_inv n s" for W J ovf lag
  by unfold_locales (blast intro: system_step_presence)

lemma presence_of_new: "presence_of system_new = presence_new"
  by (simp add: presence_of_def presence_new_def system_new_def server_new_def live_ids_def log_board_def
      latest_def)

lemma presence_run:
  assumes "(system_step W J ovf lag ^^ n) system_new s" and "n < 2 ^ 64 - 1"
  shows "presence_step\<^sup>*\<^sup>* presence_new (presence_of s)"
proof -
  have "\<exists>m. system_inv m t" if "m < n" "(system_step W J ovf lag ^^ m) system_new t" for m t
    using system_inv_reach [OF that(2)] that(1) assms(2) by fastforce
  from system_presence.sim_run [OF assms(1) this] show ?thesis by (simp add: presence_of_new)
qed

lemma bridge_board:
  "total_lib J \<Longrightarrow> last_msgs (fold (feed_event J) (activity_tx (sy_server s)) bridge_new) i \<noteq> None
    \<longleftrightarrow> i \<in> dom (board (presence_of s))"
  unfolding fold_feed_event
  by (auto simp: feed_all_def bridge_new_def fold_latest presence_of_def log_board_def bind_eq_Some_conv)

text \<open>
  Claim C1. The program implements the presence board. Every run of fewer than \<open>2 ^ 64 - 1\<close> steps is, seen
  through the latest event of each socket and the set of open sessions, a run of the board: a session joins
  under a fresh id, only a participant's own activity changes, and leaving clears it. Hence there is never
  an activity of anyone but the scanner and the sessions that are open; and a bridge that has processed
  the log keeps a message for exactly the sockets with an activity on the board.
\<close>

theorem system_refines_presence:
  assumes "(system_step W J ovf lag ^^ n) system_new s" and "n < 2 ^ 64 - 1"
  shows "presence_step\<^sup>*\<^sup>* presence_new (presence_of s)
    \<and> dom (board (presence_of s)) \<subseteq> insert 0 (live (presence_of s))
    \<and> (total_lib J \<longrightarrow>
        dom (last_msgs (fold (feed_event J) (activity_tx (sy_server s)) bridge_new)) = dom (board (presence_of s)))"
  using presence_run [OF assms] presence_inv [OF presence_run [OF assms]] bridge_board [of J s] by blast

theorem system_refines_presence_witness:
  "\<exists>s :: system. 1 \<in> live (presence_of s) \<and> 2 \<in> live (presence_of s)
    \<and> presence_step\<^sup>*\<^sup>* presence_new (presence_of s)"
proof -
  obtain s c d where r: "(system_step sample_wire2 ordered_lib True False ^^ 2) system_new s"
    and s: "sy_conns s 0 = Some (WsConn c)" "wc_open c" "wc_socket_id c = 1"
      "sy_conns s 1 = Some (WsConn d)" "wc_open d" "wc_socket_id d = 2"
    by (rule two_sessions)
  have "(2 :: nat) < 2 ^ 64 - 1" by simp
  from system_refines_presence [OF r this] live_idsI [OF s(1)] live_idsI [OF s(4)] s show ?thesis
    by (intro exI [of _ s]) (simp add: presence_of_def)
qed

end
