(* ===== verification/Watch.thy ===== *)
theory Watch
  imports System
begin

text \<open>
  The running program with its bridge clients, \<open>handle_client\<close> of \<open>src/bridge.rs\<close> composed with the system, at
  the grain of single accesses to the shared map: the feed updates \<open>last_msgs\<close> in one step and broadcasts
  in the next, and a client collects its snapshot entry by entry, while sessions, scanner, feed and other
  clients go on. A client is told the snapshot and then every message since it subscribed.
\<close>

section \<open>The feed in two steps\<close>

definition feed_take :: "json_lib \<Rightarrow> activity_event \<Rightarrow> bridge_state \<Rightarrow> bridge_state \<times> str option" where
  "feed_take J event st =
     (case jl_to_string J (bridge_msg J event) of
        None \<Rightarrow> (st, None)
      | Some js \<Rightarrow>
          (st\<lparr>last_msgs := (case ev_activity event of
              None \<Rightarrow> (last_msgs st)(ev_socket_id event := None)
            | Some _ \<Rightarrow> (last_msgs st)(ev_socket_id event \<mapsto> js))\<rparr>, Some js))"

definition feed_send :: "str \<Rightarrow> bridge_state \<Rightarrow> bridge_state" where
  "feed_send js st = st\<lparr>br_tx := br_tx st @ [js]\<rparr>"

lemma feed_event_parts:
  "feed_event J ev st = (case feed_take J ev st of (st1, None) \<Rightarrow> st1 | (st1, Some js) \<Rightarrow> feed_send js st1)"
  by (simp add: feed_event_def feed_take_def feed_send_def Let_def split: option.split)


section \<open>Clients in the running program\<close>








text \<open>Uninterrupted, the collection is \<open>take_snapshot\<close>.\<close>

lemma map_filter_graph: "List.map_filter m keys = map snd (List.map_filter (\<lambda>i. map_option (Pair i) (m i)) keys)"
  by (induction keys) (simp_all add: map_filter_simps split: option.split)

lemma collect_snapshot:
  "(\<lambda>(got, c). c\<lparr>cl_queue := map snd got\<rparr>) (List.map_filter (\<lambda>i. map_option (Pair i) (last_msgs st i)) keys, c)
    = take_snapshot keys st c"
  by (simp add: take_snapshot_def flip: map_filter_graph)

section \<open>The feed\<close>











section \<open>What a client has been told\<close>









section \<open>The steps of a client\<close>






section \<open>The invariant\<close>











section \<open>Convergence\<close>




section \<open>Reading on, also after lagging\<close>















end
