(* ===== verification/Server_Typing.thy ===== *)
theory Server_Typing
  imports Server_Steps
begin

text \<open>
  The type invariant of JSON values (an object never has a key twice) is kept by \<open>handle_message\<close>: what is
  broadcast is again a value that \<open>serde_json\<close> can hold.
\<close>

context json_library
begin

lemma wf_insert:
  assumes "wf_json (JObject m)" and "wf_json v"
  shows "wf_json (JObject (jl_insert J k v m))"
proof -
  have d: "distinct_keys m" using assms(1) by simp
  have "wf_json w" if "(k', w) \<in> set (jl_insert J k v m)" for k' w
  proof -
    have "map_of (jl_insert J k v m) k' = Some w" using that distinct_insert [OF d] by simp
    then have "(k' = k \<and> w = v) \<or> map_of m k' = Some w"
      by (auto simp: map_of_insert [OF d] split: if_splits)
    then show ?thesis using assms by (auto simp: list_all_iff dest: map_of_SomeD)
  qed
  then show ?thesis using distinct_insert [OF d] by (auto simp: list_all_iff)
qed

lemma wf_insert_all:
  "wf_json (JObject m) \<Longrightarrow> list_all (\<lambda>e. wf_json (snd e)) kvs \<Longrightarrow> wf_json (JObject (insert_all J kvs m))"
proof (induction kvs arbitrary: m)
  case (Cons e kvs)
  then show ?case using wf_insert by (cases e) (simp del: wf_json.simps)
qed simp

lemma wf_map_buttons:
  assumes "wf_json (JObject act)" and "map_buttons J act = (labels, metadata)"
  shows "(case labels of None \<Rightarrow> True | Some ls \<Rightarrow> list_all wf_json ls) \<and> wf_json (JObject metadata)"
proof -
  have "list_all wf_json (the_buttons act)"
  proof (cases "Option.bind (map_of act ''buttons'') as_array")
    case (Some bs)
    then obtain v where v: "map_of act ''buttons'' = Some v" "as_array v = Some bs"
      by (auto simp: bind_eq_Some_conv)
    then have "wf_json v" using assms(1) wf_json_get [of "JObject act" "''buttons''" v] by simp
    with v Some show ?thesis by (cases v) (auto simp: the_buttons_def)
  qed (simp add: the_buttons_def)
  then have "list_all wf_json (labels_of (the_buttons act))" "list_all wf_json (urls_of (the_buttons act))"
    by (auto simp: labels_of_def urls_of_def List.map_filter_def list_all_iff intro: wf_json_get)
  moreover have "wf_json (JObject (jl_insert J ''button_urls'' (JArray us) []))" if "list_all wf_json us" for us
    using wf_insert [of "[]" "JArray us"] that by simp
  ultimately show ?thesis using assms(2) by (auto simp: map_buttons_eq split: if_splits)
qed

lemma wf_convert_field:
  assumes "wf_json (JObject ts)" and "convert_field J ovf now f ts = Ret ts'"
  shows "wf_json (JObject ts')"
proof -
  have "wf_json (JObject (jl_insert J f (json_i64 ms) ts))" for ms
    by (rule wf_insert [OF assms(1)]) (simp add: json_i64_def)
  with assms show ?thesis by (auto simp: convert_field_def exec_simps simp del: wf_json.simps split: option.splits)
qed

lemma wf_update:
  assumes "wf_json (JObject m)" and "wf_json v"
  shows "wf_json (JObject (AList.update k v m))"
proof -
  have "set (AList.update k v m) \<subseteq> insert (k, v) (set m)"
    by (induction m) auto
  then show ?thesis using assms by (auto simp: list_all_iff distinct_update)
qed

lemma wf_convert_timestamps:
  assumes "wf_json (JObject act)" and "convert_timestamps J ovf clock act = Ret c"
  shows "wf_json (JObject c)"
proof (cases "Option.bind (map_of act ''timestamps'') as_object")
  case (Some ts)
  then obtain v where v: "map_of act ''timestamps'' = Some v" "as_object v = Some ts"
    by (auto simp: bind_eq_Some_conv)
  then have "wf_json v" using assms(1) wf_json_get [of "JObject act" "''timestamps''" v] by simp
  with v have t: "wf_json (JObject ts)" by (cases v) auto
  obtain t1 t2 where t1: "convert_field J ovf (fst clock) ''start'' ts = Ret t1"
    and t2: "convert_field J ovf (snd clock) ''end'' t1 = Ret t2"
    and c: "c = AList.update ''timestamps'' (JObject t2) act"
    using assms(2) by (auto simp: convert_timestamps_def Some exec_simps)
  have "wf_json (JObject t2)" by (rule wf_convert_field [OF wf_convert_field [OF t t1] t2])
  from wf_update [OF assms(1) this] show ?thesis by (simp only: c)
qed (use assms in \<open>simp add: convert_timestamps_def\<close>)

lemma wf_build_full:
  assumes "wf_json (JObject act)" and "wf_json (JObject metadata)"
    and "case labels of None \<Rightarrow> True | Some ls \<Rightarrow> list_all wf_json ls"
  shows "wf_json (JObject (build_full J client_id act labels metadata))"
proof -
  have "wf_json (JObject (insert_all J (base_fields client_id metadata flags) []))" for flags
    by (rule wf_insert_all) (use assms(2) in \<open>simp_all add: base_fields_def json_u32_def json_u64_def\<close>)
  then have "wf_json (JObject (insert_all J act (insert_all J (base_fields client_id metadata flags) [])))" for flags
    by (rule wf_insert_all) (use assms(1) in simp)
  then show ?thesis
    using assms(3) wf_insert [where v = "JArray _"]
    by (auto simp: build_full_def Let_def simp del: wf_json.simps(2) split: option.split)
qed

lemma wf_set_activity:
  assumes "wf_json (case msg_args msg of Some a \<Rightarrow> a | None \<Rightarrow> JNull)"
    and "set_activity J ovf clock socket_id client_id msg st = Ret (r, st')"
  obtains ev where "st' = send_activity ev st"
    and "case ev_activity ev of None \<Rightarrow> True | Some a \<Rightarrow> wf_json a \<and> as_object a \<noteq> None"
proof (cases "the_activity msg = None \<or> the_activity msg = Some JNull")
  case True
  with assms(2) that show thesis by (auto simp: set_activity_clear)
next
  case False
  then obtain a where a: "the_activity msg = Some a" "a \<noteq> JNull" by auto
  let ?act = "case as_object a of Some m \<Rightarrow> m | None \<Rightarrow> []"
  have "wf_json a" using wf_json_get [OF assms(1)] a(1) by (simp add: the_activity_def)
  then have w: "wf_json (JObject ?act)" by (cases a) auto
  obtain labels metadata where b: "map_buttons J ?act = (labels, metadata)" by fastforce
  have "\<exists>c. convert_timestamps J ovf clock ?act = Ret c"
    using assms(2) a b
    by (cases "convert_timestamps J ovf clock ?act"; cases a)
      (auto simp: set_activity_def the_activity_def Let_def)
  then obtain c where c: "convert_timestamps J ovf clock ?act = Ret c" by blast
  have "wf_json (JObject (build_full J client_id c labels metadata))"
    using wf_build_full [OF wf_convert_timestamps [OF w c]] wf_map_buttons [OF w b] by blast
  note full = this
  have "st' = send_activity
      \<lparr>ev_activity = Some (JObject (build_full J client_id c labels metadata)), ev_pid = msg_pid msg,
       ev_socket_id = socket_id\<rparr> st"
    using set_activity_some [OF a refl c] b assms(2) by simp
  then show thesis by (rule that) (simp add: full del: wf_json.simps)
qed

end

text \<open>
  When the arguments of a message are a value \<open>serde_json\<close> can produce (no object with a key twice), so is
  the activity of every event it causes, and that activity is an object, whatever the clocks.
\<close>

definition event_typed :: "activity_event \<Rightarrow> bool" where
  "event_typed ev \<longleftrightarrow> (case ev_activity ev of None \<Rightarrow> True | Some a \<Rightarrow> wf_json a \<and> as_object a \<noteq> None)"

lemma broadcast_well_typed:
  assumes "json_library J" and "wf_json (case msg_args msg of Some a \<Rightarrow> a | None \<Rightarrow> JNull)"
    and "handle_message J ovf clock socket_id client_id msg st = Ret (r, st')"
  shows "\<exists>evs. activity_tx st' = activity_tx st @ evs
    \<and> list_all event_typed evs"
proof (cases "msg_cmd msg = ''SET_ACTIVITY''")
  case True
  then have "set_activity J ovf clock socket_id client_id msg st = Ret (r, st')"
    using assms(3) by (simp add: handle_message_def)
  from json_library.wf_set_activity [OF assms(1,2) this] obtain ev where "st' = send_activity ev st"
    and "case ev_activity ev of None \<Rightarrow> True | Some a \<Rightarrow> wf_json a \<and> as_object a \<noteq> None" .
  then show ?thesis by (intro exI [of _ "[ev]"]) (simp add: send_activity_def event_typed_def)
next
  case False
  with assms(3) have "st' = st" by (auto simp: handle_message_def split: if_splits)
  then show ?thesis by simp
qed

end
