(* ===== verification/System_Typing.thy ===== *)
theory System_Typing
  imports System Server_Typing
begin

text \<open>
  Two properties of the running program that follow from its parts: no input makes a step of a session panic,
  and what reaches a bridge client is typed.
\<close>

section \<open>No input makes a step of a session panic\<close>

abbreviation clocks_ok :: "i64 \<times> i64 \<Rightarrow> bool" where
  "clocks_ok clock \<equiv> clock_ok (fst clock) \<and> clock_ok (snd clock)"

fun input_clocks_ok :: "conn_input \<Rightarrow> bool" where
  "input_clocks_ok (IpcInput (PollRead clock _)) = clocks_ok clock"
| "input_clocks_ok (WsInput (WsIn _ clock)) = clocks_ok clock"
| "input_clocks_ok _ = True"

definition returns :: "'a exec \<Rightarrow> bool" where
  "returns m \<longleftrightarrow> m \<noteq> Panic"

lemma returns_Ret [simp]: "returns (Ret x)" "\<not> returns Panic"
  by (simp_all add: returns_def)

lemma returnsE: "returns m \<Longrightarrow> (\<And>x. m = Ret x \<Longrightarrow> thesis) \<Longrightarrow> thesis"
  by (cases m) simp_all

lemma returns_map [simp]: "returns (exec_map f m) = returns m"
  by (cases m) simp_all

lemma returns_message:
  "clocks_ok clock \<Longrightarrow> returns (handle_message J ovf clock i client_id msg st)"
  using set_activity_effect [of clock J ovf i client_id msg st] by (auto simp: handle_message_def)

lemma returns_dispatch:
  assumes "clocks_ok clock"
  shows "returns (dispatch_rpc W J ovf clock i client_id body st)"
proof (cases "wl_rpc W body")
  case (Some msg)
  then show ?thesis
    using returns_message [OF assms] by (simp add: dispatch_rpc_def)
qed (simp add: dispatch_rpc_def)

lemma returns_ipc_frame: "clocks_ok clock \<Longrightarrow> returns (ipc_frame W J ovf clock write_ok f c st)"
  by (simp add: ipc_frame_def returns_dispatch split: option.split ipc_opcode.split)

lemma returns_ipc_step: "input_clocks_ok (IpcInput i) \<Longrightarrow> returns (ipc_step W J ovf i (c, st))"
  by (cases i) (simp_all add: Let_def returns_ipc_frame split: option.split prod.split)

lemma returns_ws_step: "input_clocks_ok (WsInput i) \<Longrightarrow> returns (ws_step W J ovf i (c, st))"
proof (cases i)
  case (WsIn m clock)
  assume "input_clocks_ok (WsInput i)"
  with WsIn show ?thesis by (cases m) (simp_all add: returns_dispatch)
qed (simp split: option.split prod.split)

lemma returns_conn_step:
  assumes "input_clocks_ok i"
  shows "returns (conn_step W J ovf i (c, st))"
proof (cases i; cases c)
  fix j d assume "i = IpcInput j" "c = IpcConn d"
  with assms show ?thesis by (simp add: returns_ipc_step del: ipc_step.simps)
next
  fix j d assume "i = WsInput j" "c = WsConn d"
  with assms show ?thesis by (simp add: returns_ws_step del: ws_step.simps)
qed simp_all

text \<open>
  No step of a session panics. Whatever bytes, frames and ends of stream a client
  produces, in whatever order its session task processes them and whatever the server state has become,
  every step of the session returns while the clock is below \<open>10 ^ 18\<close> milliseconds, also with overflow
  checks; so the session stays able to run the clean-up that its end requires.
\<close>

theorem sessions_never_panic:
  assumes "list_all input_clocks_ok is"
  shows "\<exists>c' st'. run_steps (conn_step W J ovf) is (c, st) = Ret (c', st')"
  using assms
proof (induction "is" arbitrary: c st)
  case (Cons i "is")
  from Cons.prems have "returns (conn_step W J ovf i (c, st))" by (simp add: returns_conn_step)
  then obtain c1 st1 where "conn_step W J ovf i (c, st) = Ret (c1, st1)" by (elim returnsE) auto
  with Cons show ?case by simp
qed simp

theorem sessions_never_panic_witness:
  "\<exists>c' st'. run_steps (conn_step sample_wire2 ordered_lib True)
    [WsInput (WsIn (WsText []) sample_clock), WsInput (WsIn WsClose sample_clock)]
    (WsConn \<lparr>wc_socket_id = 1, wc_client_id = ''42'', wc_rx = 0, wc_sent = [], wc_open = True\<rparr>, server_new)
    = Ret (c', st')"
  by (rule sessions_never_panic) simp

section \<open>What reaches a bridge client is typed\<close>

text \<open>The promise of the decoder: the arguments of a message are a JSON value.\<close>

definition wire_typed :: "wire_lib \<Rightarrow> bool" where
  "wire_typed W \<longleftrightarrow>
     (\<forall>body msg. wl_rpc W body = Some msg \<longrightarrow> wf_json (case msg_args msg of Some a \<Rightarrow> a | None \<Rightarrow> JNull))"

definition log_typed :: "server_state \<Rightarrow> bool" where
  "log_typed st \<longleftrightarrow> list_all event_typed (activity_tx st)"

lemma log_typed_message:
  assumes "json_library J" and "wf_json (case msg_args msg of Some a \<Rightarrow> a | None \<Rightarrow> JNull)"
    and "handle_message J ovf clock i client_id msg st = Ret (r, st')" and "log_typed st"
  shows "log_typed st'"
  using broadcast_well_typed [OF assms(1-3)] assms(4) by (auto simp: log_typed_def)

lemma log_typed_simps [simp]:
  "log_typed (send_to_socket i s st) = log_typed st"
  "log_typed (drop_receiver rx st) = log_typed st"
  "log_typed (unregister_socket i st) = log_typed st"
  by (simp_all add: log_typed_def send_to_socket_log drop_receiver_log unregister_socket_def
      send_activity_def event_typed_def)

lemma log_typed_recv: "try_recv rx st = (r, st') \<Longrightarrow> log_typed st' = log_typed st"
  by (simp add: log_typed_def try_recv_log)

lemma log_typed_dispatch:
  assumes "json_library J" and "wire_typed W" and "dispatch_rpc W J ovf clock i client_id body st = Ret st'"
    and "log_typed st"
  shows "log_typed st'"
proof (cases "wl_rpc W body")
  case (Some msg)
  with assms(3) obtain r st1 where h: "handle_message J ovf clock i client_id msg st = Ret (r, st1)"
    and st': "st' = (case r of None \<Rightarrow> st1 | Some resp \<Rightarrow> send_to_socket i resp st1)"
    by (auto simp: dispatch_rpc_def exec_simps)
  have "log_typed st1"
    using log_typed_message [OF assms(1) _ h assms(4)] assms(2) Some by (simp add: wire_typed_def)
  then show ?thesis by (simp add: st' split: option.split)
qed (use assms in \<open>simp add: dispatch_rpc_def\<close>)

lemma log_typed_ipc_frame:
  assumes "json_library J" and "wire_typed W" and "ipc_frame W J ovf clock wok f c st = Ret (c', st')"
    and "log_typed st"
  shows "log_typed st'"
  using assms(3,4) log_typed_dispatch [OF assms(1,2), of ovf clock]
  by (auto simp: ipc_frame_def exec_simps ipc_end_def split: option.splits ipc_opcode.splits if_splits)

lemma log_typed_ipc_step:
  assumes "json_library J" and "wire_typed W" and "ipc_step W J ovf i (c, st) = Ret (c', st')" and "log_typed st"
  shows "log_typed st'"
proof (cases "ic_open c"; cases i)
  fix clk wok assume i: "ic_open c" "i = PollRead clk wok"
  obtain f r where fr: "reader_step RPoll (ic_reader c) = (f, r)" by (cases "reader_step RPoll (ic_reader c)")
  show ?thesis
    using assms(3,4) i fr log_typed_ipc_frame [OF assms(1,2), of ovf clk wok _ "c\<lparr>ic_reader := r\<rparr>" st c' st']
    by (cases f) (auto simp: ipc_end_def Let_def split: if_splits)
next
  fix wok assume i: "ic_open c" "i = PollOut wok"
  obtain m st1 where m: "try_recv (ic_rx c) st = (m, st1)" by (cases "try_recv (ic_rx c) st")
  show ?thesis
    using log_typed_recv [OF m] assms(3,4) i m by (cases m) (auto simp: ipc_end_def Let_def split: if_splits)
qed (use assms(3,4) in simp_all)

lemma log_typed_ws_step:
  assumes "json_library J" and "wire_typed W" and "ws_step W J ovf i (c, st) = Ret (c', st')" and "log_typed st"
  shows "log_typed st'"
proof (cases "wc_open c"; cases i)
  fix m clk assume i: "wc_open c" "i = WsIn m clk"
  then show ?thesis
    using assms(3,4) log_typed_dispatch [OF assms(1,2), of ovf clk] by (cases m) (auto simp: ws_end_def exec_simps)
next
  fix wok assume i: "wc_open c" "i = WsOut wok"
  obtain m st1 where m: "try_recv (wc_rx c) st = (m, st1)" by (cases "try_recv (wc_rx c) st")
  show ?thesis
    using log_typed_recv [OF m] assms(3,4) i m by (cases m) (auto simp: ws_end_def split: if_splits)
qed (use assms(3,4) in simp_all)

lemma log_typed_conn_step:
  assumes "json_library J" and "wire_typed W" and "conn_step W J ovf i (c, st) = Ret (c', st')" and "log_typed st"
  shows "log_typed st'"
  using assms(3)
proof (cases rule: conn_step_cases)
  case (ipc j d d')
  with log_typed_ipc_step [OF assms(1,2) ipc(4) assms(4)] show ?thesis by simp
next
  case (ws j d d')
  with log_typed_ws_step [OF assms(1,2) ws(4) assms(4)] show ?thesis by simp
qed (use assms(4) in simp)

text \<open>The scanner's messages are typed as well.\<close>

context json_library
begin

lemma wf_json_obj:
  "distinct_keys kvs \<Longrightarrow> list_all (\<lambda>e. wf_json (snd e)) kvs \<Longrightarrow> wf_json (json_obj J kvs)"
  unfolding json_obj_def by (rule wf_insert_all) simp_all

lemma wf_detect_args: "wf_json (detect_args J now pid game app_name)"
  unfolding detect_args_def
  by (intro wf_json_obj) (simp_all add: json_u32_def json_i64_def wf_json_obj)

lemma wf_lost_args: "wf_json (lost_args J pid)"
  unfolding lost_args_def by (intro wf_json_obj) (simp_all add: json_u32_def)

lemma wf_bridge_msg: "event_typed ev \<Longrightarrow> wf_json (bridge_msg J ev)"
  unfolding bridge_msg_def
  by (intro wf_json_obj) (auto simp: json_u32_def event_typed_def split: option.split)

lemma bridge_msg_fields:
  "json_get (bridge_msg J ev) ''activity'' = Some (case ev_activity ev of None \<Rightarrow> JNull | Some a \<Rightarrow> a)"
  "json_get (bridge_msg J ev) ''pid'' = Some (case ev_pid ev of None \<Rightarrow> JNull | Some p \<Rightarrow> json_u32 p)"
  "json_get (bridge_msg J ev) ''socketId'' = Some (JString (dec_nat (unat (ev_socket_id ev))))"
  by (simp_all add: bridge_msg_def json_get_obj)

end

lemma set_activity_msg_args: "msg_args (set_activity_msg args) = Some args"
  by (simp add: set_activity_msg_def)

text \<open>What the bridge holds and has sent are messages of events of the log, with or without lag.\<close>

definition messages_of :: "json_lib \<Rightarrow> activity_event list \<Rightarrow> str set" where
  "messages_of J log = {js. \<exists>ev \<in> set log. jl_to_string J (bridge_msg J ev) = Some js}"

definition bridge_texts :: "bridge_state \<Rightarrow> str set" where
  "bridge_texts br = set (br_tx br) \<union> ran (last_msgs br)"

lemma feed_event_texts:
  "bridge_texts (feed_event J ev br) \<subseteq> bridge_texts br \<union> messages_of J [ev]"
  by (auto simp: feed_event_def bridge_texts_def messages_of_def ran_def Let_def
      split: option.splits if_splits)

lemma feed_step_texts:
  assumes "bridge_texts br \<subseteq> messages_of J log" and "feed_step J log (br, pos) = (br', pos')"
  shows "bridge_texts br' \<subseteq> messages_of J log"
proof (cases "recv ACTIVITY_CAPACITY log pos")
  case (Received ev p)
  then have "ev \<in> set log" by (auto simp: recv_def split: if_splits)
  then have "messages_of J [ev] \<subseteq> messages_of J log" by (auto simp: messages_of_def)
  with feed_event_texts [of J ev br] assms Received show ?thesis by (simp add: feed_step_def) blast
qed (use assms in \<open>auto simp: feed_step_def\<close>)

definition typed_inv :: "json_lib \<Rightarrow> system \<Rightarrow> bool" where
  "typed_inv J s \<longleftrightarrow> log_typed (sy_server s) \<and> bridge_texts (sy_bridge s) \<subseteq> messages_of J (activity_tx (sy_server s))"

lemma typed_inv_grow:
  assumes "typed_inv J s" and "activity_tx (sy_server s') = activity_tx (sy_server s) @ evs"
    and "log_typed (sy_server s')" and "sy_bridge s' = sy_bridge s"
  shows "typed_inv J s'"
  using assms by (auto simp: typed_inv_def messages_of_def)

lemma typed_inv_step:
  assumes J: "json_library J" and W: "wire_typed W" and step: "system_step W J ovf lag s s'" and i: "typed_inv J s"
  shows "typed_inv J s'"
proof -
  obtain evs where l: "activity_tx (sy_server s') = activity_tx (sy_server s) @ evs"
    using system_step_log [OF step] .
  note grow = typed_inv_grow [OF i l]
  have t: "log_typed (sy_server s)" using i by (simp add: typed_inv_def)
  show ?thesis
    using step
  proof cases
    case (accept_ipc k frame socket write_ok r st)
    then have "activity_tx st = activity_tx (sy_server s)"
      using ipc_handshake_cases [OF accept_ipc(3)]
      by (auto simp: opened_as_def register_socket_def open_channel_def next_id_def split: option.splits)
    with accept_ipc t show ?thesis by (intro grow) (simp_all add: accepted_def log_typed_def)
  next
    case (accept_ws k client_id write_ok r st)
    then have "activity_tx st = activity_tx (sy_server s)"
      using ws_begin_cases [OF accept_ws(3)]
      by (auto simp: opened_as_def register_socket_def open_channel_def next_id_def split: option.splits)
    with accept_ws t show ?thesis by (intro grow) (simp_all add: accepted_def log_typed_def)
  next
    case (session k c i c' st)
    then show ?thesis using log_typed_conn_step [OF J W session(3) t] by (intro grow) simp_all
  next
    case (scanner args now pid game app_name clock r st)
    have "wf_json args"
      using scanner(2) json_library.wf_detect_args [OF J] json_library.wf_lost_args [OF J] by auto
    then show ?thesis
      using log_typed_message [OF J _ scanner(3) t] scanner(1)
      by (intro grow) (simp_all add: set_activity_msg_args)
  next
    case (feed br pos)
    with feed_step_texts [OF _ feed(3)] i show ?thesis by (simp add: typed_inv_def)
  qed
qed

lemma typed_inv_reach:
  assumes "json_library J" and "wire_typed W" and "(system_step W J ovf lag)\<^sup>*\<^sup>* system_new s"
  shows "typed_inv J s"
  using assms(3)
proof (induction rule: rtranclp_induct)
  case base
  show ?case
    by (simp add: typed_inv_def log_typed_def bridge_texts_def system_new_def server_new_def bridge_new_def)
next
  case (step t u)
  then show ?case using typed_inv_step [OF assms(1,2)] by blast
qed

text \<open>
  Claim C15. What reaches a bridge client is typed. In every reachable state, with or without lag, each text
  the bridge has broadcast or holds for its snapshot is the serialisation of a JSON value, the message of
  an event of the log, with the fields \<open>activity\<close> (null or an object without duplicate keys), \<open>pid\<close> (null or
  a number) and \<open>socketId\<close> (the id in decimal), provided the RPC decoder yields JSON values.
\<close>

theorem bridge_texts_typed:
  assumes "json_library J" and "wire_typed W" and "(system_step W J ovf lag)\<^sup>*\<^sup>* system_new s"
    and "js \<in> set (br_tx (sy_bridge s)) \<union> ran (last_msgs (sy_bridge s))"
  shows "\<exists>ev \<in> set (activity_tx (sy_server s)). let v = bridge_msg J ev in
    jl_to_string J v = Some js \<and> wf_json v
    \<and> (json_get v ''activity'' = Some JNull
        \<or> (\<exists>m. ev_activity ev = Some (JObject m) \<and> json_get v ''activity'' = Some (JObject m)))
    \<and> json_get v ''pid'' = Some (case ev_pid ev of None \<Rightarrow> JNull | Some p \<Rightarrow> json_u32 p)
    \<and> json_get v ''socketId'' = Some (JString (dec_nat (unat (ev_socket_id ev))))"
proof -
  have "typed_inv J s" by (rule typed_inv_reach [OF assms(1-3)])
  then obtain ev where e: "ev \<in> set (activity_tx (sy_server s))" "jl_to_string J (bridge_msg J ev) = Some js"
    and t: "event_typed ev"
    using assms(4) by (auto simp: typed_inv_def bridge_texts_def messages_of_def log_typed_def list_all_iff)
  have "ev_activity ev = None \<or> (\<exists>m. ev_activity ev = Some (JObject m))"
    using t by (cases "ev_activity ev") (auto simp: event_typed_def elim: as_object.elims)
  then show ?thesis
    using e json_library.wf_bridge_msg [OF assms(1) t] json_library.bridge_msg_fields [OF assms(1), of ev]
    by (intro bexI [of _ ev]) (auto simp: Let_def)
qed

theorem bridge_texts_typed_witness:
  "\<exists>js v. wf_json v \<and> jl_to_string ordered_lib v = Some js
    \<and> json_get v ''socketId'' = Some (JString (dec_nat 1)) \<and> json_get v ''activity'' \<noteq> None"
proof -
  let ?step = "system_step sample_wire2 ordered_lib True False"
  obtain t ev where run: "?step\<^sup>*\<^sup>* system_new t"
    and t: "activity_tx (sy_server t) = [ev]" "sy_bridge t = bridge_new" "sy_pos t = 0"
    and e: "ev_socket_id ev = 1" "ev_activity ev \<noteq> None"
    by (rule one_announcement)
  let ?u = "t\<lparr>sy_bridge := feed_all ordered_lib [ev] bridge_new, sy_pos := 1\<rparr>"
  have "?step t ?u"
    by (rule system_step.feed)
      (use t feed_step_near [of ordered_lib 0 "[ev]" bridge_new] in \<open>simp_all add: ACTIVITY_CAPACITY_def\<close>)
  with run have r: "?step\<^sup>*\<^sup>* system_new ?u" by (rule rtranclp.rtrancl_into_rtrancl)
  have w: "wire_typed sample_wire2" by (simp add: wire_typed_def sample_wire2_def sample_msg_def)
  have js: "payload ordered_lib ev \<in> set (br_tx (sy_bridge ?u)) \<union> ran (last_msgs (sy_bridge ?u))"
    by (simp add: feed_all_def)
  show ?thesis
    using bridge_texts_typed [OF ordered_json.json_library_axioms w r js] e by (auto simp: t Let_def)
qed

end
