(* ===== verification/Connection.thy ===== *)
theory Connection
  imports System_Typing
begin

text \<open>
  A connection task from the first byte to its end: \<open>handle_ipc_io\<close> of \<open>src/transports/ipc.rs\<close> and
  \<open>handle_connection\<close> of \<open>src/transports/websocket.rs\<close>, handshake and loop composed, with anything happening
  to the server between two turns of the loop. Exactly when such a task panics.
\<close>

section \<open>The tasks\<close>

text \<open>A turn of the loop: what the other tasks did to the server before it, and the input.\<close>

fun run_turns ::
  "('i \<Rightarrow> 'c \<times> server_state \<Rightarrow> ('c \<times> server_state) exec) \<Rightarrow> ((server_state \<Rightarrow> server_state) \<times> 'i) list
   \<Rightarrow> 'c \<times> server_state \<Rightarrow> ('c \<times> server_state) exec" where
  "run_turns step [] (c, st) = Ret (c, st)"
| "run_turns step ((others, i) # turns) (c, st) = exec_bind (step i (c, others st)) (run_turns step turns)"

text \<open>
  \<open>input\<close> is what has arrived when the first \<open>read_frame\<close> ends, with a frame or with the end of the stream.
  The result is the connection, \<open>None\<close> when the task ended in the handshake.
\<close>

definition handle_ipc_io ::
  "wire_lib \<Rightarrow> json_lib \<Rightarrow> bool \<Rightarrow> u8 list \<Rightarrow> bool \<Rightarrow> nat \<Rightarrow> ((server_state \<Rightarrow> server_state) \<times> ipc_input) list
   \<Rightarrow> server_state \<Rightarrow> (ipc_conn option \<times> server_state) exec" where
  "handle_ipc_io W J ovf input write_ok rx turns st =
     (let (frame, socket) = (case read_frame input of Inl _ \<Rightarrow> (None, []) | Inr (f, rest) \<Rightarrow> (Some f, rest))
      in case ipc_handshake W frame socket write_ok rx st of
           (None, st1) \<Rightarrow> Ret (None, st1)
         | (Some c, st1) \<Rightarrow> exec_map (\<lambda>(c1, st2). (Some c1, st2)) (run_turns (ipc_step W J ovf) turns (c, st1)))"

definition handle_connection ::
  "ws_lib \<Rightarrow> wire_lib \<Rightarrow> json_lib \<Rightarrow> bool \<Rightarrow> bool \<Rightarrow> u8 list option list \<Rightarrow> bool \<Rightarrow> nat
   \<Rightarrow> ((server_state \<Rightarrow> server_state) \<times> ws_input) list \<Rightarrow> server_state \<Rightarrow> (ws_conn option \<times> server_state) exec" where
  "handle_connection V W J ovf reply_ok reads write_ok rx turns st =
     exec_bind (do_handshake V reply_ok [] reads) (\<lambda>(written, r).
       case r of
         Inl _ \<Rightarrow> Ret (None, st)
       | Inr client_id \<Rightarrow>
           (case ws_begin client_id write_ok rx st of
              (None, st1) \<Rightarrow> Ret (None, st1)
            | (Some c, st1) \<Rightarrow>
                exec_map (\<lambda>(c1, st2). (Some c1, st2)) (run_turns (ws_step W J ovf) turns (c, st1))))"

section \<open>When they panic\<close>

lemma returns_turns:
  assumes "\<And>i c st. P i \<Longrightarrow> returns (step i (c, st))"
  shows "list_all (\<lambda>t. P (snd t)) turns \<Longrightarrow> returns (run_turns step turns s)"
proof (induction turns arbitrary: s)
  case Nil
  then show ?case by (cases s) simp
next
  case (Cons t turns)
  obtain others i c st where t: "t = (others, i)" "s = (c, st)" by (cases t; cases s)
  obtain s1 where "step i (c, others st) = Ret s1"
    using assms [of i c "others st"] Cons.prems by (auto simp: t elim: returnsE)
  with Cons show ?case by (simp add: t)
qed

lemma returns_handle_ipc_io:
  assumes "list_all (\<lambda>t. input_clocks_ok (IpcInput (snd t))) turns"
  shows "returns (handle_ipc_io W J ovf input write_ok rx turns st)"
  using returns_turns [where P = "\<lambda>i. input_clocks_ok (IpcInput i)" and step = "ipc_step W J ovf", OF returns_ipc_step assms]
  by (auto simp: handle_ipc_io_def Let_def split: prod.split option.split)

lemma returns_handle_connection:
  assumes "list_all (\<lambda>t. input_clocks_ok (WsInput (snd t))) turns"
  shows "returns (handle_connection V W J ovf reply_ok reads write_ok rx turns st)
    \<longleftrightarrow> returns (do_handshake V reply_ok [] reads)"
  using returns_turns [where P = "\<lambda>i. input_clocks_ok (WsInput i)" and step = "ws_step W J ovf", OF returns_ws_step assms]
  by (cases "do_handshake V reply_ok [] reads")
    (auto simp: handle_connection_def split: prod.split sum.split option.split)

text \<open>
  Claim C14. When a connection task panics. While the clock is below \<open>10 ^ 18\<close> milliseconds and whatever the
  other tasks do to the server meanwhile, an IPC task never panics, on any bytes, frames and ends of stream
  in any order, also with overflow checks. A WebSocket task panics in one case only: in its handshake,
  before it has an id, when the first complete request it has read is within the limit, asks for version 1
  and encoding json, and \<open>extract_origin\<close> panics on it. After the upgrade no input makes it panic.
\<close>

theorem connection_panics_iff:
  assumes "list_all (\<lambda>t. input_clocks_ok (IpcInput (snd t))) ipc_turns"
    and "list_all (\<lambda>t. input_clocks_ok (WsInput (snd t))) ws_turns"
  shows "handle_ipc_io W J ovf input write_ok rx ipc_turns st \<noteq> Panic
    \<and> (handle_connection V W J ovf reply_ok reads write_ok rx ws_turns st = Panic \<longleftrightarrow>
        (\<exists>request key client_id. decided V [] reads request key
           \<and> parse_query request = (Some 1, Some ''json'', client_id) \<and> extract_origin request = Panic))"
proof -
  have "handle_connection V W J ovf reply_ok reads write_ok rx ws_turns st = Panic
      \<longleftrightarrow> do_handshake V reply_ok [] reads = Panic"
    using returns_handle_connection [OF assms(2), of V W J ovf reply_ok reads write_ok rx st]
    by (simp add: returns_def)
  moreover have "handle_ipc_io W J ovf input write_ok rx ipc_turns st \<noteq> Panic"
    using returns_handle_ipc_io [OF assms(1), of W J ovf input write_ok rx st] by (simp add: returns_def)
  ultimately show ?thesis unfolding do_handshake_Panic_iff check_request_Panic_iff by blast
qed

text \<open>A request that makes the task panic: a header name with a two-byte character at bytes 6 and 7.\<close>

definition poison_request :: str where
  "poison_request = ''GET /?v=1&encoding=json HTTP/1.1'' @ crlf @ ''x-note'' @ [CHR 0xC3, CHR 0xA9] @ '': 1'' @ crlf @ crlf"

theorem connection_panics_iff_witness:
  "handle_connection sample_ws sample_wire2 ordered_lib True True [Some (as_bytes poison_request)] True 0
     [(id, WsIn WsClose sample_clock)] server_new = Panic
   \<and> handle_ipc_io sample_wire2 ordered_lib True (as_bytes poison_request) True 0
       [(id, PollRead sample_clock True)] server_new \<noteq> Panic"
proof -
  have q: "parse_query (as_bytes poison_request) = (Some 1, Some ''json'', [])" by code_simp
  have o: "extract_origin (as_bytes poison_request) = Panic" by code_simp
  have "suffix (crlf @ crlf) poison_request" by (simp add: poison_request_def suffix_def)
  then have "suffix (as_bytes (crlf @ crlf)) (as_bytes poison_request)"
    unfolding suffix_def by (metis as_bytes_append)
  then have d: "decided sample_ws [] [Some (as_bytes poison_request)] (as_bytes poison_request) ''key''"
    by (simp add: decided_Some sample_ws_def)
      (simp add: poison_request_def crlf_def as_bytes_def MAX_WS_HANDSHAKE_BYTES_def)
  have i: "list_all (\<lambda>t. input_clocks_ok (IpcInput (snd t)))
      [(id :: server_state \<Rightarrow> server_state, PollRead sample_clock True)]"
    and w: "list_all (\<lambda>t. input_clocks_ok (WsInput (snd t)))
      [(id :: server_state \<Rightarrow> server_state, WsIn WsClose sample_clock)]" by simp_all
  from connection_panics_iff [OF i w] d q o show ?thesis by blast
qed

end
