(* ===== verification/Startup.thy ===== *)
theory Startup
  imports Session_Spec
begin

text \<open>
  Start-up, \<open>src/main.rs\<close>: the command line and the tasks it asks for; the accept loops
  of the three servers (\<open>start_ipc_server\<close>, \<open>start_ws_server\<close>, \<open>start_bridge\<close>) and of the named pipes; the cache files of
  \<open>src/process/detectable.rs\<close> on Unix.
\<close>

section \<open>The accept loops\<close>

text \<open>
  The results of successive \<open>accept\<close> calls, errors as \<open>Inl\<close>; the connections that are handed to a task, and
  for the bridge whether the loop is still running.
\<close>

fun accept_all :: "('e + 'c) list \<Rightarrow> 'c list" where
  "accept_all [] = []"
| "accept_all (Inr c # rs) = c # accept_all rs"
| "accept_all (Inl e # rs) = accept_all rs"

fun bridge_accept :: "('e + 'c) list \<Rightarrow> 'c list \<times> bool" where
  "bridge_accept [] = ([], True)"
| "bridge_accept (Inr c # rs) = (let (cs, running) = bridge_accept rs in (c # cs, running))"
| "bridge_accept (Inl e # rs) = ([], False)"

text \<open>Where a server listens and whom it serves; \<open>None\<close> when it cannot listen at all.\<close>

definition start_ipc_server ::
  "(str \<Rightarrow> str option) \<Rightarrow> (str \<Rightarrow> bool) \<Rightarrow> (str \<Rightarrow> bool) \<Rightarrow> ('e + 'c) list \<Rightarrow> (str \<times> 'c list) option" where
  "start_ipc_server env connects binds rs =
     (case fst (find_available_socket env connects binds) of
        None \<Rightarrow> None
      | Some path \<Rightarrow> Some (path, accept_all rs))"

definition start_ws_server :: "(u16 \<Rightarrow> bool) \<Rightarrow> ('e + 'c) list \<Rightarrow> (u16 \<times> 'c list) option" where
  "start_ws_server can_bind rs =
     (case scan_ports can_bind ws_ports of None \<Rightarrow> None | Some port \<Rightarrow> Some (port, accept_all rs))"

definition start_bridge :: "(u16 \<Rightarrow> bool) \<Rightarrow> u16 \<Rightarrow> ('e + 'c) list \<Rightarrow> ('c list \<times> bool) option" where
  "start_bridge can_bind port rs = (if can_bind port then Some (bridge_accept rs) else None)"

section \<open>Named pipes on Windows\<close>

definition pipe_path :: "nat \<Rightarrow> str" where
  "pipe_path n =
     [CHR 0x5C, CHR 0x5C, CHR ''.'', CHR 0x5C] @ ''pipe'' @ [CHR 0x5C] @ ''discord-ipc-'' @ dec_nat n"

fun probe_pipes :: "(str \<Rightarrow> bool) \<Rightarrow> nat list \<Rightarrow> str option" where
  "probe_pipes create_first [] = None"
| "probe_pipes create_first (n # ns) =
     (let pipe_name = pipe_path n
      in if create_first pipe_name then Some pipe_name else probe_pipes create_first ns)"

definition find_available_pipe :: "(str \<Rightarrow> bool) \<Rightarrow> str option" where
  "find_available_pipe create_first = probe_pipes create_first [0..<10]"

text \<open>
  The accept loop: a turn waits for a client (\<open>None\<close>: the wait fails), creates the next instance and only
  then hands the client to a task. Both failures end the server.
\<close>

fun pipe_accept :: "('c option \<times> bool) list \<Rightarrow> 'c list \<times> bool" where
  "pipe_accept [] = ([], True)"
| "pipe_accept ((None, created) # turns) = ([], False)"
| "pipe_accept ((Some connected, created) # turns) =
     (if created then (let (cs, running) = pipe_accept turns in (connected # cs, running))
      else ([], False))"

definition start_pipe_server ::
  "(str \<Rightarrow> bool) \<Rightarrow> ('c option \<times> bool) list \<Rightarrow> (str \<times> 'c list \<times> bool) option" where
  "start_pipe_server create_first turns =
     (case find_available_pipe create_first of
        None \<Rightarrow> None
      | Some pipe_name \<Rightarrow> Some (pipe_name, pipe_accept turns))"

section \<open>The command line and the tasks\<close>

record cli =
  cli_bridge_port :: u16
  cli_no_ipc :: bool
  cli_no_ws :: bool
  cli_no_scanner :: bool

datatype task = BridgeTask u16 | ScannerTask | IpcTask

definition spawned_tasks :: "cli \<Rightarrow> task list" where
  "spawned_tasks c =
     [BridgeTask (cli_bridge_port c)] @ (if \<not> cli_no_scanner c then [ScannerTask] else [])
     @ (if \<not> cli_no_ipc c then [IpcTask] else [])"

section \<open>The cache files\<close>

text \<open>\<open>Path::join\<close> with a relative component, and \<open>std::env::home_dir\<close> as a parameter.\<close>

definition path_join :: "str \<Rightarrow> str \<Rightarrow> str" where
  "path_join base name =
     (if base = [] then name else if last base = CHR ''/'' then base @ name else base @ ''/'' @ name)"

definition cache_dir :: "(str \<Rightarrow> str option) \<Rightarrow> str option \<Rightarrow> str" where
  "cache_dir env home =
     (let base =
        (case env ''XDG_CACHE_HOME'' of
           Some d \<Rightarrow> d
         | None \<Rightarrow> path_join (case home of Some h \<Rightarrow> h | None \<Rightarrow> ''/tmp'') ''.cache'')
      in path_join base ''dirpc'')"

definition cache_db_path :: "(str \<Rightarrow> str option) \<Rightarrow> str option \<Rightarrow> str" where
  "cache_db_path env home = path_join (cache_dir env home) ''detectable.redb''"

definition cache_fst_path :: "(str \<Rightarrow> str option) \<Rightarrow> str option \<Rightarrow> str" where
  "cache_fst_path env home = path_join (cache_dir env home) ''detectable.fst''"

definition cache_etag_path :: "(str \<Rightarrow> str option) \<Rightarrow> str option \<Rightarrow> str" where
  "cache_etag_path env home = path_join (cache_dir env home) ''detectable.etag''"

section \<open>Properties\<close>

lemma path_join_inject: "path_join base a = path_join base b \<longleftrightarrow> a = b"
  by (simp add: path_join_def)

text \<open>The database, its index and the ETag never overwrite each other, wherever the cache is.\<close>

lemma cache_files_distinct:
  "distinct [cache_db_path env home, cache_fst_path env home, cache_etag_path env home]"
  by (simp add: cache_db_path_def cache_fst_path_def cache_etag_path_def path_join_inject)

lemma accept_all_append: "accept_all (rs @ rs') = accept_all rs @ accept_all rs'"
  by (induction rs rule: accept_all.induct) simp_all

lemma bridge_accept_error:
  "bridge_accept (map Inr cs @ Inl e # rs) = (cs, False)"
  by (induction cs) simp_all

lemma accept_all_Inr [simp]: "accept_all (map Inr cs) = cs"
  by (induction cs) simp_all

text \<open>
  A client that connects when the next pipe instance cannot be created is dropped unserved, and the server
  ends; the clients before it are served.
\<close>

lemma pipe_accept_failed_instance:
  "pipe_accept (map (\<lambda>c. (Some c, True)) cs @ (Some c, False) # turns) = (cs, False)"
  by (induction cs) simp_all

lemma find_available_pipe_Some:
  assumes "find_available_pipe create_first = Some p"
  shows "create_first p \<and> (\<exists>n < 10. p = pipe_path n \<and> (\<forall>m < n. \<not> create_first (pipe_path m)))"
proof -
  have "\<exists>i < length ns. p = pipe_path (ns ! i) \<and> create_first p \<and> (\<forall>j < i. \<not> create_first (pipe_path (ns ! j)))"
    if "probe_pipes create_first ns = Some p" for ns
    using that
  proof (induction ns)
    case (Cons n ns)
    show ?case
    proof (cases "create_first (pipe_path n)")
      case True
      with Cons.prems show ?thesis by (intro exI [of _ 0]) simp
    next
      case False
      with Cons obtain i where "i < length ns" "p = pipe_path (ns ! i)" "create_first p"
        "\<forall>j < i. \<not> create_first (pipe_path (ns ! j))" by (auto simp: Let_def)
      with False show ?thesis by (intro exI [of _ "Suc i"]) (auto simp: less_Suc_eq_0_disj)
    qed
  qed simp
  from this [of "[0..<10]"] assms obtain i where i: "i < 10" "p = pipe_path ([0..<10] ! i)" "create_first p"
    "\<forall>j < i. \<not> create_first (pipe_path ([0..<10] ! j))"
    by (auto simp: find_available_pipe_def simp del: upt_Suc)
  then have "\<forall>m < i. \<not> create_first (pipe_path m)" "p = pipe_path i"
    by (simp_all del: upt_Suc)
  with i(1,3) show ?thesis by blast
qed

lemma scan_ports_None_iff: "scan_ports can_bind ports = None \<longleftrightarrow> (\<forall>p \<in> set ports. \<not> can_bind p)"
  by (induction ports) auto

text \<open>The port range as the code writes it, \<open>6463u16..=6472\<close>.\<close>

lemma set_ws_ports: "set ws_ports = {p. 6463 \<le> p \<and> p \<le> 6472}"
proof -
  have "p \<in> set ws_ports" if "6463 \<le> p" "p \<le> 6472" for p :: u16
  proof -
    have "6463 \<le> unat p" "unat p \<le> 6472" using that by (simp_all add: word_le_nat_alt)
    then have "unat p \<in> {6463, 6464, 6465, 6466, 6467, 6468, 6469, 6470, 6471, 6472}"
      by (simp; presburger)
    then have "p \<in> word_of_nat ` {6463, 6464, 6465, 6466, 6467, 6468, 6469, 6470, 6471, 6472}"
      by (intro image_eqI [where x = "unat p"]) simp_all
    then show ?thesis by (simp add: ws_ports_def)
  qed
  then show ?thesis by (auto simp: ws_ports_def)
qed

end
