(* ===== verification/Scanner_Spec.thy ===== *)
theory Scanner_Spec
  imports Scanner
begin

text \<open>
  What one scan does: \<open>active\<close> becomes exactly the detected games, the broadcast gets one event per new or
  changed game followed by one per lost game, a second identical scan is silent, and replaying the events
  by process id reproduces \<open>active\<close>. The lemmas are proved in the locale \<open>scanner_env\<close>, for any matcher
  that does not panic on the paths at hand; the properties instantiate it with the database.
\<close>

section \<open>Events as a consumer sees them\<close>

text \<open>Socket, process id and, unless the activity was cleared, the \<open>application_id\<close> field.\<close>

type_synonym summary = "u64 \<times> u32 option \<times> json option option"

definition ev_summary :: "activity_event \<Rightarrow> summary" where
  "ev_summary ev =
     (ev_socket_id ev, ev_pid ev, map_option (\<lambda>a. json_get a ''application_id'') (ev_activity ev))"

definition detected :: "u32 \<Rightarrow> str \<Rightarrow> summary" where
  "detected pid app_id = (0, Some pid, Some (Some (JString app_id)))"

definition lost :: "u32 \<Rightarrow> summary" where
  "lost pid = (0, Some pid, None)"

definition push_events :: "activity_event list \<Rightarrow> server_state \<Rightarrow> server_state" where
  "push_events evs st = st\<lparr>activity_tx := activity_tx st @ evs\<rparr>"

lemma push_events_Nil [simp]: "push_events [] st = st"
  by (simp add: push_events_def)

lemma push_events_append [simp]: "push_events evs2 (push_events evs1 st) = push_events (evs1 @ evs2) st"
  by (simp add: push_events_def)

lemma send_activity_push: "send_activity ev st = push_events [ev] st"
  by (simp add: send_activity_def push_events_def)

section \<open>The scan on the level of process ids\<close>

definition found :: "matcher \<Rightarrow> process_info \<Rightarrow> (str \<times> str) option" where
  "found mp p = (case mp (pi_path p) (pi_args p) of Ret r \<Rightarrow> r | Panic \<Rightarrow> None)"

fun track :: "matcher \<Rightarrow> process_info list \<Rightarrow> active_map \<Rightarrow> active_map" where
  "track mp [] active = active"
| "track mp (p # ps) active =
     track mp ps (case found mp p of None \<Rightarrow> active | Some (i, n) \<Rightarrow> AList.update (pi_pid p) i active)"

fun detections :: "matcher \<Rightarrow> process_info list \<Rightarrow> active_map \<Rightarrow> summary list" where
  "detections mp [] active = []"
| "detections mp (p # ps) active =
     (case found mp p of
        None \<Rightarrow> detections mp ps active
      | Some (i, n) \<Rightarrow>
          (if map_of active (pi_pid p) = Some i then [] else [detected (pi_pid p) i])
          @ detections mp ps (AList.update (pi_pid p) i active))"

definition found_pids :: "matcher \<Rightarrow> process_info list \<Rightarrow> u32 list" where
  "found_pids mp ps = map pi_pid (filter (\<lambda>p. found mp p \<noteq> None) ps)"

definition games :: "matcher \<Rightarrow> process_info list \<Rightarrow> u32 \<rightharpoonup> str" where
  "games mp ps = (\<lambda>pid. find_map (\<lambda>p. if pi_pid p = pid then map_option fst (found mp p) else None) (rev ps))"

text \<open>The last matching process of an id decides, as the insertions do.\<close>

definition clock3_ok :: "readings \<Rightarrow> bool" where
  "clock3_ok c \<longleftrightarrow> clock_ok (fst (snd c)) \<and> clock_ok (snd (snd c))"

lemma pid_roundtrip [simp]: "ucast (ucast (pid :: u32) :: u64) = pid"
  by (simp add: unsigned_ucast_eq take_bit_word_eq_self)

context json_library
begin

lemma json_obj_get: "distinct_keys kvs \<Longrightarrow> json_get (json_obj J kvs) k = map_of kvs k"
  by (rule json_get_obj)

lemma wf_json_obj:
  assumes "distinct_keys kvs" and "list_all (\<lambda>e. wf_json (snd e)) kvs"
  shows "wf_json (json_obj J kvs)"
proof -
  let ?m = "insert_all J kvs []"
  have d: "distinct_keys ?m" by (rule distinct_insert_all) simp
  have "wf_json v" if "(k, v) \<in> set ?m" for k v
  proof -
    have "map_of ?m k = Some v" using d that by simp
    then have "map_of kvs k = Some v" using map_of_insert_all_distinct [of "[]" kvs] assms(1) by simp
    then have "(k, v) \<in> set kvs" by (rule map_of_SomeD)
    then show ?thesis using assms(2) by (force simp: list_all_iff)
  qed
  with d show ?thesis by (auto simp: json_obj_def list_all_iff)
qed

lemma detect_message:
  assumes "clock_ok (fst clk)" and "clock_ok (snd clk)"
  obtains r ev where
    "handle_message J ovf clk 0 app_id (set_activity_msg (detect_args J now pid app_id app_name)) st
      = Ret (r, push_events [ev] st)"
    and "ev_summary ev = detected pid app_id"
proof -
  let ?msg = "set_activity_msg (detect_args J now pid app_id app_name)"
  let ?kvs = "[(''application_id'', JString app_id), (''name'', JString app_name),
    (''timestamps'', json_obj J [(''start'', json_i64 now)])]"
  obtain act where act: "json_obj J ?kvs = JObject act" by (simp add: json_obj_def)
  have a: "the_activity ?msg = Some (JObject act)"
    by (simp add: the_activity_def set_activity_msg_def rpc_default_def detect_args_def json_obj_get act)
  have p: "msg_pid ?msg = Some pid"
    by (simp add: msg_pid_def event_pid_def set_activity_msg_def rpc_default_def detect_args_def
        json_obj_get pid_roundtrip)
  have "wf_json (json_obj J [(''start'', json_i64 now)])"
    by (rule wf_json_obj) (simp_all add: json_i64_def)
  then have "wf_json (json_obj J ?kvs)" by (intro wf_json_obj) simp_all
  then have w: "distinct_keys act \<and> list_all (\<lambda>e. wf_json (snd e)) act" by (simp add: act)
  obtain c where c: "convert_timestamps J ovf clk act = Ret c" "distinct_keys c"
    "\<And>k. k \<noteq> ''timestamps'' \<Longrightarrow> map_of c k = map_of act k"
    using convert_timestamps_spec [OF w assms] by metis
  have "map_of act k = map_of ?kvs k" for k
    using json_obj_get [of ?kvs k] by (simp add: act)
  then have i: "map_of (build_full J app_id c labels meta) ''application_id'' = Some (JString app_id)"
    for labels meta
    using c(3) by (simp add: build_full_spec [OF c(2)])
  note h = set_activity_some [OF a _ refl, where J = J and ovf = ovf and clock = clk and canonical = c
      and socket_id = 0 and client_id = app_id and st = st]
  have "handle_message J ovf clk 0 app_id ?msg st = Ret (respond J ?msg (JObject (insert_all J (resp_fields app_id) c)) JNull,
      push_events [\<lparr>ev_activity = Some (JObject (build_full J app_id c (fst (map_buttons J act)) (snd (map_buttons J act)))),
        ev_pid = Some pid, ev_socket_id = 0\<rparr>] st)"
    using h c(1) p by (simp add: handle_message_def send_activity_push) (simp add: set_activity_msg_def)
  then show thesis by (rule that) (simp add: ev_summary_def detected_def i)
qed

lemma lost_message:
  obtains r ev where
    "handle_message J ovf clk 0 game_id (set_activity_msg (lost_args J pid)) st = Ret (r, push_events [ev] st)"
    and "ev_summary ev = lost pid"
proof -
  let ?msg = "set_activity_msg (lost_args J pid)"
  have a: "the_activity ?msg = Some JNull" and p: "msg_pid ?msg = Some pid"
    by (simp_all add: the_activity_def msg_pid_def event_pid_def set_activity_msg_def rpc_default_def
        lost_args_def json_obj_get pid_roundtrip)
  have "handle_message J ovf clk 0 game_id ?msg st = Ret (respond J ?msg JNull JNull,
      push_events [\<lparr>ev_activity = None, ev_pid = Some pid, ev_socket_id = 0\<rparr>] st)"
    using set_activity_clear [of ?msg J ovf clk 0 game_id st] a p
    by (simp add: handle_message_def send_activity_push) (simp add: set_activity_msg_def)
  then show thesis by (rule that) (simp add: ev_summary_def lost_def)
qed

end


section \<open>The bookkeeping\<close>

definition paths_ok :: "matcher \<Rightarrow> process_info list \<Rightarrow> bool" where
  "paths_ok mp ps \<longleftrightarrow> (\<forall>p \<in> set ps. mp (pi_path p) (pi_args p) \<noteq> Panic)"

lemma paths_ok_found:
  "paths_ok mp (p # ps) \<Longrightarrow> mp (pi_path p) (pi_args p) = Ret (found mp p) \<and> paths_ok mp ps"
  by (auto simp: paths_ok_def found_def split: exec.splits)

lemma games_Nil [simp]: "games mp [] pid = None"
  by (simp add: games_def)

lemma games_Cons:
  "games mp (p # ps) pid = (case games mp ps pid of Some i \<Rightarrow> Some i
     | None \<Rightarrow> if pi_pid p = pid then map_option fst (found mp p) else None)"
  by (simp add: games_def find_map_append split: option.split)

lemma map_of_track:
  "map_of (track mp ps active) pid
   = (case games mp ps pid of Some i \<Rightarrow> Some i | None \<Rightarrow> map_of active pid)"
proof (induction ps arbitrary: active)
  case (Cons p ps)
  then show ?case by (auto simp: games_Cons update_conv' split: option.split)
qed simp

lemma distinct_track: "distinct_keys active \<Longrightarrow> distinct_keys (track mp ps active)"
  by (induction ps arbitrary: active) (auto split: option.split)

lemma found_pids_iff: "pid \<in> set (found_pids mp ps) \<longleftrightarrow> games mp ps pid \<noteq> None"
  by (auto simp: found_pids_def games_def find_map_None_iff)

lemma map_of_filter_keys:
  "map_of (filter (\<lambda>(k, v). P k) m) k = (if P k then map_of m k else None)"
  by (induction m) auto

definition kept :: "matcher \<Rightarrow> process_info list \<Rightarrow> active_map \<Rightarrow> active_map" where
  "kept mp ps active = filter (\<lambda>(pid, g). pid \<in> set (found_pids mp ps)) (track mp ps active)"

lemma map_of_kept: "map_of (kept mp ps active) = games mp ps"
  by (auto simp: kept_def map_of_filter_keys map_of_track found_pids_iff fun_eq_iff split: option.split)

lemma distinct_kept: "distinct_keys active \<Longrightarrow> distinct_keys (kept mp ps active)"
  using distinct_track [of active mp ps] by (simp add: kept_def distinct_map_filter)

text \<open>The detections when the process ids are distinct.\<close>

definition new_games :: "matcher \<Rightarrow> process_info list \<Rightarrow> (u32 \<rightharpoonup> str) \<Rightarrow> summary list" where
  "new_games mp ps active = concat (map (\<lambda>p. case found mp p of
      None \<Rightarrow> []
    | Some (i, n) \<Rightarrow> if active (pi_pid p) = Some i then [] else [detected (pi_pid p) i]) ps)"

lemma new_games_cong:
  "(\<And>p. p \<in> set ps \<Longrightarrow> m (pi_pid p) = m' (pi_pid p)) \<Longrightarrow> new_games mp ps m = new_games mp ps m'"
  unfolding new_games_def by (intro arg_cong [where f = concat] map_cong refl) (simp split: option.split)

lemma detections_distinct:
  "distinct (map pi_pid ps) \<Longrightarrow> detections mp ps active = new_games mp ps (map_of active)"
proof (induction ps arbitrary: active)
  case (Cons p ps)
  have "detections mp ps (AList.update (pi_pid p) i active) = new_games mp ps (map_of active)" for i
  proof -
    have "pi_pid x \<noteq> pi_pid p" if "x \<in> set ps" for x using Cons.prems that by (metis distinct.simps(2) image_eqI image_set list.simps(9))
    then have "new_games mp ps (map_of (AList.update (pi_pid p) i active)) = new_games mp ps (map_of active)"
      by (intro new_games_cong) (simp add: update_conv')
    with Cons show ?thesis by simp
  qed
  moreover have "detections mp ps active = new_games mp ps (map_of active)"
    using Cons by simp
  ultimately show ?case by (simp add: new_games_def split: option.split)
qed (simp add: new_games_def)

section \<open>Replaying the events by process id\<close>

fun replay_one :: "summary \<Rightarrow> (u32 \<rightharpoonup> str) \<Rightarrow> (u32 \<rightharpoonup> str)" where
  "replay_one (s, Some pid, Some (Some (JString i))) m = m(pid \<mapsto> i)"
| "replay_one (s, Some pid, None) m = m(pid := None)"
| "replay_one _ m = m"

lemma replay_detections: "fold replay_one (detections mp ps active) (map_of active) = map_of (track mp ps active)"
proof (induction ps arbitrary: active)
  case (Cons p ps)
  show ?case
  proof (cases "found mp p")
    case (Some x)
    obtain i n where x: "x = (i, n)" by (cases x)
    let ?a = "AList.update (pi_pid p) i active"
    have m: "(map_of active)(pi_pid p \<mapsto> i) = map_of ?a" by (simp only: update_conv')
    have "map_of active (pi_pid p) = Some i \<Longrightarrow> map_of active = map_of ?a"
      unfolding m [symmetric] by (simp add: fun_upd_idem)
    then show ?thesis
      using Cons.IH [of ?a] Some x m by (auto simp: detected_def simp del: fun_upd_apply)
  qed (use Cons in simp)
qed simp

lemma replay_lost: "fold replay_one (map (lost \<circ> fst) xs) m = (\<lambda>k. if k \<in> fst ` set xs then None else m k)"
  by (induction xs arbitrary: m) (auto simp: lost_def fun_eq_iff)

section \<open>The environment of a scan\<close>

locale scanner_env = json_library J + hash_order order
  for J :: json_lib and order :: "active_map \<Rightarrow> active_map" +
  fixes mp :: matcher and clock :: "nat \<Rightarrow> readings"
  assumes clocks_ok: "clock3_ok (clock k)"
begin

lemma detect_loop_result:
  "paths_ok mp procs \<Longrightarrow> \<exists>evs.
    detect_loop mp J ovf clock k procs active present st
      = Ret (track mp procs active, rev (found_pids mp procs) @ present, push_events evs st)
    \<and> map ev_summary evs = detections mp procs active"
proof (induction procs arbitrary: k active present st)
  case Nil
  show ?case by (intro exI [of _ "[]"]) (simp add: found_pids_def)
next
  case (Cons p procs)
  note f = paths_ok_found [OF Cons.prems]
  then have ok: "paths_ok mp procs" ..
  show ?case
  proof (cases "found mp p")
    case None
    with Cons.IH [OF ok] f show ?thesis by (simp add: found_pids_def)
  next
    case (Some x)
    obtain i n where x: "x = (i, n)" by (cases x)
    let ?active = "AList.update (pi_pid p) i active"
    have "\<exists>evs. (if map_of active (pi_pid p) = Some i then Ret st
        else exec_map snd (handle_message J ovf (snd (clock k)) 0 i
          (set_activity_msg (detect_args J (fst (clock k)) (pi_pid p) i n)) st))
        = Ret (push_events evs st)
      \<and> map ev_summary evs = (if map_of active (pi_pid p) = Some i then [] else [detected (pi_pid p) i])"
    proof (cases "map_of active (pi_pid p) = Some i")
      case True
      then show ?thesis by (intro exI [of _ "[]"]) simp
    next
      case False
      obtain r ev where "handle_message J ovf (snd (clock k)) 0 i
          (set_activity_msg (detect_args J (fst (clock k)) (pi_pid p) i n)) st = Ret (r, push_events [ev] st)"
        and "ev_summary ev = detected (pi_pid p) i"
        using detect_message clocks_ok [of k] unfolding clock3_ok_def by metis
      with False show ?thesis by (intro exI [of _ "[ev]"]) simp
    qed
    then obtain evs1 where e1: "(if map_of active (pi_pid p) = Some i then Ret st
        else exec_map snd (handle_message J ovf (snd (clock k)) 0 i
          (set_activity_msg (detect_args J (fst (clock k)) (pi_pid p) i n)) st)) = Ret (push_events evs1 st)"
      and s1: "map ev_summary evs1
        = (if map_of active (pi_pid p) = Some i then [] else [detected (pi_pid p) i])"
      by blast
    obtain evs2 where e2: "detect_loop mp J ovf clock (k + 1) procs ?active (pi_pid p # present) (push_events evs1 st)
        = Ret (track mp procs ?active, rev (found_pids mp procs) @ pi_pid p # present,
            push_events evs2 (push_events evs1 st))"
      and s2: "map ev_summary evs2 = detections mp procs ?active"
      using Cons.IH [OF ok] by blast
    have "detect_loop mp J ovf clock k (p # procs) active present st
        = Ret (track mp (p # procs) active, rev (found_pids mp (p # procs)) @ present,
            push_events (evs1 @ evs2) st)"
      using f Some x e2 by (simp only: detect_loop.simps exec_bind.simps option.case prod.case e1)
        (simp add: found_pids_def)
    then show ?thesis
      using s1 s2 Some x by (intro exI [of _ "evs1 @ evs2"]) simp
  qed
qed

lemma lost_loop_result:
  "\<exists>evs. lost_loop J ovf clk xs st = Ret (push_events evs st)
    \<and> map ev_summary evs = map (lost \<circ> fst) xs"
proof (induction xs arbitrary: st)
  case Nil
  show ?case by (intro exI [of _ "[]"]) simp
next
  case (Cons x xs)
  obtain pid g where x: "x = (pid, g)" by (cases x)
  obtain r ev where h: "handle_message J ovf clk 0 g (set_activity_msg (lost_args J pid)) st
      = Ret (r, push_events [ev] st)" and s: "ev_summary ev = lost pid"
    using lost_message .
  obtain evs where "lost_loop J ovf clk xs (push_events [ev] st) = Ret (push_events evs (push_events [ev] st))"
    and "map ev_summary evs = map (lost \<circ> fst) xs"
    using Cons.IH by blast
  with x h s show ?case by (intro exI [of _ "ev # evs"]) simp
qed

text \<open>The entries that \<open>retain\<close> drops, in the order of the hash map.\<close>

definition dropped :: "process_info list \<Rightarrow> active_map \<Rightarrow> active_map" where
  "dropped procs active =
     filter (\<lambda>(pid, g). pid \<notin> set (found_pids mp procs)) (order (track mp procs active))"

lemma scan_result:
  assumes "paths_ok mp procs"
  obtains evs where "scan_with mp J ovf order clock active procs st
      = Ret (kept mp procs active, push_events evs st)"
    and "map ev_summary evs = detections mp procs active @ map (lost \<circ> fst) (dropped procs active)"
proof -
  obtain evs1 where d: "detect_loop mp J ovf clock 0 procs active [] st
      = Ret (track mp procs active, rev (found_pids mp procs), push_events evs1 st)"
    and s1: "map ev_summary evs1 = detections mp procs active"
    using detect_loop_result [OF assms, of ovf 0 active "[]" st] by auto
  obtain evs2 where l: "lost_loop J ovf (snd (clock 0)) (dropped procs active) (push_events evs1 st)
      = Ret (push_events evs2 (push_events evs1 st))"
    and s2: "map ev_summary evs2 = map (lost \<circ> fst) (dropped procs active)"
    using lost_loop_result by blast
  have "scan_with mp J ovf order clock active procs st
      = Ret (kept mp procs active, push_events (evs1 @ evs2) st)"
    using l by (simp add: scan_with_def d kept_def dropped_def)
  then show thesis by (rule that) (simp add: s1 s2)
qed

lemma dropped_keys:
  "fst ` set (dropped procs active) = dom (map_of active) - dom (games mp procs)"
proof -
  have "fst ` set (dropped procs active)
      = {pid \<in> fst ` set (track mp procs active). pid \<notin> set (found_pids mp procs)}"
    by (auto simp: dropped_def image_iff set_order)
  also have "\<dots> = dom (map_of active) - dom (games mp procs)"
    by (auto simp: found_pids_iff map_of_track dom_def simp flip: dom_map_of_conv_image_fst)
  finally show ?thesis .
qed

lemma dropped_distinct: "distinct_keys active \<Longrightarrow> distinct_keys (dropped procs active)"
  using distinct_order [OF distinct_track] by (simp add: dropped_def distinct_map_filter)

lemma scan_replay:
  "fold replay_one (detections mp procs active @ map (lost \<circ> fst) (dropped procs active)) (map_of active)
   = games mp procs"
proof -
  have "fold replay_one (detections mp procs active @ map (lost \<circ> fst) (dropped procs active)) (map_of active)
      = (\<lambda>k. if k \<in> dom (map_of active) - dom (games mp procs) then None
             else map_of (track mp procs active) k)"
    by (simp add: replay_detections replay_lost dropped_keys del: map_map)
  also have "\<dots> = games mp procs"
    by (auto simp: map_of_track fun_eq_iff split: option.split)
  finally show ?thesis .
qed

end

end
