(* ===== verification/Scanner_Props.thy ===== *)
theory Scanner_Props
  imports Scanner_Spec
begin

text \<open>
  The properties of the scanner on the database: what a scan leaves in \<open>active\<close> and in the broadcast, that
  a repeated scan is silent, and which database start-up and refresh end with.
\<close>

interpretation scan: scanner_env ordered_lib "\<lambda>m. m" mp "\<lambda>_. (now, sample_clock)" for mp now
  by unfold_locales (simp_all add: clock3_ok_def)

section \<open>Scans over a represented database\<close>

definition db_find :: "detectable_entry list \<Rightarrow> process_info \<Rightarrow> (str \<times> str) option" where
  "db_find entries p =
     db_answer entries (variants_of (last_four (components (pi_path p)))) (last_component (pi_path p)) (pi_args p)"

definition db_games :: "detectable_entry list \<Rightarrow> process_info list \<Rightarrow> u32 \<rightharpoonup> str" where
  "db_games entries ps = (\<lambda>pid. find_map
     (\<lambda>p. if pi_pid p = pid then map_option fst (db_find entries p) else None) (rev ps))"

definition valid_paths :: "process_info list \<Rightarrow> bool" where
  "valid_paths ps \<longleftrightarrow> (\<forall>p \<in> set ps. valid_utf8 (pi_path p))"

definition scan_setting ::
  "db_lib \<Rightarrow> json_lib \<Rightarrow> (active_map \<Rightarrow> active_map) \<Rightarrow> (nat \<Rightarrow> readings) \<Rightarrow> detectable_entry list
   \<Rightarrow> detectable_db \<Rightarrow> process_info list \<Rightarrow> bool" where
  "scan_setting L J order clock entries db ps \<longleftrightarrow>
     json_library J \<and> hash_order order \<and> (\<forall>k. clock3_ok (clock k))
     \<and> represents L entries db \<and> (\<forall>e \<in> set entries. valid_entry e) \<and> valid_paths ps"

lemma scan_setting_env:
  assumes "scan_setting L J order clock entries db ps"
  shows "scanner_env J order clock" and "paths_ok (db_match_process L db) ps"
    and "p \<in> set ps \<Longrightarrow> found (db_match_process L db) p = db_find entries p"
proof -
  have r: "db_match_process L db (pi_path p) (pi_args p) = Ret (db_find entries p)" if "p \<in> set ps" for p
    unfolding db_find_def
    by (rule db_match_answer) (use assms that in \<open>simp_all add: scan_setting_def valid_paths_def\<close>)
  then show "paths_ok (db_match_process L db) ps"
    and "p \<in> set ps \<Longrightarrow> found (db_match_process L db) p = db_find entries p"
    by (simp_all add: paths_ok_def found_def)
  show "scanner_env J order clock"
    using assms by (simp add: scan_setting_def scanner_env_def scanner_env_axioms_def)
qed

lemma games_db_games:
  "scan_setting L J order clock entries db ps \<Longrightarrow> games (db_match_process L db) ps = db_games entries ps"
  unfolding games_def db_games_def
  by (intro ext find_map_cong) (simp add: scan_setting_env(3))

text \<open>
  A scan never panics. Afterwards \<open>active\<close> maps exactly the process ids of running games to
  their applications (of processes with the same id the last one counts), and a consumer that replays
  the scan's events by process id on the old map obtains the new one.
\<close>

lemma scan_exact:
  assumes "scan_setting L J order clock entries db ps"
  shows "\<exists>active' evs. scan_once L J ovf order clock db active ps st = Ret (active', push_events evs st)
    \<and> map_of active' = db_games entries ps \<and> (distinct_keys active \<longrightarrow> distinct_keys active')
    \<and> fold replay_one (map ev_summary evs) (map_of active) = map_of active'"
proof -
  let ?mp = "db_match_process L db"
  note env = scan_setting_env [OF assms]
  obtain evs where "scan_with ?mp J ovf order clock active ps st
      = Ret (kept ?mp ps active, push_events evs st)"
    and "map ev_summary evs
      = detections ?mp ps active @ map (lost \<circ> fst) (scanner_env.dropped order ?mp ps active)"
    using scanner_env.scan_result [OF env(1,2)] by metis
  then show ?thesis
    using scanner_env.scan_replay [OF env(1), of ?mp ps active] distinct_kept [of active ?mp ps]
    by (auto simp: scan_once_def map_of_kept games_db_games [OF assms])
qed

definition sample_procs :: "process_info list" where
  "sample_procs =
     [\<lparr>pi_pid = 10, pi_path = ''/opt/csgo'', pi_args = []\<rparr>,
      \<lparr>pi_pid = 11, pi_path = ''/usr/bin/hl2'', pi_args = []\<rparr>,
      \<lparr>pi_pid = 12, pi_path = ''/bin/sh'', pi_args = []\<rparr>]"

lemma sample_setting:
  obtains db where "scan_setting sample_lib ordered_lib (\<lambda>m. m) (\<lambda>_. (0, sample_clock)) sample_entries3 db sample_procs"
proof -
  obtain db where r: "represents sample_lib sample_entries3 db"
    using represented [OF serialisable_sample] .
  have "valid_paths sample_procs"
    by (simp add: valid_paths_def sample_procs_def valid_utf8_ascii is_ascii_def byte_def)
  with r show thesis
    by (intro that [of db]) (simp add: scan_setting_def ordered_json.json_library_axioms
        scan.hash_order_axioms clock3_ok_def sample_entries3_valid)
qed

lemma sample_games:
  "map (db_find sample_entries3) sample_procs = [Some (''2'', ''B''), Some (''3'', ''C''), None]"
  by code_simp

lemma scan_exact_witness:
  "\<exists>db active' evs.
    scan_once sample_lib ordered_lib True (\<lambda>m. m) (\<lambda>_. (0, sample_clock)) db [(12, ''9'')] sample_procs server_new
      = Ret (active', push_events evs server_new)
    \<and> map_of active' = [10 \<mapsto> ''2'', 11 \<mapsto> ''3'']"
proof -
  obtain db where s: "scan_setting sample_lib ordered_lib (\<lambda>m. m) (\<lambda>_. (0, sample_clock)) sample_entries3 db sample_procs"
    using sample_setting .
  have "db_games sample_entries3 sample_procs = [10 \<mapsto> ''2'', 11 \<mapsto> ''3'']"
    using sample_games by (auto simp: db_games_def sample_procs_def fun_eq_iff)
  with scan_exact [OF s, of True "[(12, ''9'')]" server_new] show ?thesis by metis
qed

text \<open>
  Claim C12. The events of a scan over distinct process ids: first, in process order, one detection for
  every game that \<open>active\<close> did not already hold under the same id, then exactly one loss for every process
  id of \<open>active\<close> that is no longer a game.
\<close>

theorem scan_events:
  assumes "scan_setting L J order clock entries db ps"
    and "distinct (map pi_pid ps)" and "distinct_keys active"
  shows "\<exists>active' evs gone. scan_once L J ovf order clock db active ps st = Ret (active', push_events evs st)
    \<and> map ev_summary evs
      = concat (map (\<lambda>p. case db_find entries p of
            None \<Rightarrow> []
          | Some (i, n) \<Rightarrow> if map_of active (pi_pid p) = Some i then [] else [detected (pi_pid p) i]) ps)
        @ map lost gone
    \<and> distinct gone \<and> set gone = dom (map_of active) - dom (db_games entries ps)"
proof -
  let ?mp = "db_match_process L db"
  note env = scan_setting_env [OF assms(1)]
  let ?dropped = "scanner_env.dropped order ?mp ps active"
  obtain evs where r: "scan_with ?mp J ovf order clock active ps st
      = Ret (kept ?mp ps active, push_events evs st)"
    and e: "map ev_summary evs = detections ?mp ps active @ map (lost \<circ> fst) ?dropped"
    using scanner_env.scan_result [OF env(1,2)] by metis
  have n: "new_games ?mp ps (map_of active) = concat (map (\<lambda>p. case db_find entries p of
      None \<Rightarrow> []
    | Some (i, n) \<Rightarrow> if map_of active (pi_pid p) = Some i then [] else [detected (pi_pid p) i]) ps)"
    unfolding new_games_def by (intro arg_cong [where f = concat] map_cong refl) (simp add: env(3))
  have l: "map (lost \<circ> fst) ?dropped = map lost (map fst ?dropped)" by (rule map_map [symmetric])
  have k: "set (map fst ?dropped) = dom (map_of active) - dom (db_games entries ps)"
    using scanner_env.dropped_keys [OF env(1), of ?mp ps active]
    by (simp only: set_map games_db_games [OF assms(1)])
  have d: "distinct (map fst ?dropped)"
    by (rule scanner_env.dropped_distinct [OF env(1) assms(3)])
  show ?thesis
    by (intro exI conjI, unfold scan_once_def, rule r,
        unfold e detections_distinct [OF assms(2)] n l, rule refl, rule d, rule k)
qed

theorem scan_events_witness:
  "\<exists>db active' evs.
    scan_once sample_lib ordered_lib True (\<lambda>m. m) (\<lambda>_. (0, sample_clock)) db [(12, ''9''), (11, ''3'')]
        sample_procs server_new = Ret (active', push_events evs server_new)
    \<and> map ev_summary evs = [detected 10 ''2'', lost 12]"
proof -
  obtain db where s: "scan_setting sample_lib ordered_lib (\<lambda>m. m) (\<lambda>_. (0, sample_clock)) sample_entries3 db sample_procs"
    using sample_setting .
  have f: "map (db_find sample_entries3) sample_procs = [Some (''2'', ''B''), Some (''3'', ''C''), None]"
    by (rule sample_games)
  have g: "db_games sample_entries3 sample_procs = [10 \<mapsto> ''2'', 11 \<mapsto> ''3'']"
    using f by (auto simp: db_games_def sample_procs_def fun_eq_iff)
  have d: "distinct (map pi_pid sample_procs)" "distinct_keys [(12 :: u32, ''9''), (11, ''3'')]"
    by (simp_all add: sample_procs_def)
  have "concat (map (\<lambda>p. case db_find sample_entries3 p of None \<Rightarrow> []
      | Some (i, n) \<Rightarrow> if map_of [(12 :: u32, ''9''), (11, ''3'')] (pi_pid p) = Some i then []
          else [detected (pi_pid p) i]) sample_procs) = [detected 10 ''2'']"
    using f by (simp add: sample_procs_def)
  moreover have "dom (map_of [(12 :: u32, ''9''), (11, ''3'')]) - dom [10 :: u32 \<mapsto> ''2'', 11 \<mapsto> ''3''] = {12}"
    by auto
  moreover have "gone = [12]" if "distinct gone" "set gone = {12}" for gone :: "u32 list"
    using that by (cases gone; cases "tl gone") auto
  moreover obtain active' evs gone where
    r: "scan_once sample_lib ordered_lib True (\<lambda>m. m) (\<lambda>_. (0, sample_clock)) db [(12, ''9''), (11, ''3'')]
        sample_procs server_new = Ret (active', push_events evs server_new)"
    and e: "map ev_summary evs = concat (map (\<lambda>p. case db_find sample_entries3 p of None \<Rightarrow> []
      | Some (i, n) \<Rightarrow> if map_of [(12 :: u32, ''9''), (11, ''3'')] (pi_pid p) = Some i then []
          else [detected (pi_pid p) i]) sample_procs) @ map lost gone"
    and dg: "distinct gone" "set gone = dom (map_of [(12 :: u32, ''9''), (11, ''3'')]) - dom (db_games sample_entries3 sample_procs)"
    using scan_events [OF s d, of True server_new] by blast
  ultimately have "map ev_summary evs = [detected 10 ''2''] @ map lost [12]" by (simp only: g)
  then have "map ev_summary evs = [detected 10 ''2'', lost 12]" by simp
  with r show ?thesis by (intro exI conjI)
qed


lemma detections_settled:
  "(\<And>p i n. p \<in> set ps \<Longrightarrow> found mp p = Some (i, n) \<Longrightarrow> map_of active (pi_pid p) = Some i) \<Longrightarrow>
   detections mp ps active = []"
proof (induction ps arbitrary: active)
  case (Cons p ps)
  show ?case
  proof (cases "found mp p")
    case (Some x)
    obtain i n where x: "x = (i, n)" by (cases x)
    have i: "map_of active (pi_pid p) = Some i" using Cons.prems [of p i n] Some x by simp
    then have "map_of (AList.update (pi_pid p) i active) = map_of active"
      by (simp add: update_conv' fun_upd_idem)
    with Cons Some x i show ?thesis by simp
  qed (use Cons in simp)
qed simp

lemma games_of_process:
  "distinct (map pi_pid ps) \<Longrightarrow> p \<in> set ps \<Longrightarrow> games mp ps (pi_pid p) = map_option fst (found mp p)"
proof (induction ps)
  case (Cons q ps)
  have "games mp ps (pi_pid q) = None" if "pi_pid q \<notin> pi_pid ` set ps" for q
    using that by (force simp: games_def find_map_None_iff)
  with Cons show ?case by (auto simp: games_Cons split: option.split)
qed simp

text \<open>
  A second scan of the same processes, with whatever clocks and hash order, changes neither
  \<open>active\<close> nor the broadcast.
\<close>

theorem scan_idempotent:
  assumes "scan_setting L J order clock entries db ps" and "scan_setting L J order' clock' entries db ps"
    and "distinct (map pi_pid ps)" and "distinct_keys active"
    and "scan_once L J ovf order clock db active ps st = Ret (active1, st1)"
  shows "\<exists>active2. scan_once L J ovf order' clock' db active1 ps st1 = Ret (active2, st1)
    \<and> map_of active2 = map_of active1"
proof -
  let ?mp = "db_match_process L db"
  note env = scan_setting_env [OF assms(1)] and env' = scan_setting_env [OF assms(2)]
  obtain evs where "scan_with ?mp J ovf order clock active ps st = Ret (kept ?mp ps active, push_events evs st)"
    using scanner_env.scan_result [OF env(1,2)] by metis
  then have a1: "active1 = kept ?mp ps active" using assms(5) by (simp add: scan_once_def)
  then have m: "map_of active1 = games ?mp ps" by (simp add: map_of_kept)
  obtain evs2 where r: "scan_with ?mp J ovf order' clock' active1 ps st1
      = Ret (kept ?mp ps active1, push_events evs2 st1)"
    and e: "map ev_summary evs2
      = detections ?mp ps active1 @ map (lost \<circ> fst) (scanner_env.dropped order' ?mp ps active1)"
    using scanner_env.scan_result [OF env'(1,2)] by metis
  have "detections ?mp ps active1 = []"
    by (rule detections_settled) (simp add: m games_of_process [OF assms(3)])
  moreover have "fst ` set (scanner_env.dropped order' ?mp ps active1) = {}"
    unfolding scanner_env.dropped_keys [OF env'(1)] m by (rule Diff_cancel)
  then have "scanner_env.dropped order' ?mp ps active1 = []" by simp
  ultimately have "evs2 = []" using e by simp
  with r have "scan_once L J ovf order' clock' db active1 ps st1 = Ret (kept ?mp ps active1, st1)"
    by (simp only: scan_once_def push_events_Nil)
  moreover have "map_of (kept ?mp ps active1) = map_of active1" by (simp only: map_of_kept m)
  ultimately show ?thesis by (intro exI conjI)
qed

theorem scan_idempotent_witness:
  "\<exists>db active1 st1 active2.
    scan_once sample_lib ordered_lib True (\<lambda>m. m) (\<lambda>_. (0, sample_clock)) db [] sample_procs server_new
      = Ret (active1, st1)
    \<and> scan_once sample_lib ordered_lib True (\<lambda>m. m) (\<lambda>_. (0, sample_clock)) db active1 sample_procs st1
      = Ret (active2, st1)"
proof -
  obtain db where s: "scan_setting sample_lib ordered_lib (\<lambda>m. m) (\<lambda>_. (0, sample_clock)) sample_entries3 db sample_procs"
    using sample_setting .
  note env = scan_setting_env [OF s]
  have "distinct (map pi_pid sample_procs)" by (simp add: sample_procs_def)
  moreover obtain evs where "scan_with (db_match_process sample_lib db) ordered_lib True (\<lambda>m. m)
      (\<lambda>_. (0, sample_clock)) [] sample_procs server_new
      = Ret (kept (db_match_process sample_lib db) sample_procs [], push_events evs server_new)"
    using scanner_env.scan_result [OF env(1,2)] by metis
  then have r: "scan_once sample_lib ordered_lib True (\<lambda>m. m) (\<lambda>_. (0, sample_clock)) db [] sample_procs server_new
      = Ret (kept (db_match_process sample_lib db) sample_procs [], push_events evs server_new)"
    by (simp add: scan_once_def)
  ultimately show ?thesis using scan_idempotent [OF s s _ _ r] r by auto
qed

section \<open>Start-up and refresh\<close>

text \<open>
  Start-up with a cache that opens to a non-empty database does not touch the network: the
  result is the opened database and the ETag file is as it was, whatever the server would answer.
\<close>

theorem startup_uses_cache:
  assumes "open_with_fst L (sc_env io) dk = (Inr d, dk1)" and "\<not> db_is_empty d"
  shows "initial_db L S (io\<lparr>sc_send := f\<rparr>) dk etag = (Some d, dk1, etag)"
  using assms by (simp add: initial_db_def)

definition sample_io :: "(str option \<Rightarrow> http_response option) \<Rightarrow> scanner_io" where
  "sample_io f = \<lparr>sc_env = good_env, sc_send = f, sc_etag_writable = True\<rparr>"

definition not_modified :: "str option \<Rightarrow> http_response option" where
  "not_modified etag = Some \<lparr>rs_status = 304, rs_etag = etag, rs_body = []\<rparr>"

theorem startup_uses_cache_witness:
  "\<exists>db dk'. rebuild_with_fst sample_lib good_env sample_entries3 no_files = (Inr db, dk')
    \<and> initial_db sample_lib sample_serde (sample_io (\<lambda>_. None)) dk' None = (Some db, dk', None)"
proof -
  obtain apps b where r: "rebuild_with_fst sample_lib good_env sample_entries3 no_files =
      (Inr \<lparr>dd_db = \<lparr>tb_apps = Some apps, tb_exes = Some (fresh_exes sample_entries3)\<rparr>,
             dd_fst = sorted_exes sample_entries3,
             dd_exe_index = insert_index (build_ids sample_entries3 []) Map.empty\<rparr>,
       \<lparr>dk_redb = Some \<lparr>tb_apps = Some apps, tb_exes = Some (fresh_exes sample_entries3)\<rparr>, dk_fst = Some b\<rparr>)"
    and b: "b \<noteq> []" "fst_parse sample_lib b = Some (sorted_exes sample_entries3)"
    using sample.rebuild_result [OF env_ok_good serialisable_sample] by metis
  have "newline_free sample_entries3"
    by (simp add: newline_free_def sample_entries3_def sample_entry_def)
  then have o: "open_with_fst sample_lib good_env (snd (rebuild_with_fst sample_lib good_env sample_entries3 no_files))
      = (Inr (projr (fst (rebuild_with_fst sample_lib good_env sample_entries3 no_files))),
         snd (rebuild_with_fst sample_lib good_env sample_entries3 no_files))"
    using b by (simp add: r open_fresh accepted_fst_def length_sorted_exes)
  have "exe_names sample_entries3 \<noteq> {}"
    by (simp add: exe_names_def sample_entries3_def sample_entry_def)
  then have "sorted_exes sample_entries3 \<noteq> []" using set_sorted_exes by (metis set_empty)
  with o startup_uses_cache [of sample_lib "sample_io (\<lambda>_. None)" _ _ _ sample_serde "\<lambda>_. None" None]
  show ?thesis by (simp add: r sample_io_def db_is_empty_def)
qed

lemma load_not_modified:
  "send etag = Some resp \<Longrightarrow> rs_status resp = 304 \<Longrightarrow> load_detectable_entries S send w etag = ([], etag)"
  by (simp add: load_detectable_entries_def fetch_detectable_def)

text \<open>
  Claim C34. Start-up with a stored ETag but without a usable database: the server answers 304, the empty
  list is ingested as if it were the list, and the scanner runs on an empty database; the ETag stays, so
  the next start opens that empty database, asks again with the same ETag and ends the same way.
\<close>

theorem startup_not_modified_sticks:
  assumes "db_library L" and "env_ok (sc_env io) dk1" and "io_remove (sc_env io)"
    and "open_with_fst L (sc_env io) dk = (Inl e, dk1)"
    and "sc_send io etag = Some resp" and "rs_status resp = 304"
  shows "\<exists>db dk2. initial_db L S io dk etag = (Some db, dk2, etag) \<and> db_is_empty db \<and> represents L [] db
    \<and> (\<exists>db' dk3. initial_db L S io dk2 etag = (Some db', dk3, etag) \<and> db_is_empty db')"
proof -
  have s: "serialisable L []" by (simp add: serialisable_def)
  have emp: "sorted_exes [] = []" by (simp add: sorted_exes_def)
  have rb: "\<exists>db dk''. rebuild_with_fst L (sc_env io) [] dk' = (Inr db, dk'') \<and> db_is_empty db
      \<and> represents L [] db \<and> open_with_fst L (sc_env io) dk'' = (Inr db, dk'')" for dk'
  proof -
    have ok: "env_ok (sc_env io) dk'" using assms(2,3) by (simp add: env_ok_def)
    obtain apps b where r: "rebuild_with_fst L (sc_env io) [] dk' =
        (Inr \<lparr>dd_db = \<lparr>tb_apps = Some apps, tb_exes = Some (fresh_exes [])\<rparr>,
               dd_fst = sorted_exes [], dd_exe_index = insert_index (build_ids [] []) Map.empty\<rparr>,
         \<lparr>dk_redb = Some \<lparr>tb_apps = Some apps, tb_exes = Some (fresh_exes [])\<rparr>, dk_fst = Some b\<rparr>)"
      and a: "\<And>i. Option.bind (map_of apps i) (rkyv_access L) = last_entry [] i"
      and b: "b \<noteq> []" "fst_parse L b = Some (sorted_exes [])"
      using db_library.rebuild_result [OF assms(1) ok s] by metis
    have "newline_free []" by (simp add: newline_free_def)
    from open_fresh [OF this, of _ "Some apps" L "sc_env io"] r a b show ?thesis
      by (simp add: db_is_empty_def emp represents_def exe_names_def accepted_fst_def)
  qed
  note load = load_not_modified [where send = "sc_send io" and etag = etag and S = S and w = "sc_etag_writable io",
      OF assms(5,6)]
  obtain db dk2 where r1: "rebuild_with_fst L (sc_env io) [] dk1 = (Inr db, dk2)" "db_is_empty db"
      "represents L [] db" "open_with_fst L (sc_env io) dk2 = (Inr db, dk2)" using rb by blast
  obtain db' dk3 where r2: "rebuild_with_fst L (sc_env io) [] dk2 = (Inr db', dk3)" "db_is_empty db'"
    using rb by blast
  show ?thesis
    using r1 r2 assms(4) load by (intro exI [of _ db] exI [of _ dk2]) (simp add: initial_db_def)
qed

theorem startup_not_modified_sticks_witness:
  "\<exists>db dk2. initial_db sample_lib sample_serde (sample_io not_modified) no_files (Some ''tag'')
      = (Some db, dk2, Some ''tag'') \<and> db_is_empty db"
  using startup_not_modified_sticks [of sample_lib "sample_io not_modified" no_files no_files OpenRedb
      "Some ''tag''" "\<lparr>rs_status = 304, rs_etag = Some ''tag'', rs_body = []\<rparr>" sample_serde]
  by (auto simp: sample_io_def not_modified_def open_with_fst_def no_files_def good_env_def env_ok_def)

text \<open>
  A weekly refresh that gets no entries (a 304, a network error, an unexpected payload) leaves
  database and disk untouched; one that gets entries, with working file operations, ends with a database
  that represents them.
\<close>

lemma refresh_spec:
  assumes "db_library L" and "env_ok (sc_env io) dk"
    and "load_detectable_entries S (sc_send io) (sc_etag_writable io) etag = (entries, etag1)"
    and "serialisable L entries"
  shows "\<exists>db' dk'. refresh_db L S io db dk etag = (db', dk', etag1)
    \<and> (if entries = [] then db' = db \<and> dk' = dk else represents L entries db' \<and> dk_redb dk' = Some (dd_db db'))"
proof (cases "entries = []")
  case False
  obtain apps b where "rebuild_with_fst L (sc_env io) entries dk =
      (Inr \<lparr>dd_db = \<lparr>tb_apps = Some apps, tb_exes = Some (fresh_exes entries)\<rparr>,
             dd_fst = sorted_exes entries,
             dd_exe_index = insert_index (build_ids entries []) Map.empty\<rparr>,
       \<lparr>dk_redb = Some \<lparr>tb_apps = Some apps, tb_exes = Some (fresh_exes entries)\<rparr>,
        dk_fst = Some b\<rparr>)"
    and "\<And>i. Option.bind (map_of apps i) (rkyv_access L) = last_entry entries i"
    using db_library.rebuild_result [OF assms(1,2,4)] by metis
  with False assms(3) show ?thesis
    by (simp add: refresh_db_def represents_def set_sorted_exes built_index)
qed (use assms(3) in \<open>simp add: refresh_db_def\<close>)

lemma refresh_spec_witness:
  "\<exists>db' dk'. refresh_db sample_lib (sample_serde\<lparr>sd_entries := \<lambda>_. Some sample_entries3\<rparr>)
      (sample_io (\<lambda>_. Some \<lparr>rs_status = 200, rs_etag = Some ''new'', rs_body = []\<rparr>))
      \<lparr>dd_db = no_tables, dd_fst = [], dd_exe_index = Map.empty\<rparr> no_files (Some ''old'')
    = (db', dk', Some ''new'') \<and> represents sample_lib sample_entries3 db'"
proof -
  let ?S = "sample_serde\<lparr>sd_entries := \<lambda>_. Some sample_entries3\<rparr>"
  let ?io = "sample_io (\<lambda>_. Some \<lparr>rs_status = 200, rs_etag = Some ''new'', rs_body = []\<rparr>)"
  have "load_detectable_entries ?S (sc_send ?io) (sc_etag_writable ?io) (Some ''old'')
      = (sample_entries3, Some ''new'')"
    by (simp add: load_detectable_entries_def fetch_detectable_def parse_detectable_entries_def
        save_etag_def sample_io_def)
  from refresh_spec [OF sample_library _ this serialisable_sample, of no_files
      "\<lparr>dd_db = no_tables, dd_fst = [], dd_exe_index = Map.empty\<rparr>"]
  show ?thesis by (auto simp: sample_io_def sample_entries3_def)
qed

end
