(* ===== verification/Scanner_Loop.thy ===== *)
theory Scanner_Loop
  imports Scanner_Props
begin

text \<open>
  The loop of \<open>start_process_scanner\<close>: one tick, with the weekly refresh and the scan after it.
\<close>

lemma scan_once_games:
  assumes "scan_setting L J order clock entries db ps"
  obtains active' evs where "scan_once L J ovf order clock db active ps st = Ret (active', push_events evs st)"
    and "map_of active' = db_games entries ps"
proof -
  let ?mp = "db_match_process L db"
  note env = scan_setting_env [OF assms]
  obtain evs where "scan_with ?mp J ovf order clock active ps st
      = Ret (kept ?mp ps active, push_events evs st)"
    using scanner_env.scan_result [OF env(1,2)] by metis
  with that show thesis by (simp add: scan_once_def map_of_kept games_db_games [OF assms])
qed

lemma scan_setting_db:
  "scan_setting L J order clock entries db ps \<Longrightarrow> represents L entries' db' \<Longrightarrow>
   \<forall>e \<in> set entries'. valid_entry e \<Longrightarrow> scan_setting L J order clock entries' db' ps"
  by (simp add: scan_setting_def)

text \<open>
  A tick of the scanner loop, refresh included, never panics. The list in force afterwards is the
  fetched one exactly when more than a week has passed since the last refresh and the fetch gave entries;
  the database represents that list, and \<open>active\<close> is exactly the running games according to it. A refresh
  that is due is always recorded, also when it brought nothing.
\<close>

theorem tick_exact:
  assumes "scan_setting L J order clock entries (sn_db sn) ps" and "db_library L"
    and "env_ok (sc_env io) (sn_disk sn)"
    and "load_detectable_entries S (sc_send io) (sc_etag_writable io) (sn_etag sn) = (fetched, etag1)"
    and "serialisable L fetched" and "\<forall>e \<in> set fetched. valid_entry e"
    and "due \<longleftrightarrow> now - sn_last_refresh sn > week_secs"
    and "current = (if due \<and> fetched \<noteq> [] then fetched else entries)"
  shows "\<exists>sn' evs. scanner_tick L S J ovf order io clock now refreshed ps sn st = Ret (sn', push_events evs st)
    \<and> map_of (sn_active sn') = db_games current ps \<and> represents L current (sn_db sn')
    \<and> sn_etag sn' = (if due then etag1 else sn_etag sn)
    \<and> sn_last_refresh sn' = (if due then refreshed else sn_last_refresh sn)"
proof -
  obtain db1 dk1 where r: "refresh_db L S io (sn_db sn) (sn_disk sn) (sn_etag sn) = (db1, dk1, etag1)"
    and d: "if fetched = [] then db1 = sn_db sn \<and> dk1 = sn_disk sn
      else represents L fetched db1 \<and> dk_redb dk1 = Some (dd_db db1)"
    using refresh_spec [OF assms(2-5), of "sn_db sn"] by blast
  let ?sn = "if due then sn\<lparr>sn_db := db1, sn_disk := dk1, sn_etag := etag1, sn_last_refresh := refreshed\<rparr> else sn"
  have "represents L entries (sn_db sn)" using assms(1) by (simp add: scan_setting_def)
  then have rep: "represents L current (sn_db ?sn)" using d assms(8) by (auto split: if_splits)
  have "\<forall>e \<in> set current. valid_entry e" using assms(1,6,8) by (auto simp: scan_setting_def)
  then have set: "scan_setting L J order clock current (sn_db ?sn) ps"
    by (rule scan_setting_db [OF assms(1) rep])
  obtain active' evs where s: "scan_once L J ovf order clock (sn_db ?sn) (sn_active ?sn) ps st
      = Ret (active', push_events evs st)" and a: "map_of active' = db_games current ps"
    using scan_once_games [OF set] .
  have "scanner_tick L S J ovf order io clock now refreshed ps sn st
      = Ret (?sn\<lparr>sn_active := active'\<rparr>, push_events evs st)"
    using s r assms(7) by (auto simp: scanner_tick_def Let_def)
  then show ?thesis
    using a rep by (intro exI [of _ "?sn\<lparr>sn_active := active'\<rparr>"] exI [of _ evs]) simp
qed

theorem tick_exact_witness:
  "\<exists>db sn' evs. scanner_tick sample_lib sample_serde ordered_lib True (\<lambda>m. m)
      (sample_io (\<lambda>_. None)) (\<lambda>_. (0, sample_clock)) 700000 700030 sample_procs
      \<lparr>sn_db = db, sn_disk = no_files, sn_etag = None, sn_active = [(12, ''9'')], sn_last_refresh = 0\<rparr> server_new
    = Ret (sn', push_events evs server_new)
    \<and> map_of (sn_active sn') = [10 \<mapsto> ''2'', 11 \<mapsto> ''3''] \<and> sn_last_refresh sn' = 700030"
proof -
  obtain db where s: "scan_setting sample_lib ordered_lib (\<lambda>m. m) (\<lambda>_. (0, sample_clock)) sample_entries3 db sample_procs"
    using sample_setting .
  let ?sn = "\<lparr>sn_db = db, sn_disk = no_files, sn_etag = None, sn_active = [(12, ''9'')], sn_last_refresh = 0\<rparr>"
  have g: "db_games sample_entries3 sample_procs = [10 \<mapsto> ''2'', 11 \<mapsto> ''3'']"
    using sample_games by (auto simp: db_games_def sample_procs_def fun_eq_iff)
  have l: "load_detectable_entries sample_serde (sc_send (sample_io (\<lambda>_. None)))
      (sc_etag_writable (sample_io (\<lambda>_. None))) (sn_etag ?sn) = ([], None)"
    by (simp add: load_detectable_entries_def fetch_detectable_def sample_io_def)
  have "scan_setting sample_lib ordered_lib (\<lambda>m. m) (\<lambda>_. (0, sample_clock)) sample_entries3 (sn_db ?sn) sample_procs"
    using s by simp
  from tick_exact [OF this sample_library _ l serialisable_sample _ refl refl,
      where now = 700000 and refreshed = 700030 and ovf = True and st = server_new]
  show ?thesis by (auto simp: sample_io_def week_secs_def g)
qed

end
