(* ===== verification/Text_Format.thy ===== *)
theory Text_Format
  imports Utf8
begin

text \<open>
  Text that the program builds from foreign bytes: \<open>String::from_utf8_lossy\<close> (also
  \<open>OsStr::to_string_lossy\<close> on Unix) and the \<open>{:?}\<close> format of strings and of sets of strings.
\<close>

section \<open>Lossy decoding\<close>

definition replacement :: str where
  "replacement = [CHR 0xEF, CHR 0xBF, CHR 0xBD]"

text \<open>
  The length of the invalid sequence at the head: the longest prefix of it that could begin a character,
  and at least one byte.
\<close>

definition second_byte_ok :: "char \<Rightarrow> char \<Rightarrow> bool" where
  "second_byte_ok a b \<longleftrightarrow>
     (if byte a = 0xE0 then 0xA0 \<le> byte b \<and> byte b \<le> 0xBF
      else if byte a = 0xED then 0x80 \<le> byte b \<and> byte b \<le> 0x9F
      else if byte a = 0xF0 then 0x90 \<le> byte b \<and> byte b \<le> 0xBF
      else if byte a = 0xF4 then 0x80 \<le> byte b \<and> byte b \<le> 0x8F
      else is_cont b)"

fun invalid_len :: "str \<Rightarrow> nat" where
  "invalid_len (a # b # s) =
     (if 0xE0 \<le> byte a \<and> byte a \<le> 0xF4 \<and> second_byte_ok a b
      then (case s of
              [] \<Rightarrow> 2
            | c # _ \<Rightarrow> if 0xF0 \<le> byte a \<and> is_cont c then 3 else 2)
      else 1)"
| "invalid_len _ = 1"

lemma invalid_len_pos: "0 < invalid_len s"
  by (induction s rule: invalid_len.induct) (auto split: list.split)

function from_utf8_lossy :: "str \<Rightarrow> str" where
  "from_utf8_lossy [] = []"
| "from_utf8_lossy (a # s) =
     (if is_scalar (take (utf8_width a) (a # s))
      then take (utf8_width a) (a # s) @ from_utf8_lossy (drop (utf8_width a) (a # s))
      else replacement @ from_utf8_lossy (drop (invalid_len (a # s)) (a # s)))"
  by pat_completeness auto
termination
  by (relation "measure length") (simp_all add: utf8_width_pos invalid_len_pos)

declare from_utf8_lossy.simps(2) [simp del]

lemma replacement_scalar: "is_scalar replacement"
  by (simp add: replacement_def byte_def is_cont_def)

lemma lossy_valid [simp]: "valid_utf8 (from_utf8_lossy s)"
proof (induction s rule: from_utf8_lossy.induct)
  case (2 a s)
  have "valid_utf8 c" if "is_scalar c" for c
    using that unfolding valid_utf8_iff by (intro exI [of _ "[c]"]) simp
  with 2 replacement_scalar show ?case
    by (auto simp: from_utf8_lossy.simps(2) intro: valid_utf8_append)
qed simp

lemma lossy_id: "valid_utf8 s \<Longrightarrow> from_utf8_lossy s = s"
proof (induction s rule: from_utf8_lossy.induct)
  case (2 a s)
  then have c: "is_scalar (take (utf8_width a) (a # s))" and v: "valid_utf8 (drop (utf8_width a) (a # s))"
    by (auto simp: valid_utf8_def utf8_chars.simps(2) split: if_splits)
  from 2(1) [OF c v] c show ?case
    by (simp add: from_utf8_lossy.simps(2))
qed simp

lemma lossy_id_iff: "from_utf8_lossy s = s \<longleftrightarrow> valid_utf8 s"
  using lossy_id lossy_valid [of s] by metis

lemma lossy_Nil_iff [simp]: "from_utf8_lossy s = [] \<longleftrightarrow> s = []"
  by (cases s) (auto simp: from_utf8_lossy.simps(2) replacement_def)

section \<open>The debug format\<close>

definition hex_digit :: "nat \<Rightarrow> char" where
  "hex_digit d = (if d < 10 then char_of (48 + d) else char_of (87 + d))"

fun hex_nat :: "nat \<Rightarrow> str" where
  "hex_nat n = (if n < 16 then [hex_digit n] else hex_nat (n div 16) @ [hex_digit (n mod 16)])"

declare hex_nat.simps [simp del]

text \<open>
  \<open>verbatim\<close> is the Unicode data of the standard library: the printable characters that do not extend a
  grapheme. The single quote is not escaped in a string.
\<close>

definition escape_char :: "(str \<Rightarrow> bool) \<Rightarrow> str \<Rightarrow> str" where
  "escape_char verbatim c =
     (if c = [CHR 0x00] then [CHR 0x5C, CHR ''0'']
      else if c = [CHR 0x09] then [CHR 0x5C, CHR ''t'']
      else if c = [CHR 0x0D] then [CHR 0x5C, CHR ''r'']
      else if c = [CHR 0x0A] then [CHR 0x5C, CHR ''n'']
      else if c = [CHR 0x22] then [CHR 0x5C, CHR 0x22]
      else if c = [CHR 0x5C] then [CHR 0x5C, CHR 0x5C]
      else if verbatim c then c
      else [CHR 0x5C, CHR ''u'', CHR 0x7B] @ hex_nat (scalar_value c) @ [CHR 0x7D])"

definition debug_str :: "(str \<Rightarrow> bool) \<Rightarrow> str \<Rightarrow> str" where
  "debug_str verbatim s =
     [CHR 0x22] @ concat (map (escape_char verbatim) (str_chars s)) @ [CHR 0x22]"

text \<open>A \<open>BTreeSet<&str>\<close> iterates in byte order.\<close>

definition debug_set :: "(str \<Rightarrow> bool) \<Rightarrow> str list \<Rightarrow> str" where
  "debug_set verbatim keys =
     [CHR 0x7B] @ join_with '', '' (map (debug_str verbatim) (sort (remdups keys))) @ [CHR 0x7D]"

section \<open>One line\<close>

text \<open>No line feed and no carriage return: the text cannot start a new line in a log.\<close>

definition one_line :: "str \<Rightarrow> bool" where
  "one_line s \<longleftrightarrow> CHR 0x0A \<notin> set s \<and> CHR 0x0D \<notin> set s"

lemma one_line_simps [simp]:
  "one_line []" "one_line (c # s) \<longleftrightarrow> c \<noteq> CHR 0x0A \<and> c \<noteq> CHR 0x0D \<and> one_line s"
  "one_line (s @ t) \<longleftrightarrow> one_line s \<and> one_line t"
  by (auto simp: one_line_def)

lemma one_line_concat: "one_line (concat ss) \<longleftrightarrow> (\<forall>s \<in> set ss. one_line s)"
  by (induction ss) simp_all

lemma one_line_join: "one_line sep \<Longrightarrow> \<forall>s \<in> set ss. one_line s \<Longrightarrow> one_line (join_with sep ss)"
  by (induction sep ss rule: join_with.induct) simp_all

text \<open>A line break is a character of its own.\<close>

lemma scalar_one_line:
  assumes "is_scalar c" and "c \<noteq> [CHR 0x0A]" and "c \<noteq> [CHR 0x0D]"
  shows "one_line c"
proof -
  obtain a cs where c: "c = a # cs" "\<forall>b \<in> set cs. is_cont b" "utf8_width a = length c"
    using assms(1) by (auto elim: is_scalar_shape)
  have n: "\<not> is_cont (CHR 0x0A)" "\<not> is_cont (CHR 0x0D)" by (simp_all add: is_cont_def byte_def)
  have "utf8_width (CHR 0x0A) = 1" "utf8_width (CHR 0x0D) = 1" by (simp_all add: utf8_width_def byte_def)
  with c assms(2,3) n show ?thesis by (auto simp: one_line_def)
qed

lemma byte_hex_digit: "d < 16 \<Longrightarrow> 48 \<le> byte (hex_digit d)"
  by (simp add: hex_digit_def byte_def)

lemma one_line_bytes: "\<forall>c \<in> set s. 32 \<le> byte c \<Longrightarrow> one_line s"
  by (auto simp: one_line_def byte_def)

lemma hex_nat_bytes: "\<forall>c \<in> set (hex_nat n). 48 \<le> byte c"
proof (induction n rule: hex_nat.induct)
  case (1 n)
  then show ?case by (subst hex_nat.simps) (auto simp: byte_hex_digit)
qed

lemma one_line_hex [simp]: "one_line (hex_nat n)"
  using hex_nat_bytes [of n] by (intro one_line_bytes) auto

lemma dec_nat_bytes: "\<forall>c \<in> set (dec_nat n). 48 \<le> byte c"
proof (induction n rule: dec_nat.induct)
  case (1 n)
  then show ?case by (subst dec_nat.simps) (auto simp: byte_digit_char)
qed

lemma one_line_dec [simp]: "one_line (dec_nat n)"
  using dec_nat_bytes [of n] by (intro one_line_bytes) auto

lemma one_line_escape: "is_scalar c \<Longrightarrow> one_line (escape_char verbatim c)"
  by (auto simp: escape_char_def scalar_one_line)

lemma one_line_debug [simp]: "one_line (debug_str verbatim s)"
  by (auto simp: debug_str_def one_line_concat one_line_escape str_chars_scalar)

lemma one_line_debug_set [simp]: "one_line (debug_set verbatim keys)"
proof -
  have "one_line (join_with '', '' (map (debug_str verbatim) (sort (remdups keys))))"
    by (rule one_line_join) auto
  then show ?thesis by (simp add: debug_set_def)
qed

end
