(* ===== verification/Processes.thy ===== *)
theory Processes
  imports Scanner_Loop Text_Format
begin

text \<open>
  The process list, \<open>get_process_list_with_system\<close> of \<open>src/process/mod.rs\<close>, and the scanner over a series
  of listings. What sysinfo knows of a process is a record of raw bytes; \<open>None\<close> is a listing whose
  blocking task failed.
\<close>

record raw_process =
  rp_pid :: u32
  rp_exe :: "str option"
  rp_cmd :: "str list"

definition to_process_info :: "raw_process \<Rightarrow> process_info option" where
  "to_process_info p =
     (case rp_exe p of
        None \<Rightarrow> None
      | Some exe \<Rightarrow>
          (let path = from_utf8_lossy exe
           in if path = [] then None
              else Some \<lparr>pi_pid = rp_pid p, pi_path = path,
                         pi_args = map from_utf8_lossy (drop 1 (rp_cmd p))\<rparr>))"

definition process_list :: "raw_process list option \<Rightarrow> process_info list" where
  "process_list listing =
     (case listing of None \<Rightarrow> [] | Some procs \<Rightarrow> List.map_filter to_process_info procs)"

text \<open>The loop of the scanner over the same database: one listing and one scan per turn.\<close>

fun scan_series ::
  "db_lib \<Rightarrow> json_lib \<Rightarrow> bool \<Rightarrow> (active_map \<Rightarrow> active_map) \<Rightarrow> detectable_db
   \<Rightarrow> ((nat \<Rightarrow> readings) \<times> raw_process list option) list \<Rightarrow> active_map \<Rightarrow> server_state
   \<Rightarrow> (active_map \<times> server_state) exec" where
  "scan_series L J ovf order db [] active st = Ret (active, st)"
| "scan_series L J ovf order db ((clock, listing) # turns) active st =
     exec_bind (scan_once L J ovf order clock db active (process_list listing) st)
       (\<lambda>(active1, st1). scan_series L J ovf order db turns active1 st1)"

section \<open>Properties\<close>

lemma process_list_paths: "p \<in> set (process_list listing) \<Longrightarrow> valid_utf8 (pi_path p) \<and> pi_path p \<noteq> []"
  by (cases listing)
    (auto simp: process_list_def List.map_filter_def to_process_info_def Let_def split: option.splits if_splits)

lemma valid_process_list [simp]: "valid_paths (process_list listing)"
  using process_list_paths by (simp add: valid_paths_def)

lemma process_list_None [simp]: "process_list None = []"
  by (simp add: process_list_def)

text \<open>What of the environment a series of scans relies on; the listings are arbitrary bytes.\<close>

definition series_setting ::
  "db_lib \<Rightarrow> json_lib \<Rightarrow> (active_map \<Rightarrow> active_map) \<Rightarrow> detectable_entry list \<Rightarrow> detectable_db \<Rightarrow> bool" where
  "series_setting L J order entries db \<longleftrightarrow>
     json_library J \<and> hash_order order \<and> represents L entries db \<and> (\<forall>e \<in> set entries. valid_entry e)"

lemma series_scan_setting:
  "series_setting L J order entries db \<Longrightarrow> \<forall>k. clock3_ok (clock k) \<Longrightarrow>
   scan_setting L J order clock entries db (process_list listing)"
  by (simp add: series_setting_def scan_setting_def)

text \<open>
  The scanner over time: for any series of listings, whatever bytes the paths and arguments are
  and whichever listings fail, no scan panics; a consumer that replays all events by process id is always
  in step with \<open>active\<close>, and \<open>active\<close> is exactly the games of the last listing, so that after a failed
  listing every game has been reported as lost.
\<close>

theorem scan_series_in_step:
  assumes "series_setting L J order entries db" and "\<forall>(clock, listing) \<in> set turns. \<forall>k. clock3_ok (clock k)"
  shows "\<exists>active' evs. scan_series L J ovf order db turns active st = Ret (active', push_events evs st)
    \<and> fold replay_one (map ev_summary evs) (map_of active) = map_of active'
    \<and> (turns \<noteq> [] \<longrightarrow> map_of active' = db_games entries (process_list (snd (last turns))))
    \<and> (turns \<noteq> [] \<and> snd (last turns) = None \<longrightarrow> map_of active' = Map.empty)"
  using assms(2)
proof (induction turns arbitrary: active st)
  case Nil
  show ?case by (intro exI [of _ active] exI [of _ "[]"]) simp
next
  case (Cons turn turns)
  obtain clock listing where t: "turn = (clock, listing)" by (cases turn)
  have "scan_setting L J order clock entries db (process_list listing)"
    using series_scan_setting [OF assms(1)] Cons.prems t by simp
  from scan_exact [OF this, of ovf active st] obtain a1 e1
    where s: "scan_once L J ovf order clock db active (process_list listing) st = Ret (a1, push_events e1 st)"
      and g: "map_of a1 = db_games entries (process_list listing)"
      and r: "fold replay_one (map ev_summary e1) (map_of active) = map_of a1" by blast
  obtain a2 e2 where s2: "scan_series L J ovf order db turns a1 (push_events e1 st)
        = Ret (a2, push_events e2 (push_events e1 st))"
    and r2: "fold replay_one (map ev_summary e2) (map_of a1) = map_of a2"
    and g2: "turns \<noteq> [] \<longrightarrow> map_of a2 = db_games entries (process_list (snd (last turns)))"
    using Cons.IH [of a1 "push_events e1 st"] Cons.prems by auto
  have "turns = [] \<Longrightarrow> a2 = a1" using s2 by simp
  then have g3: "map_of a2 = db_games entries (process_list (snd (last (turn # turns))))"
    using g g2 t by (cases "turns = []") simp_all
  moreover have "db_games entries [] = Map.empty" by (simp add: db_games_def fun_eq_iff)
  ultimately show ?case
    using s s2 r r2 t by (intro exI [of _ a2] exI [of _ "e1 @ e2"]) auto
qed

definition sample_raw :: "raw_process list" where
  "sample_raw =
     [\<lparr>rp_pid = 10, rp_exe = Some ''/opt/csgo'', rp_cmd = [''csgo'', ''-novid'']\<rparr>,
      \<lparr>rp_pid = 11, rp_exe = Some ''/usr/bin/hl2'', rp_cmd = []\<rparr>,
      \<lparr>rp_pid = 12, rp_exe = None, rp_cmd = [''kthread'']\<rparr>,
      \<lparr>rp_pid = 13, rp_exe = Some [CHR 0xFF], rp_cmd = []\<rparr>]"

theorem scan_series_in_step_witness:
  "\<exists>db active' evs. scan_series sample_lib ordered_lib True (\<lambda>m. m) db
      [(\<lambda>_. (0, sample_clock), Some sample_raw), (\<lambda>_. (0, sample_clock), None)] [] server_new
    = Ret (active', push_events evs server_new)
    \<and> map_of active' = Map.empty \<and> fold replay_one (map ev_summary evs) Map.empty = Map.empty"
proof -
  obtain db where s: "scan_setting sample_lib ordered_lib (\<lambda>m. m) (\<lambda>_. (0, sample_clock)) sample_entries3 db sample_procs"
    using sample_setting .
  then have "series_setting sample_lib ordered_lib (\<lambda>m. m) sample_entries3 db"
    by (simp add: series_setting_def scan_setting_def)
  from scan_series_in_step [OF this, of "[(\<lambda>_. (0, sample_clock), Some sample_raw), (\<lambda>_. (0, sample_clock), None)]"
      True "[]" server_new]
  show ?thesis by (auto simp: clock3_ok_def intro!: exI [of _ db])
qed

end
