(* ===== verification/Scanner_Run.thy ===== *)
theory Scanner_Run
  imports Processes
begin

text \<open>
  The whole scanner task, \<open>start_process_scanner\<close> of \<open>src/process/mod.rs\<close>: start-up, then turn after turn a
  refresh when it is due, a process listing and a scan. What may fail in a turn fails: the fetch, the
  rebuild, the listing.
\<close>

section \<open>The task\<close>

text \<open>
  What the environment contributes to a turn. \<open>tn_now\<close> and \<open>tn_refreshed\<close> are times since start in seconds:
  when the turn asks whether a refresh is due, and when a refresh it makes is over.
\<close>

record scan_turn =
  tn_io :: scanner_io
  tn_clock :: "nat \<Rightarrow> readings"
  tn_now :: nat
  tn_refreshed :: nat
  tn_listing :: "raw_process list option"

fun scanner_run ::
  "db_lib \<Rightarrow> serde_det \<Rightarrow> json_lib \<Rightarrow> bool \<Rightarrow> (active_map \<Rightarrow> active_map) \<Rightarrow> scan_turn list
   \<Rightarrow> scanner_state \<Rightarrow> server_state \<Rightarrow> (scanner_state \<times> server_state) exec" where
  "scanner_run L S J ovf order [] sn st = Ret (sn, st)"
| "scanner_run L S J ovf order (t # turns) sn st =
     exec_bind
       (scanner_tick L S J ovf order (tn_io t) (tn_clock t) (tn_now t) (tn_refreshed t) (process_list (tn_listing t)) sn st)
       (\<lambda>(sn1, st1). scanner_run L S J ovf order turns sn1 st1)"

text \<open>\<open>None\<close>: the database could not be built and the task has ended.\<close>

definition start_process_scanner ::
  "db_lib \<Rightarrow> serde_det \<Rightarrow> json_lib \<Rightarrow> bool \<Rightarrow> (active_map \<Rightarrow> active_map) \<Rightarrow> scanner_io \<Rightarrow> disk \<Rightarrow> str option
   \<Rightarrow> nat \<Rightarrow> scan_turn list \<Rightarrow> server_state \<Rightarrow> (scanner_state option \<times> server_state) exec" where
  "start_process_scanner L S J ovf order io dk etag now turns st =
     (case initial_db L S io dk etag of
        (None, dk1, etag1) \<Rightarrow> Ret (None, st)
      | (Some db, dk1, etag1) \<Rightarrow>
          exec_map (\<lambda>(sn, st1). (Some sn, st1))
            (scanner_run L S J ovf order turns
               \<lparr>sn_db = db, sn_disk = dk1, sn_etag = etag1, sn_active = [], sn_last_refresh = now\<rparr> st))"

section \<open>Refreshes that fail\<close>

definition rebuild_works :: "db_lib \<Rightarrow> io_env \<Rightarrow> detectable_entry list \<Rightarrow> bool" where
  "rebuild_works L env entries \<longleftrightarrow> serialisable L entries \<and> io_create env \<and> io_write_txn env \<and> io_write_fst env"

lemma ingest_loop_None: "\<not> serialisable L entries \<Longrightarrow> ingest_loop L entries apps m = None"
  by (induction entries arbitrary: apps m) (auto simp: serialisable_def split: option.split)

lemma rebuild_fails:
  assumes "\<not> rebuild_works L env entries"
  obtains e dk' where "rebuild_with_fst L env entries dk = (Inl e, dk')"
proof (cases "serialisable L entries")
  case False
  from that ingest_loop_None [OF False] show thesis
    by (cases "io_create env") (simp_all add: rebuild_with_fst_def ingest_entries_def Let_def)
next
  case True
  with assms have "io_create env \<Longrightarrow> \<not> io_write_txn env \<or> \<not> io_write_fst env" by (simp add: rebuild_works_def)
  then have "io_create env \<Longrightarrow> \<exists>e dk'. ingest_entries L env entries this dk1 = (Inl e, dk')" for this dk1
    by (auto simp: ingest_entries_def Let_def write_fst_file_def split: option.split)
  then show thesis
    using that by (cases "io_create env") (simp_all add: rebuild_with_fst_def Let_def, metis)
qed

lemma refresh_any:
  assumes "db_library L" and "io_remove (sc_env io)"
    and "load_detectable_entries S (sc_send io) (sc_etag_writable io) etag = (fetched, etag1)"
  obtains db' dk' where "refresh_db L S io db dk etag = (db', dk', etag1)"
    and "if fetched \<noteq> [] \<and> rebuild_works L (sc_env io) fetched then represents L fetched db' else db' = db"
proof (cases "fetched \<noteq> [] \<and> rebuild_works L (sc_env io) fetched")
  case True
  then have "env_ok (sc_env io) dk" "serialisable L fetched"
    using assms(2) by (simp_all add: env_ok_def rebuild_works_def)
  with refresh_spec [OF assms(1) _ assms(3)] True that show thesis by metis
next
  case False
  show thesis
  proof (cases "fetched = []")
    case True
    with assms(3) that show thesis by (simp add: refresh_db_def)
  next
    case ne: False
    obtain e dk' where "rebuild_with_fst L (sc_env io) fetched dk = (Inl e, dk')"
      using rebuild_fails False ne by metis
    with assms(3) ne False that show thesis by (simp add: refresh_db_def)
  qed
qed

section \<open>What the task does\<close>

text \<open>
  The specification: the list in force, the ETag and the time of the last refresh. Of a turn it is assumed
  that a stale database can be removed, that the clocks are sane and that the decoder yields strings; the
  fetch, the writing and the listing may fail.
\<close>

definition next_list ::
  "db_lib \<Rightarrow> serde_det \<Rightarrow> scan_turn \<Rightarrow> detectable_entry list \<times> str option \<times> nat
   \<Rightarrow> detectable_entry list \<times> str option \<times> nat" where
  "next_list L S t cur =
     (case cur of (entries, etag, refreshed) \<Rightarrow>
        if tn_now t - refreshed > week_secs
        then (let (fetched, etag1) =
                load_detectable_entries S (sc_send (tn_io t)) (sc_etag_writable (tn_io t)) etag
              in (if fetched \<noteq> [] \<and> rebuild_works L (sc_env (tn_io t)) fetched then fetched else entries,
                  etag1, tn_refreshed t))
        else cur)"

definition turn_ok :: "serde_det \<Rightarrow> scan_turn \<Rightarrow> bool" where
  "turn_ok S t \<longleftrightarrow> io_remove (sc_env (tn_io t)) \<and> (\<forall>k. clock3_ok (tn_clock t k))
     \<and> (\<forall>etag. \<forall>e \<in> set (fst (load_detectable_entries S (sc_send (tn_io t)) (sc_etag_writable (tn_io t)) etag)).
          valid_entry e)"

lemma tick_any:
  assumes L: "db_library L" and s: "series_setting L J order entries (sn_db sn)" and t: "turn_ok S t"
    and n: "next_list L S t (entries, sn_etag sn, sn_last_refresh sn) = (entries', etag', refreshed')"
  obtains sn' evs where
    "scanner_tick L S J ovf order (tn_io t) (tn_clock t) (tn_now t) (tn_refreshed t) (process_list (tn_listing t)) sn st
      = Ret (sn', push_events evs st)"
    and "series_setting L J order entries' (sn_db sn')" and "sn_etag sn' = etag'"
    and "sn_last_refresh sn' = refreshed'"
    and "map_of (sn_active sn') = db_games entries' (process_list (tn_listing t))"
    and "fold replay_one (map ev_summary evs) (map_of (sn_active sn)) = map_of (sn_active sn')"
proof -
  let ?io = "tn_io t" and ?due = "tn_now t - sn_last_refresh sn > week_secs"
  obtain fetched etag1 where l:
    "load_detectable_entries S (sc_send ?io) (sc_etag_writable ?io) (sn_etag sn) = (fetched, etag1)"
    by fastforce
  have "io_remove (sc_env ?io)" using t by (simp add: turn_ok_def)
  then obtain db1 dk1 where r: "refresh_db L S ?io (sn_db sn) (sn_disk sn) (sn_etag sn) = (db1, dk1, etag1)"
    and d: "if fetched \<noteq> [] \<and> rebuild_works L (sc_env ?io) fetched then represents L fetched db1 else db1 = sn_db sn"
    by (rule refresh_any [OF L _ l])
  define sn1 where "sn1 = (if ?due
    then sn\<lparr>sn_db := db1, sn_disk := dk1, sn_etag := etag1, sn_last_refresh := tn_refreshed t\<rparr> else sn)"
  have v: "\<forall>e \<in> set fetched. valid_entry e" using t l by (auto simp: turn_ok_def dest: spec [of _ "sn_etag sn"])
  have n1: "sn_etag sn1 = etag'" "sn_last_refresh sn1 = refreshed'"
    using n l by (auto simp: next_list_def sn1_def split: if_splits)
  have s1: "series_setting L J order entries' (sn_db sn1)"
    using s n l d v by (auto simp: next_list_def sn1_def series_setting_def split: if_splits)
  have "scan_setting L J order (tn_clock t) entries' (sn_db sn1) (process_list (tn_listing t))"
    by (rule series_scan_setting [OF s1]) (use t in \<open>simp add: turn_ok_def\<close>)
  from scan_exact [OF this, of ovf "sn_active sn" st]
  obtain a evs where a: "scan_once L J ovf order (tn_clock t) (sn_db sn1) (sn_active sn)
      (process_list (tn_listing t)) st = Ret (a, push_events evs st)"
    and g: "map_of a = db_games entries' (process_list (tn_listing t))"
    and f: "fold replay_one (map ev_summary evs) (map_of (sn_active sn)) = map_of a" by blast
  have act: "sn_active sn1 = sn_active sn" by (simp add: sn1_def)
  have "scanner_tick L S J ovf order ?io (tn_clock t) (tn_now t) (tn_refreshed t) (process_list (tn_listing t)) sn st
      = Ret (sn1\<lparr>sn_active := a\<rparr>, push_events evs st)"
    using a act by (cases "?due") (simp_all add: scanner_tick_def Let_def r sn1_def)
  with that s1 n1 g f show thesis by simp
qed

lemma scanner_run_any:
  assumes "db_library L" and "series_setting L J order entries (sn_db sn)" and "\<forall>t \<in> set turns. turn_ok S t"
    and "fold (next_list L S) turns (entries, sn_etag sn, sn_last_refresh sn) = (entries', etag', refreshed')"
  shows "\<exists>sn' evs. scanner_run L S J ovf order turns sn st = Ret (sn', push_events evs st)
    \<and> represents L entries' (sn_db sn') \<and> sn_etag sn' = etag' \<and> sn_last_refresh sn' = refreshed'
    \<and> (turns \<noteq> [] \<longrightarrow> map_of (sn_active sn') = db_games entries' (process_list (tn_listing (last turns))))
    \<and> fold replay_one (map ev_summary evs) (map_of (sn_active sn)) = map_of (sn_active sn')"
  using assms(2-)
proof (induction turns arbitrary: entries sn st)
  case Nil
  then show ?case by (intro exI [of _ sn] exI [of _ "[]"]) (simp add: series_setting_def)
next
  case (Cons t turns)
  obtain e1 g1 r1 where n: "next_list L S t (entries, sn_etag sn, sn_last_refresh sn) = (e1, g1, r1)"
    using prod_cases3 by blast
  have t: "turn_ok S t" using Cons.prems(2) by simp
  obtain sn1 evs1 where s: "scanner_tick L S J ovf order (tn_io t) (tn_clock t) (tn_now t)
        (tn_refreshed t) (process_list (tn_listing t)) sn st = Ret (sn1, push_events evs1 st)"
    and s1: "series_setting L J order e1 (sn_db sn1)" "sn_etag sn1 = g1" "sn_last_refresh sn1 = r1"
    and g: "map_of (sn_active sn1) = db_games e1 (process_list (tn_listing t))"
    and f: "fold replay_one (map ev_summary evs1) (map_of (sn_active sn)) = map_of (sn_active sn1)"
    using tick_any [OF assms(1) Cons.prems(1) t n] .
  have rest: "fold (next_list L S) turns (e1, sn_etag sn1, sn_last_refresh sn1) = (entries', etag', refreshed')"
    using Cons.prems(3) n s1 by simp
  obtain sn2 evs2 where r: "scanner_run L S J ovf order turns sn1 (push_events evs1 st)
        = Ret (sn2, push_events evs2 (push_events evs1 st))"
    and h: "represents L entries' (sn_db sn2)" "sn_etag sn2 = etag'" "sn_last_refresh sn2 = refreshed'"
    and a: "turns \<noteq> [] \<longrightarrow> map_of (sn_active sn2) = db_games entries' (process_list (tn_listing (last turns)))"
    and f2: "fold replay_one (map ev_summary evs2) (map_of (sn_active sn1)) = map_of (sn_active sn2)"
    using Cons.IH [OF s1(1) _ rest, of "push_events evs1 st"] Cons.prems(2) by auto
  have "map_of (sn_active sn2) = db_games entries' (process_list (tn_listing (last (t # turns))))"
    using a r rest g by (cases "turns = []") auto
  with s r h f f2 show ?case
    by (intro exI [of _ sn2] exI [of _ "evs1 @ evs2"]) (simp del: scanner_tick_def)
qed

text \<open>
  Claim C9. The scanner task over its whole life. Started from a database that represents some list, and for
  any sequence of turns in which fetches, rebuilds and listings may fail, it never panics; the list in force
  is the last one that was fetched when due and could be stored; \<open>active\<close> is exactly the games of the
  last listing according to it; and a consumer that replays all events by process id is in step with
  \<open>active\<close>. After a failed listing every game has been reported as lost.
\<close>

theorem scanner_task_exact:
  assumes "db_library L" and "json_library J" and "hash_order order"
    and "initial_db L S io dk etag = (Some db, dk1, etag1)" and "represents L entries db"
    and "\<forall>e \<in> set entries. valid_entry e" and "\<forall>t \<in> set turns. turn_ok S t"
    and "fold (next_list L S) turns (entries, etag1, now) = (entries', etag', refreshed')"
  shows "\<exists>sn evs. start_process_scanner L S J ovf order io dk etag now turns st = Ret (Some sn, push_events evs st)
    \<and> represents L entries' (sn_db sn) \<and> sn_etag sn = etag' \<and> sn_last_refresh sn = refreshed'
    \<and> fold replay_one (map ev_summary evs) Map.empty = map_of (sn_active sn)
    \<and> (turns \<noteq> [] \<longrightarrow> map_of (sn_active sn) = db_games entries' (process_list (tn_listing (last turns))))
    \<and> (turns \<noteq> [] \<and> tn_listing (last turns) = None \<longrightarrow> map_of (sn_active sn) = Map.empty)"
proof -
  let ?sn = "\<lparr>sn_db = db, sn_disk = dk1, sn_etag = etag1, sn_active = [], sn_last_refresh = now\<rparr>"
  have "series_setting L J order entries (sn_db ?sn)"
    using assms(2,3,5,6) by (simp add: series_setting_def)
  from scanner_run_any [OF assms(1) this assms(7), of entries' etag' refreshed' ovf st] assms(8)
  obtain sn evs where r: "scanner_run L S J ovf order turns ?sn st = Ret (sn, push_events evs st)"
    and q: "represents L entries' (sn_db sn)" "sn_etag sn = etag'" "sn_last_refresh sn = refreshed'"
      "turns \<noteq> [] \<longrightarrow> map_of (sn_active sn) = db_games entries' (process_list (tn_listing (last turns)))"
      "fold replay_one (map ev_summary evs) Map.empty = map_of (sn_active sn)"
    by auto
  have "db_games entries' [] = Map.empty" by (simp add: db_games_def fun_eq_iff)
  with r q assms(4) show ?thesis
    by (intro exI [of _ sn] exI [of _ evs]) (simp add: start_process_scanner_def)
qed

definition sample_serde3 :: serde_det where
  "sample_serde3 = sample_serde\<lparr>sd_entries := \<lambda>_. Some sample_entries3\<rparr>"

definition sample_fetch :: scanner_io where
  "sample_fetch = sample_io (\<lambda>_. Some \<lparr>rs_status = 200, rs_etag = Some ''new'', rs_body = []\<rparr>)"

definition sample_turn :: "nat \<Rightarrow> raw_process list option \<Rightarrow> scan_turn" where
  "sample_turn now listing =
     \<lparr>tn_io = sample_fetch, tn_clock = \<lambda>_. (0, sample_clock), tn_now = now, tn_refreshed = now + 30, tn_listing = listing\<rparr>"

lemma sample_load:
  "load_detectable_entries sample_serde3 (sc_send sample_fetch) (sc_etag_writable sample_fetch) etag
    = (sample_entries3, Some ''new'')"
  by (simp add: load_detectable_entries_def fetch_detectable_def parse_detectable_entries_def
      save_etag_def sample_io_def sample_fetch_def sample_serde3_def)

lemma sample_initial:
  obtains db dk1 where
    "initial_db sample_lib sample_serde3 sample_fetch no_files None = (Some db, dk1, Some ''new'')"
    and "represents sample_lib sample_entries3 db"
proof -
  have env: "sc_env sample_fetch = good_env" by (simp add: sample_fetch_def sample_io_def)
  obtain db dk1 where r: "rebuild_with_fst sample_lib good_env sample_entries3 no_files = (Inr db, dk1)"
    using sample.rebuild_result [OF env_ok_good serialisable_sample] by metis
  have "sample_entries3 \<noteq> []" by (simp add: sample_entries3_def)
  moreover obtain db' dk' where "refresh_db sample_lib sample_serde3 sample_fetch db no_files None
      = (db', dk', Some ''new'')" "represents sample_lib sample_entries3 db'"
    using refresh_spec [OF sample_library _ sample_load serialisable_sample, of no_files db None] calculation
    by (simp add: env) blast
  ultimately have "represents sample_lib sample_entries3 db"
    using r by (simp add: refresh_db_def sample_load env)
  moreover have "initial_db sample_lib sample_serde3 sample_fetch no_files None = (Some db, dk1, Some ''new'')"
    using r by (simp add: initial_db_def open_with_fst_def no_files_def sample_load env)
  ultimately show thesis by (rule that [rotated])
qed

lemma sample_turn_ok [simp]: "turn_ok sample_serde3 (sample_turn now listing)"
  using sample_entries3_valid
  by (simp add: turn_ok_def sample_turn_def sample_load clock3_ok_def)
    (simp add: sample_fetch_def sample_io_def good_env_def)

theorem scanner_task_exact_witness:
  "\<exists>sn evs. start_process_scanner sample_lib sample_serde3 ordered_lib True (\<lambda>m. m) sample_fetch no_files None 0
      [sample_turn 5 (Some sample_raw), sample_turn 700000 None] server_new = Ret (Some sn, push_events evs server_new)
    \<and> map_of (sn_active sn) = Map.empty \<and> sn_last_refresh sn = 700030"
proof -
  obtain db dk1 where i: "initial_db sample_lib sample_serde3 sample_fetch no_files None = (Some db, dk1, Some ''new'')"
    and r: "represents sample_lib sample_entries3 db" by (rule sample_initial)
  let ?turns = "[sample_turn 5 (Some sample_raw), sample_turn 700000 None]"
  have t: "\<forall>t \<in> set ?turns. turn_ok sample_serde3 t" by simp
  obtain e g where f: "fold (next_list sample_lib sample_serde3) ?turns (sample_entries3, Some ''new'', 0) = (e, g, 700030)"
    by (simp add: next_list_def sample_turn_def sample_load week_secs_def)
  from scanner_task_exact [OF sample_library ordered_json.json_library_axioms scan.hash_order_axioms i r
      sample_entries3_valid t f, of True server_new]
  show ?thesis by (auto simp: sample_turn_def)
qed

end
