(* ===== verification/Launch.thy ===== *)
theory Launch
  imports Startup Scanner_Run "HOL-Library.Multiset"
begin

text \<open>
  The start of the process, \<open>main\<close> of \<open>src/main.rs\<close>: the spawned tasks and the WebSocket server, which \<open>main\<close>
  itself awaits, start in whatever order the runtime picks, compete for TCP ports, and may each fail to
  start. Which of them run afterwards, and when the process ends.
\<close>

section \<open>Starting the tasks\<close>

datatype starter = Spawned task | WsMain

definition starters :: "cli \<Rightarrow> starter list" where
  "starters c = map Spawned (spawned_tasks c) @ (if \<not> cli_no_ws c then [WsMain] else [])"

text \<open>
  \<open>la_free\<close>: the TCP ports that can be bound; \<open>la_up\<close>: the spawned tasks that serve; \<open>la_ws\<close>: the port of the
  WebSocket server. When \<open>start_ws_server\<close> returns, \<open>main\<close> does, the runtime is dropped, and every
  spawned task ends with it.
\<close>

record launch =
  la_free :: "u16 \<Rightarrow> bool"
  la_up :: "task list"
  la_ws :: "u16 option"
  la_exited :: bool

text \<open>
  A bridge without its port, an IPC server without a socket and a scanner without a database return, which
  ends that task alone. \<open>ipc\<close> and \<open>db\<close> are what \<open>find_available_socket\<close> and \<open>initial_db\<close> found.
\<close>

definition start_task :: "str option \<Rightarrow> detectable_db option \<Rightarrow> task \<Rightarrow> launch \<Rightarrow> launch" where
  "start_task ipc db t l =
     (case t of
        BridgeTask port \<Rightarrow>
          if la_free l port
          then l\<lparr>la_free := (la_free l)(port := False), la_up := la_up l @ [BridgeTask port]\<rparr> else l
      | ScannerTask \<Rightarrow> (case db of None \<Rightarrow> l | Some _ \<Rightarrow> l\<lparr>la_up := la_up l @ [ScannerTask]\<rparr>)
      | IpcTask \<Rightarrow> (case ipc of None \<Rightarrow> l | Some _ \<Rightarrow> l\<lparr>la_up := la_up l @ [IpcTask]\<rparr>))"

definition start_one :: "str option \<Rightarrow> detectable_db option \<Rightarrow> starter \<Rightarrow> launch \<Rightarrow> launch" where
  "start_one ipc db s l =
     (if la_exited l then l
      else
        (case s of
           Spawned t \<Rightarrow> start_task ipc db t l
         | WsMain \<Rightarrow>
             (case scan_ports (la_free l) ws_ports of
                None \<Rightarrow> l\<lparr>la_up := [], la_exited := True\<rparr>
              | Some port \<Rightarrow> l\<lparr>la_free := (la_free l)(port := False), la_ws := Some port\<rparr>)))"

definition main_outcome ::
  "(u16 \<Rightarrow> bool) \<Rightarrow> (str \<Rightarrow> str option) \<Rightarrow> (str \<Rightarrow> bool) \<Rightarrow> (str \<Rightarrow> bool) \<Rightarrow> detectable_db option \<Rightarrow> starter list \<Rightarrow> launch" where
  "main_outcome can_bind env connects binds db order =
     fold (start_one (fst (find_available_socket env connects binds)) db) order
       \<lparr>la_free = can_bind, la_up = [], la_ws = None, la_exited = False\<rparr>"

section \<open>Tasks that start one after the other\<close>

definition can_run :: "(u16 \<Rightarrow> bool) \<Rightarrow> str option \<Rightarrow> detectable_db option \<Rightarrow> task \<Rightarrow> bool" where
  "can_run free ipc db t =
     (case t of BridgeTask port \<Rightarrow> free port | ScannerTask \<Rightarrow> db \<noteq> None | IpcTask \<Rightarrow> ipc \<noteq> None)"

lemma start_one_Spawned:
  "\<not> la_exited l \<Longrightarrow> start_one ipc db (Spawned t) l =
     l\<lparr>la_free := (\<lambda>p. la_free l p \<and> BridgeTask p \<noteq> t),
       la_up := la_up l @ (if can_run (la_free l) ipc db t then [t] else [])\<rparr>"
  by (cases l) (auto simp: start_one_def start_task_def can_run_def fun_eq_iff split: task.split option.split)

lemma start_spawned:
  "distinct ts \<Longrightarrow> \<not> la_exited l \<Longrightarrow> fold (start_one ipc db) (map Spawned ts) l =
     l\<lparr>la_free := (\<lambda>p. la_free l p \<and> BridgeTask p \<notin> set ts),
       la_up := la_up l @ filter (can_run (la_free l) ipc db) ts\<rparr>"
proof (induction ts arbitrary: l)
  case (Cons t ts)
  let ?l = "start_one ipc db (Spawned t) l"
  have l: "?l = l\<lparr>la_free := (\<lambda>p. la_free l p \<and> BridgeTask p \<noteq> t),
      la_up := la_up l @ (if can_run (la_free l) ipc db t then [t] else [])\<rparr>"
    by (rule start_one_Spawned [OF Cons.prems(2)])
  have "filter (can_run (\<lambda>p. la_free l p \<and> BridgeTask p \<noteq> t) ipc db) ts = filter (can_run (la_free l) ipc db) ts"
    using Cons.prems(1) by (intro filter_cong) (auto simp: can_run_def split: task.split)
  with Cons.IH [of ?l] Cons.prems show ?case by (simp add: l)
qed simp

lemma scan_ports_find: "scan_ports can_bind ports = find can_bind ports"
  by (induction ports) auto

section \<open>The order of the starts\<close>

definition precedes :: "'a \<Rightarrow> 'a \<Rightarrow> 'a list \<Rightarrow> bool" where
  "precedes x y xs \<longleftrightarrow> (\<exists>as bs cs. xs = as @ x # bs @ y # cs)"

lemma precedes_split: "y \<notin> set xs \<Longrightarrow> y \<notin> set ys \<Longrightarrow> x \<noteq> y \<Longrightarrow> precedes x y (xs @ y # ys) \<longleftrightarrow> x \<in> set xs"
proof
  assume "y \<notin> set xs" "y \<notin> set ys" "x \<noteq> y" "precedes x y (xs @ y # ys)"
  then obtain as bs cs where "xs @ y # ys = (as @ x # bs) @ y # cs" by (auto simp: precedes_def)
  with \<open>y \<notin> set xs\<close> \<open>y \<notin> set ys\<close> have "xs = as @ x # bs"
    by (metis append_Cons_eq_iff in_set_conv_decomp)
  then show "x \<in> set xs" by simp
next
  assume "x \<in> set xs"
  then obtain as bs where "xs = as @ x # bs" by (meson split_list)
  then show "precedes x y (xs @ y # ys)" by (auto simp: precedes_def)
qed

lemma all_spawned: "WsMain \<notin> set order \<Longrightarrow> \<exists>ts. order = map Spawned ts"
proof (induction order)
  case (Cons s order)
  then obtain ts where "order = map Spawned ts" by auto
  with Cons.prems show ?case by (cases s) (auto intro: exI [of _ "_ # ts"])
qed simp

lemma distinct_spawned [simp]: "distinct (spawned_tasks c)"
  by (simp add: spawned_tasks_def)

lemma spawned_bridge: "BridgeTask p \<in> set (spawned_tasks c) \<longleftrightarrow> p = cli_bridge_port c"
  by (auto simp: spawned_tasks_def)

text \<open>A permutation of the starters: the spawned tasks before and after the WebSocket server.\<close>

lemma order_cases:
  assumes "mset order = mset (starters c)"
  obtains (no_ws) ts where "cli_no_ws c" "order = map Spawned ts" "distinct ts" "set ts = set (spawned_tasks c)"
  | (ws) ts us where "\<not> cli_no_ws c" "order = map Spawned ts @ WsMain # map Spawned us" "distinct ts" "distinct us"
      "set ts \<inter> set us = {}" "set ts \<union> set us = set (spawned_tasks c)"
proof -
  have d: "distinct order"
    using mset_eq_imp_distinct_iff [OF assms] by (auto simp: starters_def distinct_map inj_on_def)
  have o: "set order = set (starters c)" using assms by (rule mset_eq_setD)
  show thesis
  proof (cases "cli_no_ws c")
    case True
    then have "WsMain \<notin> set order" by (auto simp: o starters_def)
    then obtain ts where ts: "order = map Spawned ts" using all_spawned by blast
    with o True have "set ts = set (spawned_tasks c)" by (auto simp: starters_def)
    with ts d True show thesis by (intro no_ws [of ts]) (simp_all add: distinct_map)
  next
    case False
    then have "WsMain \<in> set order" by (simp add: o starters_def)
    then obtain xs ys where s: "order = xs @ WsMain # ys" by (meson split_list)
    then have "WsMain \<notin> set xs" "WsMain \<notin> set ys" using d by auto
    then obtain ts us where ts: "xs = map Spawned ts" "ys = map Spawned us" using all_spawned by metis
    have "Spawned ` (set ts \<union> set us) = Spawned ` set (spawned_tasks c)"
      using o False by (auto simp: s ts starters_def)
    then have "set ts \<union> set us = set (spawned_tasks c)" by (auto simp: image_iff)
    moreover have "set ts \<inter> set us = {}" using d by (auto simp: s ts)
    ultimately show thesis using False d s ts by (intro ws [of ts us]) (simp_all add: distinct_map)
  qed
qed

lemma start_exited: "la_exited l \<Longrightarrow> fold (start_one ipc db) ss l = l"
  by (induction ss) (simp_all add: start_one_def)

lemma find_None_set: "find P xs = None \<longleftrightarrow> (\<forall>x \<in> set xs. \<not> P x)"
  by (auto simp: find_None_iff)

text \<open>
  Claim C19. How the process starts, in whatever order the runtime starts its tasks. It ends by itself exactly
  when the WebSocket server is enabled and at its turn none of its ten ports can be bound, the bridge
  having possibly taken one of them; nothing is left running then. Otherwise the WebSocket server has
  the first of its ports that it could bind; the bridge runs exactly when its port could be bound and
  the WebSocket server has not taken it; the scanner when it is enabled and has got a database, the
  IPC server when it is enabled and has found a socket. A task that fails to start ends alone.
\<close>

theorem startup_outcome:
  assumes "mset order = mset (starters c)"
  shows "let l = main_outcome can_bind env connects binds db order; port = cli_bridge_port c;
      taken = precedes (Spawned (BridgeTask port)) WsMain order in
    (la_exited l \<longleftrightarrow> \<not> cli_no_ws c \<and> (\<forall>p. 6463 \<le> p \<and> p \<le> 6472 \<longrightarrow> \<not> can_bind p \<or> (p = port \<and> taken)))
    \<and> (la_exited l \<longrightarrow> la_up l = [])
    \<and> (\<not> la_exited l \<longrightarrow>
        la_ws l = (if cli_no_ws c then None else find (\<lambda>p. can_bind p \<and> \<not> (p = port \<and> taken)) ws_ports)
        \<and> (\<forall>t. t \<in> set (la_up l) \<longleftrightarrow>
             (case t of
                BridgeTask p \<Rightarrow> p = port \<and> can_bind p \<and> la_ws l \<noteq> Some p
              | ScannerTask \<Rightarrow> \<not> cli_no_scanner c \<and> db \<noteq> None
              | IpcTask \<Rightarrow> \<not> cli_no_ipc c \<and> fst (find_available_socket env connects binds) \<noteq> None)))"
proof -
  let ?ipc = "fst (find_available_socket env connects binds)" and ?port = "cli_bridge_port c"
  let ?init = "\<lparr>la_free = can_bind, la_up = [], la_ws = None, la_exited = False\<rparr>"
  let ?l = "main_outcome can_bind env connects binds db order"
  let ?taken = "precedes (Spawned (BridgeTask ?port)) WsMain order"
  have run: "t \<in> set (spawned_tasks c) \<and> can_run free ?ipc db t \<longleftrightarrow>
      (case t of BridgeTask p \<Rightarrow> p = ?port \<and> free p | ScannerTask \<Rightarrow> \<not> cli_no_scanner c \<and> db \<noteq> None
       | IpcTask \<Rightarrow> \<not> cli_no_ipc c \<and> ?ipc \<noteq> None)" for t free
    by (cases t) (auto simp: spawned_tasks_def can_run_def)
  show ?thesis
    using assms
  proof (cases rule: order_cases)
    case (no_ws ts)
    have "\<not> la_exited ?l" "la_ws ?l = None" "la_up ?l = filter (can_run can_bind ?ipc db) ts"
      by (simp_all add: main_outcome_def no_ws(2) start_spawned [OF no_ws(3)])
    then show ?thesis using no_ws(1,4) run [of _ can_bind] by (simp add: Let_def split: task.split)
  next
    case (ws ts us)
    let ?free = "\<lambda>p. can_bind p \<and> BridgeTask p \<notin> set ts"
    let ?mid = "?init\<lparr>la_free := ?free, la_up := filter (can_run can_bind ?ipc db) ts\<rparr>"
    have l1: "fold (start_one ?ipc db) (map Spawned ts) ?init = ?mid" by (simp add: start_spawned [OF ws(3)])
    have taken: "?taken \<longleftrightarrow> BridgeTask ?port \<in> set ts"
      unfolding ws(2) by (subst precedes_split) auto
    have bridge: "p = ?port" if "BridgeTask p \<in> set ts \<union> set us" for p
      using that spawned_bridge [of p c] unfolding ws(6) by simp
    have free: "?free = (\<lambda>p. can_bind p \<and> \<not> (p = ?port \<and> ?taken))"
      using bridge unfolding taken by (auto simp: fun_eq_iff)
    show ?thesis
    proof (cases "find ?free ws_ports")
      case None
      then have "la_exited ?l" "la_up ?l = []"
        by (simp_all add: main_outcome_def ws(2) l1 start_one_def scan_ports_find start_exited)
      moreover have "\<forall>p. 6463 \<le> p \<and> p \<le> 6472 \<longrightarrow> \<not> can_bind p \<or> (p = ?port \<and> ?taken)"
        using None unfolding find_None_set set_ws_ports free by auto
      ultimately show ?thesis using ws(1) by (simp add: Let_def) metis
    next
      case (Some w)
      let ?free2 = "?free(w := False)"
      have w: "?free w" "w \<in> set ws_ports" using Some by (auto simp: find_Some_iff)
      have l: "\<not> la_exited ?l" "la_ws ?l = Some w"
        "la_up ?l = filter (can_run can_bind ?ipc db) ts @ filter (can_run ?free2 ?ipc db) us"
        using Some by (simp_all add: main_outcome_def ws(2) l1 start_one_def scan_ports_find start_spawned [OF ws(4)])
      have some: "\<not> (\<forall>p. 6463 \<le> p \<and> p \<le> 6472 \<longrightarrow> \<not> can_bind p \<or> (p = ?port \<and> ?taken))"
        using w fun_cong [OF free, of w] unfolding set_ws_ports by blast
      have up: "t \<in> set (la_up ?l) \<longleftrightarrow> (case t of BridgeTask p \<Rightarrow> p = ?port \<and> can_bind p \<and> la_ws ?l \<noteq> Some p
           | ScannerTask \<Rightarrow> \<not> cli_no_scanner c \<and> db \<noteq> None | IpcTask \<Rightarrow> \<not> cli_no_ipc c \<and> ?ipc \<noteq> None)" for t
      proof (cases t)
        case (BridgeTask p)
        have "BridgeTask p \<in> set ts \<union> set us \<longleftrightarrow> p = ?port" unfolding ws(6) by (rule spawned_bridge)
        then show ?thesis using ws(5) w(1) by (auto simp: l BridgeTask can_run_def)
      qed (use ws(6) run [of t can_bind] in \<open>auto simp: l can_run_def\<close>)
      have "la_ws ?l = (if cli_no_ws c then None else find (\<lambda>p. can_bind p \<and> \<not> (p = ?port \<and> ?taken)) ws_ports)"
        using ws(1) l(2) Some unfolding free by simp
      with l(1) some up show ?thesis unfolding Let_def by blast
    qed
  qed
qed

text \<open>
  With the bridge port in the range of the WebSocket ports the order decides: the bridge first, it takes the
  port; the WebSocket server first, the bridge is left without.
\<close>

theorem startup_outcome_witness:
  "let c = \<lparr>cli_bridge_port = 6463, cli_no_ipc = True, cli_no_ws = False, cli_no_scanner = True\<rparr>;
       run = main_outcome (\<lambda>p. p = 6463) (\<lambda>_. None) (\<lambda>_. False) (\<lambda>_. False) None in
   la_exited (run [Spawned (BridgeTask 6463), WsMain]) \<and> \<not> la_exited (run [WsMain, Spawned (BridgeTask 6463)])
   \<and> BridgeTask 6463 \<notin> set (la_up (run [WsMain, Spawned (BridgeTask 6463)]))"
proof -
  let ?c = "\<lparr>cli_bridge_port = 6463, cli_no_ipc = True, cli_no_ws = False, cli_no_scanner = True\<rparr>"
  let ?b = "Spawned (BridgeTask 6463)"
  have "starters ?c = [?b, WsMain]" by (simp add: starters_def spawned_tasks_def)
  then have m: "mset [?b, WsMain] = mset (starters ?c)" "mset [WsMain, ?b] = mset (starters ?c)" by simp_all
  have "precedes ?b WsMain [?b, WsMain]"
    unfolding precedes_def by (intro exI [of _ "[]"]) simp
  moreover have "\<not> precedes ?b WsMain [WsMain, ?b]" using precedes_split [of WsMain "[]" "[?b]" ?b] by simp
  ultimately show ?thesis
    using startup_outcome [OF m(1), of "\<lambda>p. p = 6463" "\<lambda>_. None" "\<lambda>_. False" "\<lambda>_. False" None]
      startup_outcome [OF m(2), of "\<lambda>p. p = 6463" "\<lambda>_. None" "\<lambda>_. False" "\<lambda>_. False" None]
    by (auto simp: Let_def ws_ports_def)
qed

end
