(* ===== verification/Scanner_System.thy ===== *)
theory Scanner_System
  imports Presence Scanner_Run
begin

text \<open>
  The scanner in the running program: a series of scans, as the code performs them, is a sequence of the
  single scanner messages that the system interleaves with everything else. So what holds of every
  run of the system holds of the real scanner.
\<close>

text \<open>The scanner leads the system from \<open>s\<close> to \<open>s\<close> with the server state \<open>st\<close>, with events of its own only.\<close>

definition scanner_leads :: "wire_lib \<Rightarrow> json_lib \<Rightarrow> bool \<Rightarrow> bool \<Rightarrow> system \<Rightarrow> server_state \<Rightarrow> bool" where
  "scanner_leads W J ovf lag s st \<longleftrightarrow>
     (system_step W J ovf lag)\<^sup>*\<^sup>* s (s\<lparr>sy_server := st\<rparr>) \<and> own_events 0 (sy_server s) st"

lemma server_same [simp]: "sy_server s = st \<Longrightarrow> s\<lparr>sy_server := st\<rparr> = s"
  by (cases s) simp

lemma scanner_leads_refl [simp]: "sy_server s = st \<Longrightarrow> scanner_leads W J ovf lag s st"
  by (auto simp add: scanner_leads_def own_events_same)

lemma scanner_leads_trans:
  "scanner_leads W J ovf lag s st1 \<Longrightarrow> scanner_leads W J ovf lag (s\<lparr>sy_server := st1\<rparr>) st2 \<Longrightarrow>
   scanner_leads W J ovf lag s st2"
  by (auto simp: scanner_leads_def intro: own_events_trans)

lemma scanner_message_run:
  assumes "args = detect_args J now pid game app_name \<or> args = lost_args J pid"
    and "handle_message J ovf clock 0 game (set_activity_msg args) (sy_server s) = Ret (r, st)"
  shows "scanner_leads W J ovf lag s st"
proof -
  have "system_step W J ovf lag s (s\<lparr>sy_server := st\<rparr>)" by (rule system_step.scanner [OF assms])
  moreover have "own_events 0 (sy_server s) st"
    using footprint_message [OF assms(2)] by (auto simp: footprint_def)
  ultimately show ?thesis by (auto simp: scanner_leads_def)
qed

lemma detect_loop_run:
  "detect_loop mp J ovf clock k procs active present (sy_server s) = Ret (active', present', st') \<Longrightarrow>
   scanner_leads W J ovf lag s st'"
proof (induction procs arbitrary: k active present s)
  case (Cons proc procs)
  obtain found where f: "mp (pi_path proc) (pi_args proc) = Ret found"
    using Cons.prems by (auto simp: exec_simps)
  show ?case
  proof (cases found)
    case None
    with Cons.prems f Cons.IH show ?thesis by simp
  next
    case (Some g)
    obtain app_id app_name where g: "g = (app_id, app_name)" by (cases g)
    show ?thesis
    proof (cases "map_of active (pi_pid proc) = Some app_id")
      case True
      with Cons.prems f Some g Cons.IH show ?thesis by simp
    next
      case False
      obtain r st1 where h: "handle_message J ovf (snd (clock k)) 0 app_id
            (set_activity_msg (detect_args J (fst (clock k)) (pi_pid proc) app_id app_name)) (sy_server s) = Ret (r, st1)"
        and l: "detect_loop mp J ovf clock (k + 1) procs (AList.update (pi_pid proc) app_id active)
            (pi_pid proc # present) (sy_server (s\<lparr>sy_server := st1\<rparr>)) = Ret (active', present', st')"
        using Cons.prems f Some g False by (auto simp: exec_simps)
      from scanner_leads_trans [OF scanner_message_run [OF disjI1 [OF refl] h] Cons.IH [OF l]] show ?thesis .
    qed
  qed
qed simp

lemma lost_loop_run:
  "lost_loop J ovf clock gone (sy_server s) = Ret st' \<Longrightarrow> scanner_leads W J ovf lag s st'"
proof (induction gone arbitrary: s)
  case (Cons x gone)
  obtain pid game where x: "x = (pid, game)" by (cases x)
  obtain r st1 where h: "handle_message J ovf clock 0 game (set_activity_msg (lost_args J pid)) (sy_server s) = Ret (r, st1)"
    and l: "lost_loop J ovf clock gone (sy_server (s\<lparr>sy_server := st1\<rparr>)) = Ret st'"
    using Cons.prems x by (auto simp: exec_simps)
  from scanner_leads_trans [OF scanner_message_run [OF disjI2 [OF refl] h] Cons.IH [OF l]] show ?case .
qed simp

lemma scan_once_run:
  assumes "scan_once L J ovf order clock db active procs (sy_server s) = Ret (active', st')"
  shows "scanner_leads W J ovf lag s st'"
proof -
  obtain active1 present st1 gone where
    d: "detect_loop (db_match_process L db) J ovf clock 0 procs active [] (sy_server s) = Ret (active1, present, st1)"
    and l: "lost_loop J ovf (snd (clock 0)) gone (sy_server (s\<lparr>sy_server := st1\<rparr>)) = Ret st'"
    using assms by (auto simp: scan_once_def scan_with_def exec_simps Let_def)
  from scanner_leads_trans [OF detect_loop_run [OF d] lost_loop_run [OF l]] show ?thesis .
qed

lemma scanner_tick_run:
  assumes "scanner_tick L S J ovf order io clock now refreshed procs sn (sy_server s) = Ret (sn', st')"
  shows "scanner_leads W J ovf lag s st'"
proof -
  obtain db active active' where "scan_once L J ovf order clock db active procs (sy_server s) = Ret (active', st')"
    using assms by (auto simp: scanner_tick_def Let_def exec_simps)
  then show ?thesis by (rule scan_once_run)
qed

lemma scanner_run_run:
  "scanner_run L S J ovf order turns sn (sy_server s) = Ret (sn', st') \<Longrightarrow> scanner_leads W J ovf lag s st'"
proof (induction turns arbitrary: sn s)
  case (Cons t turns)
  obtain sn1 st1 where
    o: "scanner_tick L S J ovf order (tn_io t) (tn_clock t) (tn_now t) (tn_refreshed t) (process_list (tn_listing t)) sn
      (sy_server s) = Ret (sn1, st1)"
    and r: "scanner_run L S J ovf order turns sn1 (sy_server (s\<lparr>sy_server := st1\<rparr>)) = Ret (sn', st')"
    using Cons.prems by (auto simp: exec_simps)
  from scanner_leads_trans [OF scanner_tick_run [OF o] Cons.IH [OF r]] show ?case .
qed simp

lemma scanner_task_run:
  assumes "start_process_scanner L S J ovf order io dk etag now turns (sy_server s) = Ret (sn, st')"
  shows "scanner_leads W J ovf lag s st'"
proof -
  obtain db dk1 etag1 where i: "initial_db L S io dk etag = (db, dk1, etag1)" by (metis prod_cases3)
  show ?thesis
  proof (cases db)
    case None
    with i assms show ?thesis by (simp add: start_process_scanner_def)
  next
    case (Some d)
    with i assms scanner_run_run show ?thesis by (auto simp: start_process_scanner_def exec_simps)
  qed
qed

lemma log_board_other:
  "i \<notin> ev_socket_id ` set evs \<Longrightarrow> log_board (log @ evs) i = log_board log i"
proof (induction evs rule: rev_induct)
  case (snoc e evs)
  then show ?case using log_board_snoc [of "log @ evs" e] by simp
qed simp

text \<open>
  Claim C11. The scanner is a participant like any other: from any state of the program, whatever the files,
  the list server and the listings are, the scanner task from its start through any number of turns is a
  run of the system; and on the presence board it changes no activity but that of the scanner itself, and
  neither ends nor starts a session.
\<close>

theorem scanner_is_participant:
  assumes "start_process_scanner L S J ovf order io dk etag now turns (sy_server s) = Ret (sn, st')"
  shows "(system_step W J ovf lag)\<^sup>*\<^sup>* s (s\<lparr>sy_server := st'\<rparr>)
    \<and> live (presence_of (s\<lparr>sy_server := st'\<rparr>)) = live (presence_of s)
    \<and> (\<forall>i. i \<noteq> 0 \<longrightarrow> board (presence_of (s\<lparr>sy_server := st'\<rparr>)) i = board (presence_of s) i)"
proof -
  have r: "scanner_leads W J ovf lag s st'" by (rule scanner_task_run [OF assms])
  then obtain evs where "activity_tx st' = activity_tx (sy_server s) @ evs" "ev_socket_id ` set evs \<subseteq> {0}"
    by (auto simp: scanner_leads_def own_events_def)
  then have "board (presence_of (s\<lparr>sy_server := st'\<rparr>)) i = board (presence_of s) i" if "i \<noteq> 0" for i
  proof -
    have "i \<notin> ev_socket_id ` set evs" using that \<open>ev_socket_id ` set evs \<subseteq> {0}\<close> by auto
    then show ?thesis
      using log_board_other [of i evs] \<open>activity_tx st' = activity_tx (sy_server s) @ evs\<close>
      by (simp add: presence_of_def)
  qed
  with r show ?thesis by (simp add: scanner_leads_def presence_of_def live_ids_def)
qed

theorem scanner_is_participant_witness:
  "\<exists>sn st'. start_process_scanner sample_lib sample_serde3 ordered_lib True (\<lambda>m. m) sample_fetch no_files None 0
      [sample_turn 5 (Some sample_raw)] (sy_server system_new) = Ret (Some sn, st')
    \<and> (system_step sample_wire2 ordered_lib True False)\<^sup>*\<^sup>* system_new (system_new\<lparr>sy_server := st'\<rparr>)"
proof -
  obtain db dk1 where i: "initial_db sample_lib sample_serde3 sample_fetch no_files None = (Some db, dk1, Some ''new'')"
    and r: "represents sample_lib sample_entries3 db" by (rule sample_initial)
  let ?sn = "\<lparr>sn_db = db, sn_disk = dk1, sn_etag = Some ''new'', sn_active = [], sn_last_refresh = 0\<rparr>"
  have s: "series_setting sample_lib ordered_lib (\<lambda>m. m) sample_entries3 (sn_db ?sn)"
    using r by (simp add: series_setting_def ordered_json.json_library_axioms scan.hash_order_axioms
        sample_entries3_valid)
  have t: "\<forall>t \<in> set [sample_turn 5 (Some sample_raw)]. turn_ok sample_serde3 t"
    by (simp add: sample_turn_ok)
  obtain e g n where f: "fold (next_list sample_lib sample_serde3) [sample_turn 5 (Some sample_raw)]
      (sample_entries3, sn_etag ?sn, sn_last_refresh ?sn) = (e, g, n)"
    by (metis prod_cases3)
  obtain sn evs where "scanner_run sample_lib sample_serde3 ordered_lib True (\<lambda>m. m)
      [sample_turn 5 (Some sample_raw)] ?sn (sy_server system_new) = Ret (sn, push_events evs (sy_server system_new))"
    using scanner_run_any [OF sample_library s t f, of True "sy_server system_new"] by blast
  then have q: "start_process_scanner sample_lib sample_serde3 ordered_lib True (\<lambda>m. m) sample_fetch no_files None 0
      [sample_turn 5 (Some sample_raw)] (sy_server system_new)
    = Ret (Some sn, push_events evs (sy_server system_new))"
    by (simp only: start_process_scanner_def i prod.case option.case exec_map.simps)
  from scanner_is_participant [OF q] q show ?thesis by blast
qed

end
