(* ===== verification/Fst_File.thy ===== *)
theory Fst_File
  imports Db_Sample
begin

text \<open>
  The FST file in detail: the temporary sibling and the atomic replacement of \<open>write_fst_file\<close>
  (\<open>src/process/detectable.rs\<close>), for any number of writers, in one process or several, that may each fail
  or stop at any point. The single step \<open>write_fst_file\<close> of \<open>Detectable_Db\<close> is what they refine. Also the
  empty set that a handle starts with (\<open>empty_mmap_fst\<close>).
\<close>

section \<open>Paths\<close>

text \<open>
  A Unix path as the sequence of its components (\<open>Path::components\<close>), which is what equality of paths
  compares: empty components and dots are dropped, except for a leading dot of a relative path.
\<close>

record upath =
  up_root :: bool
  up_comps :: "str list"

definition parse_path :: "str \<Rightarrow> upath" where
  "parse_path s =
     (let ps = split_on (\<lambda>c. c = CHR ''/'') s; plain = filter (\<lambda>p. p \<noteq> [] \<and> p \<noteq> ''.'')
      in \<lparr>up_root = (take 1 s = ''/''),
          up_comps = (if hd ps = ''.'' then [''.''] else plain [hd ps]) @ plain (tl ps)\<rparr>)"

definition path_file_name :: "upath \<Rightarrow> str option" where
  "path_file_name p =
     (if up_comps p = [] \<or> last (up_comps p) \<in> {''.'', ''..''} then None else Some (last (up_comps p)))"

text \<open>The new name has no separator, so it is one component.\<close>

definition with_file_name :: "upath \<Rightarrow> str \<Rightarrow> upath" where
  "with_file_name p name =
     p\<lparr>up_comps := (if path_file_name p = None then up_comps p else butlast (up_comps p)) @ [name]\<rparr>"

definition unique_tmp_sibling :: "nat \<Rightarrow> nat \<Rightarrow> upath \<Rightarrow> upath" where
  "unique_tmp_sibling pid nanos path =
     (let name = (case path_file_name path of Some s \<Rightarrow> s | None \<Rightarrow> [])
      in with_file_name path (name @ ''.'' @ dec_nat pid @ ''.'' @ dec_nat nanos @ ''.tmp''))"

lemma sample_path:
  "parse_path ''/c//dirpc/./d.fst'' = \<lparr>up_root = True, up_comps = [''c'', ''dirpc'', ''d.fst'']\<rparr>"
  "unique_tmp_sibling 7 12 (parse_path ''/c/d.fst'') = parse_path ''/c/d.fst.7.12.tmp''"
  "unique_tmp_sibling 7 12 (parse_path ''./..'') = parse_path ''./../.7.12.tmp''"
  by code_simp+

lemma dec_nat_no_dot: "c \<in> set (dec_nat n) \<Longrightarrow> c \<noteq> CHR ''.''"
proof (induction n rule: dec_nat.induct)
  case (1 n)
  have d: "digit_char d \<noteq> CHR ''.''" if "d < 10" for d
    using byte_digit_char [OF that] by (auto simp: byte_def)
  have "c \<in> set (if n < 10 then [digit_char n] else dec_nat (n div 10) @ [digit_char (n mod 10)])"
    using 1(2) by (subst (asm) dec_nat.simps)
  then show ?case using 1(1) d [of n] d [of "n mod 10"] by (auto split: if_splits)
qed

lemma dotted_inject:
  assumes "dec_nat a @ CHR ''.'' # xs = dec_nat b @ CHR ''.'' # ys"
  shows "a = b \<and> xs = ys"
proof -
  have "takeWhile (\<lambda>c. c \<noteq> CHR ''.'') (dec_nat n @ CHR ''.'' # zs) = dec_nat n" for n zs
    using dec_nat_no_dot by (subst takeWhile_append2) auto
  then have "dec_nat a = dec_nat b" using assms by metis
  with assms show ?thesis by simp
qed

lemma unique_tmp_inject:
  "unique_tmp_sibling a m p = unique_tmp_sibling b n p \<longleftrightarrow> a = b \<and> m = n"
proof
  assume "unique_tmp_sibling a m p = unique_tmp_sibling b n p"
  then have "up_comps (unique_tmp_sibling a m p) = up_comps (unique_tmp_sibling b n p)" by simp
  then have "dec_nat a @ CHR ''.'' # dec_nat m @ CHR ''.'' # ''tmp'' = dec_nat b @ CHR ''.'' # dec_nat n @ CHR ''.'' # ''tmp''"
    by (simp add: unique_tmp_sibling_def with_file_name_def split: option.splits if_splits)
  then show "a = b \<and> m = n" using dotted_inject by metis
qed simp

lemma unique_tmp_other: "unique_tmp_sibling a m p \<noteq> p"
proof (cases "path_file_name p")
  case None
  then have "length (up_comps (unique_tmp_sibling a m p)) \<noteq> length (up_comps p)"
    by (simp add: unique_tmp_sibling_def with_file_name_def)
  then show ?thesis by auto
next
  case (Some s)
  then have "length (last (up_comps (unique_tmp_sibling a m p))) \<noteq> length (last (up_comps p))"
    by (auto simp: unique_tmp_sibling_def with_file_name_def path_file_name_def split: if_splits)
  then show ?thesis by auto
qed

section \<open>Writers\<close>

datatype fw_pc = Opening | Writing nat | Flushed | Replaced | Failed

record fst_writer =
  fw_pid :: nat
  fw_nanos :: nat
  fw_keys :: "str list"
  fw_bytes :: "u8 list"
  fw_pc :: fw_pc

record fst_fs =
  files :: "upath \<rightharpoonup> u8 list"
  writers :: "nat \<rightharpoonup> fst_writer"

definition fw_tmp :: "upath \<Rightarrow> fst_writer \<Rightarrow> upath" where
  "fw_tmp p w = unique_tmp_sibling (fw_pid w) (fw_nanos w) p"

definition set_pc :: "nat \<Rightarrow> fst_writer \<Rightarrow> fw_pc \<Rightarrow> fst_fs \<Rightarrow> fst_fs" where
  "set_pc k w pc s = s\<lparr>writers := (writers s)(k \<mapsto> w\<lparr>fw_pc := pc\<rparr>)\<rparr>"

text \<open>
  The system calls of a call of \<open>write_fst_file\<close> on the path \<open>p\<close>, in the order of the code: \<open>File::create\<close>,
  writes of the buffer in pieces, the last of them forced by \<open>flush\<close>, and \<open>rename\<close>. Any of them may fail,
  which ends the call and leaves the temporary file; so may, before the first, the creation of the
  directory. The code does not make sure that no two calls have the same process id and time.
\<close>

inductive fst_step :: "db_lib \<Rightarrow> upath \<Rightarrow> fst_fs \<Rightarrow> fst_fs \<Rightarrow> bool" for L p where
  start: "writers s k = None \<Longrightarrow> fst_build L keys = Some bytes \<Longrightarrow>
    fst_step L p s
      (s\<lparr>writers := (writers s)(k \<mapsto>
           \<lparr>fw_pid = pid, fw_nanos = nanos, fw_keys = keys, fw_bytes = bytes, fw_pc = Opening\<rparr>)\<rparr>)"
| create: "writers s k = Some w \<Longrightarrow> fw_pc w = Opening \<Longrightarrow>
    fst_step L p s (set_pc k w (Writing 0) (s\<lparr>files := (files s)(fw_tmp p w \<mapsto> [])\<rparr>))"
| write_part: "writers s k = Some w \<Longrightarrow> fw_pc w = Writing n \<Longrightarrow> files s (fw_tmp p w) = Some written \<Longrightarrow>
    n + m \<le> length (fw_bytes w) \<Longrightarrow>
    fst_step L p s
      (set_pc k w (Writing (n + m))
        (s\<lparr>files := (files s)(fw_tmp p w \<mapsto> written @ take m (drop n (fw_bytes w)))\<rparr>))"
| flush: "writers s k = Some w \<Longrightarrow> fw_pc w = Writing n \<Longrightarrow> n = length (fw_bytes w) \<Longrightarrow>
    fst_step L p s (set_pc k w Flushed s)"
| rename: "writers s k = Some w \<Longrightarrow> fw_pc w = Flushed \<Longrightarrow> files s (fw_tmp p w) = Some bytes \<Longrightarrow>
    fst_step L p s (set_pc k w Replaced (s\<lparr>files := (files s)(p \<mapsto> bytes, fw_tmp p w := None)\<rparr>))"
| failure: "writers s k = Some w \<Longrightarrow> fw_pc w \<noteq> Replaced \<Longrightarrow> fst_step L p s (set_pc k w Failed s)"

inductive_cases fst_stepE [consumes 1]: "fst_step L p s s'"

text \<open>What the temporary file of a writer holds.\<close>

definition tmp_ok :: "upath \<Rightarrow> fst_fs \<Rightarrow> fst_writer \<Rightarrow> bool" where
  "tmp_ok p s w \<longleftrightarrow>
     (case fw_pc w of
        Writing n \<Rightarrow> n \<le> length (fw_bytes w) \<and> files s (fw_tmp p w) = Some (take n (fw_bytes w))
      | Flushed \<Rightarrow> files s (fw_tmp p w) = Some (fw_bytes w)
      | _ \<Rightarrow> True)"

definition calls :: "fst_fs \<Rightarrow> nat \<rightharpoonup> nat \<times> nat" where
  "calls s k = map_option (\<lambda>w. (fw_pid w, fw_nanos w)) (writers s k)"

definition distinct_calls :: "fst_fs \<Rightarrow> bool" where
  "distinct_calls s \<longleftrightarrow> (\<forall>j k c. calls s j = Some c \<longrightarrow> calls s k = Some c \<longrightarrow> j = k)"

definition writer_ok :: "db_lib \<Rightarrow> upath \<Rightarrow> fst_fs \<Rightarrow> fst_writer \<Rightarrow> bool" where
  "writer_ok L p s w \<longleftrightarrow> fst_build L (fw_keys w) = Some (fw_bytes w) \<and> tmp_ok p s w"

definition fst_inv :: "db_lib \<Rightarrow> upath \<Rightarrow> fst_fs \<Rightarrow> bool" where
  "fst_inv L p s \<longleftrightarrow> distinct_calls s \<and> (\<forall>k w. writers s k = Some w \<longrightarrow> writer_ok L p s w)"

lemma fst_invD: "fst_inv L p s \<Longrightarrow> writers s k = Some w \<Longrightarrow> fst_build L (fw_keys w) = Some (fw_bytes w) \<and> tmp_ok p s w"
  by (simp add: fst_inv_def writer_ok_def)

lemma tmp_inject: "fw_tmp p v = fw_tmp p w \<longleftrightarrow> fw_pid v = fw_pid w \<and> fw_nanos v = fw_nanos w"
  by (simp add: fw_tmp_def unique_tmp_inject)

lemma tmp_distinct:
  assumes "fst_inv L p s" and "writers s j = Some v" and "writers s k = Some w" and "j \<noteq> k"
  shows "fw_tmp p v \<noteq> fw_tmp p w"
proof
  assume "fw_tmp p v = fw_tmp p w"
  then have "calls s j = Some (fw_pid w, fw_nanos w)" "calls s k = Some (fw_pid w, fw_nanos w)"
    using assms(2,3) by (simp_all add: tmp_inject calls_def)
  with assms(1,4) show False unfolding fst_inv_def distinct_calls_def by blast
qed

lemma tmp_other [simp]: "fw_tmp p w \<noteq> p" "p \<noteq> fw_tmp p w"
  using unique_tmp_other [of _ _ p] by (auto simp: fw_tmp_def dest: sym)

lemma tmp_ok_cong:
  "files t (fw_tmp p w) = files s (fw_tmp p w) \<Longrightarrow> tmp_ok p t w = tmp_ok p s w"
  by (simp add: tmp_ok_def split: fw_pc.split)

lemma set_pc_simps [simp]:
  "files (set_pc k w pc s) = files s"
  "writers (set_pc k w pc s) = (writers s)(k \<mapsto> w\<lparr>fw_pc := pc\<rparr>)"
  "fw_tmp p (w\<lparr>fw_pc := pc\<rparr>) = fw_tmp p w"
  by (simp_all add: set_pc_def fw_tmp_def)

lemma calls_set_pc: "writers t = writers s \<Longrightarrow> writers s k = Some w \<Longrightarrow> calls (set_pc k w pc t) = calls s"
  by (auto simp: calls_def fun_eq_iff)

text \<open>A step of writer \<open>k\<close> that writes at most its own temporary file and the target keeps the invariant.\<close>

lemma fst_inv_own:
  assumes i: "fst_inv L p s" and k: "writers s k = Some w" and t: "writers t = writers s"
    and f: "\<And>q. q \<noteq> p \<Longrightarrow> q \<noteq> fw_tmp p w \<Longrightarrow> files t q = files s q"
    and o: "tmp_ok p t (w\<lparr>fw_pc := pc\<rparr>)"
  shows "fst_inv L p (set_pc k w pc t)"
proof -
  have d: "distinct_calls (set_pc k w pc t)"
    using i calls_set_pc [OF t k] by (simp add: fst_inv_def distinct_calls_def)
  have "writer_ok L p (set_pc k w pc t) v" if v: "writers (set_pc k w pc t) j = Some v" for j v
  proof (cases "j = k")
    case True
    then have e: "v = w\<lparr>fw_pc := pc\<rparr>" using v by simp
    have "tmp_ok p (set_pc k w pc t) v = tmp_ok p t v" by (rule tmp_ok_cong) simp
    then show ?thesis using o fst_invD [OF i k] by (simp add: writer_ok_def e)
  next
    case False
    then have s: "writers s j = Some v" using v t by simp
    then have "files (set_pc k w pc t) (fw_tmp p v) = files s (fw_tmp p v)"
      using f [of "fw_tmp p v"] tmp_distinct [OF i s k False] by simp
    from tmp_ok_cong [OF this] fst_invD [OF i s] show ?thesis by (simp add: writer_ok_def)
  qed
  with d show ?thesis by (simp add: fst_inv_def)
qed

lemma fst_inv_start:
  assumes i: "fst_inv L p s" and k: "writers s k = None" and b: "fst_build L (fw_keys w) = Some (fw_bytes w)"
    and d: "distinct_calls (s\<lparr>writers := (writers s)(k \<mapsto> w)\<rparr>)" and o: "fw_pc w = Opening"
  shows "fst_inv L p (s\<lparr>writers := (writers s)(k \<mapsto> w)\<rparr>)" (is "fst_inv L p ?t")
proof -
  have "writer_ok L p ?t v" if v: "writers ?t j = Some v" for j v
  proof (cases "j = k")
    case True
    then show ?thesis using v b o by (simp add: writer_ok_def tmp_ok_def)
  next
    case False
    then have s: "writers s j = Some v" using v by simp
    have "tmp_ok p ?t v = tmp_ok p s v" by (rule tmp_ok_cong) simp
    with fst_invD [OF i s] show ?thesis by (simp add: writer_ok_def)
  qed
  with d show ?thesis by (simp add: fst_inv_def)
qed

lemma tmp_ok_pc:
  "tmp_ok p s w \<Longrightarrow> fw_pc w = Writing n \<Longrightarrow>
    n \<le> length (fw_bytes w) \<and> files s (fw_tmp p w) = Some (take n (fw_bytes w))"
  "tmp_ok p s w \<Longrightarrow> fw_pc w = Flushed \<Longrightarrow> files s (fw_tmp p w) = Some (fw_bytes w)"
  by (simp_all add: tmp_ok_def)

lemma fst_inv_step:
  assumes "fst_step L p s s'" and i: "fst_inv L p s" and d: "distinct_calls s'"
  shows "fst_inv L p s'"
  using assms(1)
proof cases
  case (start k keys bytes pid nanos)
  then show ?thesis using fst_inv_start [OF i start(2)] d by simp
next
  case (create k w)
  show ?thesis
    unfolding create(1) by (rule fst_inv_own [OF i create(2)]) (simp_all add: tmp_ok_def)
next
  case (write_part k w n written m)
  have "written = take n (fw_bytes w)"
    using tmp_ok_pc(1) [OF conjunct2 [OF fst_invD [OF i write_part(2)]] write_part(3)] write_part(4) by simp
  then show ?thesis
    unfolding write_part(1) using write_part(5)
    by (intro fst_inv_own [OF i write_part(2)]) (simp_all add: tmp_ok_def take_add)
next
  case (flush k w n)
  show ?thesis
    unfolding flush(1)
    using tmp_ok_pc(1) [OF conjunct2 [OF fst_invD [OF i flush(2)]] flush(3)] flush(4)
    by (intro fst_inv_own [OF i flush(2)]) (simp_all add: tmp_ok_def)
next
  case (rename k w bytes)
  show ?thesis
    unfolding rename(1) by (rule fst_inv_own [OF i rename(2)]) (simp_all add: tmp_ok_def)
next
  case (failure k w)
  show ?thesis
    unfolding failure(1) by (rule fst_inv_own [OF i failure(2)]) (simp_all add: tmp_ok_def)
qed

lemma rename_bytes:
  "fst_inv L p s \<Longrightarrow> writers s k = Some w \<Longrightarrow> fw_pc w = Flushed \<Longrightarrow> files s (fw_tmp p w) = Some bytes \<Longrightarrow>
   bytes = fw_bytes w \<and> fst_build L (fw_keys w) = Some bytes"
  using fst_invD [of L p s k w] tmp_ok_pc(2) [of p s w] by auto

text \<open>A call keeps its process id and time; so when they are distinct now they always were.\<close>

definition unique_step :: "db_lib \<Rightarrow> upath \<Rightarrow> fst_fs \<Rightarrow> fst_fs \<Rightarrow> bool" where
  "unique_step L p s s' \<longleftrightarrow> fst_step L p s s' \<and> distinct_calls s'"

lemma calls_kept: "fst_step L p s s' \<Longrightarrow> calls s k = Some c \<Longrightarrow> calls s' k = Some c"
  by (induction rule: fst_step.induct) (auto simp: calls_def set_pc_def)

lemma unique_run:
  "(fst_step L p)\<^sup>*\<^sup>* s s' \<Longrightarrow> distinct_calls s' \<Longrightarrow> (unique_step L p)\<^sup>*\<^sup>* s s'"
proof (induction rule: rtranclp_induct)
  case (step t u)
  have "distinct_calls t" using step(4) calls_kept [OF step(2)] unfolding distinct_calls_def by blast
  then have "(unique_step L p)\<^sup>*\<^sup>* s t" by (rule step(3))
  moreover have "unique_step L p t u" using step(2,4) by (simp add: unique_step_def)
  ultimately show ?case by (rule rtranclp.rtrancl_into_rtrancl)
qed simp

section \<open>The writers refine the atomic write\<close>

definition fst_disk :: "tables option \<Rightarrow> upath \<Rightarrow> fst_fs \<Rightarrow> disk" where
  "fst_disk redb p s = \<lparr>dk_redb = redb, dk_fst = files s p\<rparr>"

text \<open>A step of the abstract disk: some call of \<open>write_fst_file\<close>, successful or not.\<close>

definition disk_step :: "db_lib \<Rightarrow> disk \<Rightarrow> disk \<Rightarrow> bool" where
  "disk_step L dk dk' \<longleftrightarrow> (\<exists>env keys. dk' = snd (write_fst_file L env keys dk))"

lemma fst_step_disk:
  assumes "fst_step L p s s'" and i: "fst_inv L p s"
  shows "(disk_step L)\<^sup>*\<^sup>* (fst_disk redb p s) (fst_disk redb p s')"
  using assms(1)
proof cases
  case (rename k w bytes)
  have "snd (write_fst_file L (undefined\<lparr>io_write_fst := True\<rparr>) (fw_keys w) (fst_disk redb p s))
      = fst_disk redb p s'"
    using rename(1) rename_bytes [OF i rename(2-4)] by (simp add: write_fst_file_def fst_disk_def)
  then have "disk_step L (fst_disk redb p s) (fst_disk redb p s')" unfolding disk_step_def by metis
  then show ?thesis by simp
qed (simp_all add: fst_disk_def)

interpretation fst_replace: simulation "unique_step L p" "disk_step L" "fst_disk redb p" "fst_inv L p" for L p redb
  by unfold_locales (rule fst_step_disk, simp_all add: unique_step_def)

definition fst_fs_new :: "(upath \<rightharpoonup> u8 list) \<Rightarrow> fst_fs" where
  "fst_fs_new fs = \<lparr>files = fs, writers = Map.empty\<rparr>"

lemma fst_inv_new [simp]: "fst_inv L p (fst_fs_new fs)"
  by (simp add: fst_inv_def fst_fs_new_def distinct_calls_def calls_def)

text \<open>The target always holds the old contents or those of a writer that got through.\<close>

definition replaced_ok :: "upath \<Rightarrow> (upath \<rightharpoonup> u8 list) \<Rightarrow> fst_fs \<Rightarrow> bool" where
  "replaced_ok p fs s \<longleftrightarrow>
     files s p = fs p
     \<or> (\<exists>k w. writers s k = Some w \<and> fw_pc w = Replaced \<and> files s p = Some (fw_bytes w))"

lemma replaced_ok_pc:
  assumes "replaced_ok p fs s" and "writers s k = Some w" and "fw_pc w \<noteq> Replaced"
    and "writers t = writers s" and "files t p = files s p"
  shows "replaced_ok p fs (set_pc k w pc t)"
  using assms unfolding replaced_ok_def set_pc_simps by (metis fun_upd_apply option.inject)

lemma replaced_ok_step:
  assumes "fst_step L p s s'" and "fst_inv L p s" and "replaced_ok p fs s"
  shows "replaced_ok p fs s'"
  using assms(1)
proof cases
  case (start k keys bytes pid nanos)
  then show ?thesis using assms(3) unfolding replaced_ok_def start(1) by (auto split: if_splits) (metis option.distinct(1))
next
  case (rename k w bytes)
  then show ?thesis
    using rename_bytes [OF assms(2) rename(2-4)] unfolding replaced_ok_def rename(1)
    by (intro disjI2 exI [of _ k] exI [of _ "w\<lparr>fw_pc := Replaced\<rparr>"]) simp
next
  case (create k w)
  show ?thesis unfolding create(1) by (rule replaced_ok_pc [OF assms(3) create(2)]) (use create(3) in simp_all)
next
  case (write_part k w n written m)
  show ?thesis unfolding write_part(1) by (rule replaced_ok_pc [OF assms(3) write_part(2)]) (use write_part(3) in simp_all)
next
  case (flush k w n)
  show ?thesis unfolding flush(1) by (rule replaced_ok_pc [OF assms(3) flush(2)]) (use flush(3) in simp_all)
next
  case (failure k w)
  show ?thesis unfolding failure(1) by (rule replaced_ok_pc [OF assms(3) failure(2,3)]) simp_all
qed

lemma replaced_ok_reach:
  assumes "(unique_step L p)\<^sup>*\<^sup>* (fst_fs_new fs) s"
  shows "replaced_ok p fs s"
proof -
  have "fst_inv L p s \<and> replaced_ok p fs s"
    using assms
  proof (induction rule: rtranclp_induct)
    case (step t u)
    then show ?case using fst_inv_step [of L p t u] replaced_ok_step [of L p t u fs] unfolding unique_step_def by blast
  qed (simp add: replaced_ok_def, simp add: fst_fs_new_def)
  then show ?thesis ..
qed

text \<open>No other file changes.\<close>

definition untouched :: "upath \<Rightarrow> (upath \<rightharpoonup> u8 list) \<Rightarrow> fst_fs \<Rightarrow> bool" where
  "untouched p fs s \<longleftrightarrow>
     (\<forall>q. q \<noteq> p \<longrightarrow> (\<forall>k w. writers s k = Some w \<longrightarrow> q \<noteq> fw_tmp p w) \<longrightarrow> files s q = fs q)"

lemma untouched_pc:
  assumes "untouched p fs s" and "writers s k = Some w" and "writers t = writers s"
    and "\<And>q. q \<noteq> p \<Longrightarrow> q \<noteq> fw_tmp p w \<Longrightarrow> files t q = files s q"
  shows "untouched p fs (set_pc k w pc t)"
  unfolding untouched_def
proof (intro allI impI)
  fix q assume q: "q \<noteq> p" "\<forall>j v. writers (set_pc k w pc t) j = Some v \<longrightarrow> q \<noteq> fw_tmp p v"
  have n: "q \<noteq> fw_tmp p v" if "writers s j = Some v" for j v
  proof (cases "j = k")
    case True
    then show ?thesis using that assms(2) q(2) [rule_format, of k "w\<lparr>fw_pc := pc\<rparr>"] by simp
  next
    case False
    then show ?thesis using that assms(3) q(2) [rule_format, of j v] by simp
  qed
  then have "files s q = fs q" using assms(1) q(1) unfolding untouched_def by blast
  then show "files (set_pc k w pc t) q = fs q" using assms(4) [OF q(1) n [OF assms(2)]] by simp
qed

lemma untouched_step:
  assumes "fst_step L p s s'" and u: "untouched p fs s"
  shows "untouched p fs s'"
  using assms(1)
proof cases
  case (start k keys bytes pid nanos)
  have "files s q = fs q" if q: "q \<noteq> p" "\<forall>j v. writers s' j = Some v \<longrightarrow> q \<noteq> fw_tmp p v" for q
  proof -
    have "q \<noteq> fw_tmp p v" if "writers s j = Some v" for j v
      using that start(2) q(2) [rule_format, of j v] unfolding start(1) by (cases "j = k") simp_all
    with u q(1) show ?thesis unfolding untouched_def by blast
  qed
  then show ?thesis unfolding untouched_def start(1) by simp
next
  case (create k w)
  show ?thesis unfolding create(1) by (rule untouched_pc [OF u create(2)]) simp_all
next
  case (write_part k w n written m)
  show ?thesis unfolding write_part(1) by (rule untouched_pc [OF u write_part(2)]) simp_all
next
  case (flush k w n)
  show ?thesis unfolding flush(1) by (rule untouched_pc [OF u flush(2)]) simp_all
next
  case (rename k w bytes)
  show ?thesis unfolding rename(1) by (rule untouched_pc [OF u rename(2)]) simp_all
next
  case (failure k w)
  show ?thesis unfolding failure(1) by (rule untouched_pc [OF u failure(2)]) simp_all
qed

lemma untouched_reach:
  "(fst_step L p)\<^sup>*\<^sup>* (fst_fs_new fs) s \<Longrightarrow>
   q \<noteq> p \<Longrightarrow> \<forall>k w. writers s k = Some w \<longrightarrow> q \<noteq> fw_tmp p w \<Longrightarrow> files s q = fs q"
proof -
  assume "(fst_step L p)\<^sup>*\<^sup>* (fst_fs_new fs) s"
  then have "untouched p fs s"
  proof (induction rule: rtranclp_induct)
    case (step t u)
    then show ?case using untouched_step by blast
  qed (simp add: untouched_def fst_fs_new_def)
  then show "q \<noteq> p \<Longrightarrow> \<forall>k w. writers s k = Some w \<longrightarrow> q \<noteq> fw_tmp p w \<Longrightarrow> files s q = fs q"
    unfolding untouched_def by blast
qed

text \<open>
  Claim C10. The FST file is replaced atomically, as long as no two calls have the same process id and time.
  Whatever the interleaving of any number of writers, in any
  processes, each of which may fail or stop at any of its system calls, the disk goes only through states
  that whole calls of \<open>write_fst_file\<close> produce; at every moment the file holds its old contents or the
  complete contents of a writer that got through, so a reader always loads the old result or all the keys
  of such a writer, and no file but the writers' own temporary ones is touched.
\<close>

theorem fst_file_atomic:
  assumes "db_library L" and "(fst_step L p)\<^sup>*\<^sup>* (fst_fs_new fs) s" and "distinct_calls s"
    and "\<forall>k w. writers s k = Some w \<longrightarrow> sorted (fw_keys w) \<and> distinct (fw_keys w)"
  shows "(disk_step L)\<^sup>*\<^sup>* \<lparr>dk_redb = redb, dk_fst = fs p\<rparr> (fst_disk redb p s)
    \<and> (load_mmap_fst L (fst_disk redb p s) = load_mmap_fst L \<lparr>dk_redb = redb, dk_fst = fs p\<rparr>
       \<or> (\<exists>k w. writers s k = Some w \<and> fw_pc w = Replaced
            \<and> load_mmap_fst L (fst_disk redb p s) = Inr (fw_keys w)))
    \<and> (\<forall>q. q \<noteq> p \<and> (\<forall>k w. writers s k = Some w \<longrightarrow> q \<noteq> fw_tmp p w) \<longrightarrow> files s q = fs q)"
proof -
  have new: "fst_disk redb p (fst_fs_new fs) = \<lparr>dk_redb = redb, dk_fst = fs p\<rparr>"
    by (simp add: fst_disk_def fst_fs_new_def)
  have u: "(unique_step L p)\<^sup>*\<^sup>* (fst_fs_new fs) s" by (rule unique_run [OF assms(2,3)])
  have sim: "(disk_step L)\<^sup>*\<^sup>* (fst_disk redb p (fst_fs_new fs)) (fst_disk redb p s)" and i: "fst_inv L p s"
    using fst_replace.sim_reach [OF u fst_inv_new] fst_inv_step unfolding unique_step_def by blast+
  have r: "replaced_ok p fs s" by (rule replaced_ok_reach [OF u])
  have "load_mmap_fst L (fst_disk redb p s) = Inr (fw_keys w)"
    if w: "writers s k = Some w" "files s p = Some (fw_bytes w)" for k w
  proof -
    obtain b where "fst_build L (fw_keys w) = Some b" "b \<noteq> []" "fst_parse L b = Some (fw_keys w)"
      using db_library.fst_roundtrip [OF assms(1)] assms(4) w(1) by blast
    then show ?thesis using w(2) fst_invD [OF i w(1)] by (simp add: load_mmap_fst_def fst_disk_def)
  qed
  then have "load_mmap_fst L (fst_disk redb p s) = load_mmap_fst L \<lparr>dk_redb = redb, dk_fst = fs p\<rparr>
      \<or> (\<exists>k w. writers s k = Some w \<and> fw_pc w = Replaced \<and> load_mmap_fst L (fst_disk redb p s) = Inr (fw_keys w))"
    using r unfolding replaced_ok_def
  proof (elim disjE exE conjE)
    assume "files s p = fs p"
    then show ?thesis by (simp add: fst_disk_def)
  qed blast
  with sim untouched_reach [OF assms(2)] show ?thesis unfolding new by blast
qed

text \<open>A call that fails after the temporary file was created leaves it behind.\<close>

lemma failed_call_leaves_tmp:
  assumes "fst_inv L p s" and "writers s k = Some w" and "fw_pc w = Writing n"
  shows "fst_step L p s (set_pc k w Failed s)
    \<and> files (set_pc k w Failed s) (fw_tmp p w) = Some (take n (fw_bytes w))"
  using fst_step.failure [OF assms(2)] assms(3) tmp_ok_pc(1) [of p s w n] fst_invD [OF assms(1,2)] by simp

theorem fst_file_atomic_witness:
  "\<exists>p bytes s. fst_build sample_lib [''a'', ''b''] = Some bytes
    \<and> (fst_step sample_lib p)\<^sup>*\<^sup>* (fst_fs_new Map.empty) s \<and> files s p = Some bytes
    \<and> (disk_step sample_lib)\<^sup>*\<^sup>* \<lparr>dk_redb = None, dk_fst = None\<rparr> (fst_disk None p s)"
proof -
  obtain bytes where b: "fst_build sample_lib [''a'', ''b''] = Some bytes"
    by (simp add: sample_lib_def)
  let ?p = "parse_path ''/c/d.fst''"
  let ?w = "\<lparr>fw_pid = 7, fw_nanos = 12, fw_keys = [''a'', ''b''], fw_bytes = bytes, fw_pc = Opening\<rparr>"
  let ?t = "unique_tmp_sibling 7 12 ?p"
  let ?s1 = "\<lparr>files = Map.empty, writers = [0 \<mapsto> ?w]\<rparr>"
  let ?s2 = "\<lparr>files = [?t \<mapsto> []], writers = [0 \<mapsto> ?w\<lparr>fw_pc := Writing 0\<rparr>]\<rparr>"
  let ?s3 = "\<lparr>files = [?t \<mapsto> bytes], writers = [0 \<mapsto> ?w\<lparr>fw_pc := Writing (length bytes)\<rparr>]\<rparr>"
  let ?s4 = "\<lparr>files = [?t \<mapsto> bytes], writers = [0 \<mapsto> ?w\<lparr>fw_pc := Flushed\<rparr>]\<rparr>"
  let ?s5 = "\<lparr>files = [?p \<mapsto> bytes], writers = [0 \<mapsto> ?w\<lparr>fw_pc := Replaced\<rparr>]\<rparr>"
  let ?step = "fst_step sample_lib ?p"
  have "?step (fst_fs_new Map.empty) ?s1"
    using fst_step.start [OF _ b, of "fst_fs_new Map.empty" 0 ?p 7 12]
    by (simp add: fst_fs_new_def)
  moreover have "?step ?s1 ?s2"
    using fst_step.create [of ?s1 0 ?w sample_lib ?p] by (simp add: set_pc_def fw_tmp_def)
  moreover have "?step ?s2 ?s3"
    using fst_step.write_part [of ?s2 0 "?w\<lparr>fw_pc := Writing 0\<rparr>" 0 ?p "[]" "length bytes" sample_lib]
    by (simp add: set_pc_def fw_tmp_def)
  moreover have "?step ?s3 ?s4"
    using fst_step.flush [of ?s3 0 "?w\<lparr>fw_pc := Writing (length bytes)\<rparr>" "length bytes" sample_lib ?p]
    by (simp add: set_pc_def)
  moreover have "?step ?s4 ?s5"
    using fst_step.rename [of ?s4 0 "?w\<lparr>fw_pc := Flushed\<rparr>" ?p bytes sample_lib]
    by (simp add: set_pc_def fw_tmp_def unique_tmp_other fun_upd_twist)
  ultimately have r: "?step\<^sup>*\<^sup>* (fst_fs_new Map.empty) ?s5"
    by (meson rtranclp.rtrancl_into_rtrancl rtranclp.rtrancl_refl)
  have k: "\<forall>k w. writers ?s5 k = Some w \<longrightarrow> sorted (fw_keys w) \<and> distinct (fw_keys w)"
    by auto
  have d: "distinct_calls ?s5" by (simp add: distinct_calls_def calls_def)
  from fst_file_atomic [OF sample_library r d k, of None] r b show ?thesis
    by (intro exI [of _ ?p] exI [of _ bytes] exI [of _ ?s5]) simp
qed

text \<open>
  Two calls with the same process id and time share their temporary file: the second truncates what the
  first has written, which the first then moves over the target, an empty file.
\<close>

lemma shared_name_breaks:
  assumes "fst_build L keys = Some bytes"
  shows "\<exists>s w. (fst_step L p)\<^sup>*\<^sup>* (fst_fs_new fs) s \<and> writers s 0 = Some w \<and> fw_pc w = Replaced
    \<and> fw_keys w = keys \<and> load_mmap_fst L (fst_disk redb p s) = Inl FstEmpty"
proof -
  let ?step = "fst_step L p" and ?t = "unique_tmp_sibling 7 12 p"
  let ?w = "\<lambda>pc. \<lparr>fw_pid = 7, fw_nanos = 12, fw_keys = keys, fw_bytes = bytes, fw_pc = pc\<rparr>"
  let ?s = "\<lambda>fs ws. \<lparr>files = fs, writers = ws\<rparr>"
  have "?step (fst_fs_new fs) (?s fs [0 \<mapsto> ?w Opening])"
    using fst_step.start [OF _ assms, of "fst_fs_new fs" 0 p 7 12] by (simp add: fst_fs_new_def)
  moreover have "?step (?s fs [0 \<mapsto> ?w Opening]) (?s fs [0 \<mapsto> ?w Opening, 1 \<mapsto> ?w Opening])"
    using fst_step.start [OF _ assms, of "?s fs [0 \<mapsto> ?w Opening]" 1 p 7 12] by simp
  moreover have "?step (?s fs [0 \<mapsto> ?w Opening, 1 \<mapsto> ?w Opening])
      (?s (fs(?t \<mapsto> [])) [0 \<mapsto> ?w (Writing 0), 1 \<mapsto> ?w Opening])"
    using fst_step.create [of "?s fs [0 \<mapsto> ?w Opening, 1 \<mapsto> ?w Opening]" 0 "?w Opening" L p]
    by (simp add: set_pc_def fw_tmp_def fun_upd_twist)
  moreover have "?step (?s (fs(?t \<mapsto> [])) [0 \<mapsto> ?w (Writing 0), 1 \<mapsto> ?w Opening])
      (?s (fs(?t \<mapsto> bytes)) [0 \<mapsto> ?w (Writing (length bytes)), 1 \<mapsto> ?w Opening])"
    using fst_step.write_part [of "?s (fs(?t \<mapsto> [])) [0 \<mapsto> ?w (Writing 0), 1 \<mapsto> ?w Opening]" 0 "?w (Writing 0)" 0 p
        "[]" "length bytes" L]
    by (simp add: set_pc_def fw_tmp_def fun_upd_twist)
  moreover have "?step (?s (fs(?t \<mapsto> bytes)) [0 \<mapsto> ?w (Writing (length bytes)), 1 \<mapsto> ?w Opening])
      (?s (fs(?t \<mapsto> bytes)) [0 \<mapsto> ?w Flushed, 1 \<mapsto> ?w Opening])"
    using fst_step.flush [of "?s (fs(?t \<mapsto> bytes)) [0 \<mapsto> ?w (Writing (length bytes)), 1 \<mapsto> ?w Opening]" 0
        "?w (Writing (length bytes))" "length bytes" L p]
    by (simp add: set_pc_def fun_upd_twist)
  moreover have "?step (?s (fs(?t \<mapsto> bytes)) [0 \<mapsto> ?w Flushed, 1 \<mapsto> ?w Opening])
      (?s (fs(?t \<mapsto> [])) [0 \<mapsto> ?w Flushed, 1 \<mapsto> ?w (Writing 0)])"
    using fst_step.create [of "?s (fs(?t \<mapsto> bytes)) [0 \<mapsto> ?w Flushed, 1 \<mapsto> ?w Opening]" 1 "?w Opening" L p]
    by (simp add: set_pc_def fw_tmp_def)
  moreover have "?step (?s (fs(?t \<mapsto> [])) [0 \<mapsto> ?w Flushed, 1 \<mapsto> ?w (Writing 0)])
      (?s ((fs(?t \<mapsto> []))(p \<mapsto> [], ?t := None)) [0 \<mapsto> ?w Replaced, 1 \<mapsto> ?w (Writing 0)])"
    using fst_step.rename [of "?s (fs(?t \<mapsto> [])) [0 \<mapsto> ?w Flushed, 1 \<mapsto> ?w (Writing 0)]" 0 "?w Flushed" p "[]" L]
    by (simp add: set_pc_def fw_tmp_def fun_upd_twist)
  ultimately have "?step\<^sup>*\<^sup>* (fst_fs_new fs) (?s ((fs(?t \<mapsto> []))(p \<mapsto> [], ?t := None)) [0 \<mapsto> ?w Replaced, 1 \<mapsto> ?w (Writing 0)])"
    by (meson rtranclp.rtrancl_into_rtrancl rtranclp.rtrancl_refl)
  then show ?thesis
    by (intro exI [of _ "?s ((fs(?t \<mapsto> []))(p \<mapsto> [], ?t := None)) [0 \<mapsto> ?w Replaced, 1 \<mapsto> ?w (Writing 0)]"]
        exI [of _ "?w Replaced"] conjI)
      (simp_all add: load_mmap_fst_def fst_disk_def unique_tmp_other [symmetric])
qed

section \<open>The empty set\<close>

text \<open>
  \<open>empty_mmap_fst\<close>: every failure is an \<open>expect\<close>, and a debug build also checks the length. \<open>map_anon\<close> is
  whether the anonymous mapping succeeds.
\<close>

definition empty_mmap_fst :: "db_lib \<Rightarrow> bool \<Rightarrow> bool \<Rightarrow> str list exec" where
  "empty_mmap_fst L debug map_anon =
     (case fst_build L [] of
        None \<Rightarrow> Panic
      | Some bytes \<Rightarrow>
          if debug \<and> length bytes < 36 then Panic
          else if \<not> map_anon then Panic
          else (case fst_parse L bytes of None \<Rightarrow> Panic | Some keys \<Rightarrow> Ret keys))"

text \<open>It is the empty key list with which \<open>open_with_fst\<close> and \<open>rebuild_with_fst\<close> begin.\<close>

lemma empty_mmap_fst_Ret:
  assumes "db_library L" and "\<forall>bytes. fst_build L [] = Some bytes \<longrightarrow> 36 \<le> length bytes"
  shows "empty_mmap_fst L debug True = Ret []"
proof -
  obtain b where "fst_build L [] = Some b" "fst_parse L b = Some []"
    using db_library.fst_roundtrip [OF assms(1), of "[]"] by auto
  with assms(2) show ?thesis by (simp add: empty_mmap_fst_def)
qed

end
