(* ===== verification/Payload_Text.thy ===== *)
theory Payload_Text
  imports Payload Text_Format
begin

text \<open>
  The texts of failed fetches, \<open>src/process/detectable.rs\<close>: \<open>describe_json_value\<close>,
  \<open>describe_payload_shape\<close> and the messages of \<open>fetch_detectable\<close> and \<open>parse_detectable_entries\<close>, which
  \<open>load_detectable_entries\<close> logs. The reason phrase of a status and the text of a network error are
  the HTTP library's.
\<close>

fun describe_json_value :: "(str \<Rightarrow> bool) \<Rightarrow> json \<Rightarrow> str" where
  "describe_json_value vb JNull = ''null''"
| "describe_json_value vb (JBool b) = ''boolean''"
| "describe_json_value vb (JNumber n) = ''number''"
| "describe_json_value vb (JString s) = ''string''"
| "describe_json_value vb (JArray items) = ''array(len='' @ dec_nat (length items) @ '')''"
| "describe_json_value vb (JObject m) = ''object(keys='' @ debug_set vb (map fst m) @ '')''"

fun describe_keys :: "(str \<Rightarrow> bool) \<Rightarrow> json_map \<Rightarrow> str list \<Rightarrow> str" where
  "describe_keys vb m [] = []"
| "describe_keys vb m (key # keys) =
     (case map_of m key of
        Some child \<Rightarrow> '', '' @ key @ ''='' @ describe_json_value vb child
      | None \<Rightarrow> []) @ describe_keys vb m keys"

definition describe_payload_shape :: "serde_det \<Rightarrow> (str \<Rightarrow> bool) \<Rightarrow> u8 list \<Rightarrow> str" where
  "describe_payload_shape S vb body =
     (case sd_value S body of
        Some (JArray values) \<Rightarrow>
          ''top-level array(len='' @ dec_nat (length values) @ '')''
          @ (case values of v # _ \<Rightarrow> '', first='' @ describe_json_value vb v | [] \<Rightarrow> [])
      | Some (JObject m) \<Rightarrow>
          ''top-level object(keys='' @ debug_set vb (map fst m) @ '')''
          @ describe_keys vb m [''applications'', ''data'', ''results'']
      | Some v \<Rightarrow> ''top-level '' @ describe_json_value vb v
      | None \<Rightarrow>
          ''non-JSON response preview=''
          @ debug_str vb (compact_whitespace_preview (from_utf8_lossy (bytes_str body)) 200))"

fun fetch_error_text ::
  "serde_det \<Rightarrow> (str \<Rightarrow> bool) \<Rightarrow> (nat \<Rightarrow> str) \<Rightarrow> str \<Rightarrow> fetch_error \<Rightarrow> str" where
  "fetch_error_text S vb status_text send_text SendFailed = send_text"
| "fetch_error_text S vb status_text send_text (BadStatus status body) =
     ''detectable API request failed with status '' @ status_text status @ '': ''
     @ compact_whitespace_preview (from_utf8_lossy (bytes_str body)) 200"
| "fetch_error_text S vb status_text send_text (UnexpectedShape body) =
     ''unexpected detectable API payload shape ('' @ describe_payload_shape S vb body @ '')''"

section \<open>No line breaks from the server\<close>

lemma split_on_elems: "ys \<in> set (split_on q xs) \<Longrightarrow> x \<in> set ys \<Longrightarrow> x \<in> set xs"
  by (induction xs arbitrary: ys) (fastforce split: if_splits list.splits)+

lemma token_chars:
  assumes "t \<in> set (split_whitespace s)" and "c \<in> set (str_chars t)"
  shows "is_scalar c \<and> \<not> is_whitespace c"
proof -
  obtain p where p: "p \<in> set (split_on is_whitespace (str_chars s))" "t = concat p"
    using assms(1) by (auto simp: split_whitespace_def)
  have sc: "is_scalar d" if "d \<in> set p" for d
    by (rule str_chars_scalar [OF split_on_elems [OF p(1) that]])
  then have "str_chars t = p" using p(2) by (simp add: str_chars_concat)
  then have "c \<in> set p" using assms(2) by simp
  with sc split_on_pieces [OF p(1)] show ?thesis by blast
qed

lemma join_with_elems: "x \<in> set (join_with sep xss) \<Longrightarrow> x \<in> set sep \<or> (\<exists>xs \<in> set xss. x \<in> set xs)"
  by (induction sep xss rule: join_with.induct) auto

lemma token_one_line:
  assumes "t \<in> set (split_whitespace s)" and "c \<in> set (str_chars t)"
  shows "one_line c"
proof -
  have w: "is_whitespace [CHR 0x0A]" "is_whitespace [CHR 0x0D]"
    by (simp_all add: is_whitespace_def byte_def)
  then have "c \<noteq> [CHR 0x0A]" "c \<noteq> [CHR 0x0D]" using token_chars [OF assms] by auto
  with token_chars [OF assms] show ?thesis using scalar_one_line [of c] by simp
qed

lemma preview_one_line [simp]: "one_line (compact_whitespace_preview input n)"
proof -
  have "one_line c" if "c \<in> set (take n (join_with ['' ''] (map str_chars (split_whitespace input))))" for c
  proof -
    from that have "c \<in> set (join_with ['' ''] (map str_chars (split_whitespace input)))"
      by (meson in_set_takeD)
    from join_with_elems [OF this] show ?thesis using token_one_line by auto
  qed
  then show ?thesis by (simp add: preview_spec one_line_concat)
qed

lemma describe_value_one_line [simp]: "one_line (describe_json_value vb v)"
  by (cases v) simp_all

lemma describe_keys_one_line: "\<forall>k \<in> set keys. one_line k \<Longrightarrow> one_line (describe_keys vb m keys)"
  by (induction keys) (auto split: option.split)

text \<open>
  Claim C37. A server cannot forge log lines: whatever status and body the list server answers with, the
  text of the resulting error has no line feed and no carriage return, as long as the HTTP library's own
  texts have none; the excerpt of the body in it is valid UTF-8 of at most 200 characters. A failed fetch
  yields no entries and leaves the ETag file alone.
\<close>

theorem fetch_error_one_line:
  assumes "fetch_detectable S send etag = Inl e"
    and "one_line send_text" and "\<And>n. one_line (status_text n)"
  shows "load_detectable_entries S send writable etag = ([], etag)
    \<and> one_line (fetch_error_text S vb status_text send_text e)
    \<and> (\<forall>body. \<exists>cs. length cs \<le> 200 \<and> (\<forall>c \<in> set cs. is_scalar c)
        \<and> compact_whitespace_preview (from_utf8_lossy (bytes_str body)) 200 = concat cs)"
proof (intro conjI)
  show "load_detectable_entries S send writable etag = ([], etag)"
    using assms(1) by (simp add: load_detectable_entries_def)
  have keys: "one_line (describe_keys vb m [''applications'', ''data'', ''results''])" for m
    by (rule describe_keys_one_line) (simp add: one_line_def)
  have "one_line (describe_payload_shape S vb body)" for body
    by (simp add: describe_payload_shape_def keys split: option.split json.split list.split)
  with assms(2,3) show "one_line (fetch_error_text S vb status_text send_text e)"
    by (cases e) simp_all
  have "\<exists>cs. length cs \<le> 200 \<and> (\<forall>c \<in> set cs. is_scalar c)
      \<and> compact_whitespace_preview (from_utf8_lossy (bytes_str body)) 200 = concat cs" for body
  proof -
    let ?ts = "split_whitespace (from_utf8_lossy (bytes_str body))"
    let ?cs = "take 200 (join_with ['' ''] (map str_chars ?ts))"
    have "is_scalar c" if "c \<in> set ?cs" for c
    proof -
      from that have "c \<in> set (join_with ['' ''] (map str_chars ?ts))" by (meson in_set_takeD)
      from join_with_elems [OF this] show ?thesis
        using token_chars by (auto simp: byte_def)
    qed
    then show ?thesis by (intro exI [of _ ?cs]) (simp add: preview_spec)
  qed
  then show "\<forall>body. \<exists>cs. length cs \<le> 200 \<and> (\<forall>c \<in> set cs. is_scalar c)
      \<and> compact_whitespace_preview (from_utf8_lossy (bytes_str body)) 200 = concat cs" by blast
qed

theorem fetch_error_one_line_witness:
  "fetch_detectable sample_serde (\<lambda>_. Some \<lparr>rs_status = 503, rs_etag = None, rs_body = [0x61, 0x0A, 0x62, 0xFF]\<rparr>) None
     = Inl (BadStatus 503 [0x61, 0x0A, 0x62, 0xFF])
   \<and> one_line (fetch_error_text sample_serde (\<lambda>_. True) dec_nat ''timeout'' (BadStatus 503 [0x61, 0x0A, 0x62, 0xFF]))"
proof -
  have f: "fetch_detectable sample_serde
      (\<lambda>_. Some \<lparr>rs_status = 503, rs_etag = None, rs_body = [0x61, 0x0A, 0x62, 0xFF]\<rparr>) None
     = Inl (BadStatus 503 [0x61, 0x0A, 0x62, 0xFF])"
    by (simp add: fetch_detectable_def)
  from fetch_error_one_line [OF f, of "''timeout''" dec_nat] f show ?thesis by simp
qed

end
