(* ===== verification/Spec2Isabelle.thy ===== *)
theory Spec2Isabelle
  imports Response Presence Watch Connection Launch Scanner_System Fst_File Payload_Text
begin

text \<open>
  A verification library for dirpc, a Discord Rich Presence server in Rust (\<open>src/src\<close>).

  \<^bold>\<open>The program.\<close> Clients connect over a Unix socket (\<open>transports/ipc.rs\<close>) or a WebSocket
  (\<open>transports/websocket.rs\<close>), shake hands, get a socket id and are registered with the server
  (\<open>server.rs\<close>). Their RPC messages go through \<open>ServerState::handle_message\<close>, which broadcasts activity
  events and queues responses. The process scanner (\<open>process/mod.rs\<close>) matches the running processes
  against Discord's list of detectable games (\<open>process/detectable.rs\<close>) and sends messages of its own under
  socket id 0. The bridge (\<open>bridge.rs\<close>) keeps the last message of each socket, sends it to new bridge
  clients and forwards every event to all of them.

  \<^bold>\<open>The theories.\<close> Each models one part, in the order of the code, and proves what makes it correct.
  \<^item> \<open>Prelude\<close>, \<open>Utf8\<close>: Rust's strings as bytes, checked slices, outcomes of code that may panic (\<open>exec\<close>),
    UTF-8, white space, lines; lemmas on lists and maps. \<open>Json\<close>: \<open>serde_json::Value\<close>.
  \<^item> \<open>Types\<close> (\<open>types.rs\<close>): messages, events, opcodes. \<open>Ipc_Codec\<close> (\<open>encode\<close>, \<open>decode\<close>, \<open>read_frame\<close>): round
    trips, and exactly when \<open>decode\<close> panics.
  \<^item> \<open>Paths\<close> (\<open>path_filename\<close>, \<open>strip_64_suffix\<close>, \<open>path_variants\<close>): equality with declarative versions.
    \<open>Detectable\<close>: the linear scan and the match against one archived entry, against one criterion.
    \<open>Detectable_Db\<close>: the database; \<open>Db_Spec\<close>, \<open>Db_Sample\<close>, \<open>Db_Open\<close>, \<open>Db_Match\<close>: a rebuilt handle represents
    its entries, opening restores it, the lookup returns the first matching candidate. \<open>Fst_File\<close>: the
    temporary sibling and the replacement of the FST file system call by system call, by writers that may
    interleave and fail anywhere; it refines the atomic \<open>write_fst_file\<close> of \<open>Detectable_Db\<close>.
    \<open>Payload\<close>: the HTTP response and its parsing. \<open>Text_Format\<close>, \<open>Payload_Text\<close>: lossy decoding of bytes, the
    \<open>{:?}\<close> format of strings, and the texts of failed fetches, which never break a log line.
  \<^item> \<open>Server\<close> (\<open>server.rs\<close>); \<open>Server_Spec\<close>, \<open>Server_Activity\<close>, \<open>Server_Steps\<close>, \<open>Server_Typing\<close>: timestamps,
    the effects and contents of every command, the invariant under interleaving, socket ids, JSON values
    without duplicate keys.
  \<^item> \<open>Scanner\<close> (\<open>process/mod.rs\<close>); \<open>Scanner_Spec\<close>, \<open>Scanner_Props\<close>, \<open>Scanner_Loop\<close>: one scan, repeated scans,
    start-up, refresh, one tick of the loop. \<open>Processes\<close>: the process list and series of listings, some of
    which fail. \<open>Scanner_Run\<close>: the whole task \<open>start_process_scanner\<close>, turn after turn, with every failure.
  \<^item> \<open>Bridge\<close> (\<open>bridge.rs\<close>): the feed, lagging, catch-up of a client.
  \<^item> \<open>Websocket\<close>, \<open>Session\<close>, \<open>Session_Spec\<close>: the upgrade and its bound, both session loops, the IPC reader
    under \<open>select!\<close>, the choice of the IPC socket. \<open>Session_Owned\<close>: what a session may touch.
    \<open>Response\<close>: every answerable request is answered.
  \<^item> \<open>System\<close>: the whole program as one transition system, its invariant, the isolation of sessions, and
    what the bridge shows. \<open>Presence\<close>: its abstract specification, a board on which participants join,
    announce an activity and leave, and the refinement. \<open>Scanner_System\<close>: the scanner task is a run
    of the system. \<open>Watch\<close>: the system with bridge clients that come, collect their snapshot entry by
    entry, read and go, while the feed stores and broadcasts in two steps; each client is told all it
    needs. \<open>System_Typing\<close>: no step of a session
    panics, and every text the bridge sends is the message of an event, a JSON object of known form.
    \<open>Connection\<close>: the whole task of a connection, handshake and loop, and when it panics.
  \<^item> \<open>Startup\<close>: the command line, the accept loops, named pipes, the cache paths. \<open>Launch\<close> (\<open>main.rs\<close>): the
    starts of the tasks in any order, with their failures; which run then, and when the process ends.
  This theory states two more properties that span several parts.

  \<^bold>\<open>How state is modelled.\<close> A struct is a record and a method returns the updated record. The broadcast of
  activity events is the log of what was sent, a receiver a position in it; bounded queues live in a store
  of channels, because registry and connection share them. The channels follow the documented behaviour of
  tokio (a full queue refuses, a receiver that is overtaken lags). The disk holds the redb file (its two tables)
  and the FST file. Concurrency is explicit: a relation with one rule per atomic operation for the server,
  sequences of inputs for a session (which \<open>select!\<close> branch is polled is an input), positions for the
  bridge, and in \<open>System\<close> one relation for all of them, in which a connection's handshake, one turn of its
  loop, one message of the scanner and one turn of the feed are single steps. \<open>Watch\<close> splits the steps that
  share the map of last messages, \<open>Fst_File\<close> those that share the cache directory. A parameter \<open>lag\<close> says
  whether runs are included in which a receiver is overtaken; what holds without lagging only says so.

  \<^bold>\<open>Parameters.\<close> Third-party code is an argument with its documented behaviour as a locale: the JSON map
  and serialiser (\<open>json_library\<close>), UTF-8 validation (\<open>utf8_validator\<close>), rkyv and fst (\<open>db_library\<close>), the
  iteration order of a hash map (\<open>hash_order\<close>), the serde decoders, the HTTP parser of sockudo_ws, what
  sysinfo reports of a process, the table of printable characters, the phrases of HTTP statuses. The
  locales \<open>prefilter\<close>, \<open>logged_system\<close>, \<open>last_write\<close>, \<open>session\<close> (extended by \<open>owned_session\<close> and
  \<open>outbox\<close>), \<open>simulation\<close> and \<open>scanner_env\<close> are contracts between the
  program's own parts; they are interpreted for the model's definitions.

  \<^bold>\<open>Bounds.\<close> Every function of the model is total. \<open>clock_ok\<close> (a clock below \<open>10 ^ 18\<close> milliseconds, some
  thirty million years) is what rules out the overflow in \<open>maybe_to_ms\<close>; queue, broadcast and handshake
  limits are the constants of the code; the codec keeps the widths of the code.

  \<^bold>\<open>Not modelled.\<close> Log lines, apart from the texts of failed fetches; parsing the command line;
  \<open>get_ws_config\<close>, which only sets options of sockudo_ws; sysinfo itself; the Windows cache directory;
  writes that the kernel had accepted and a power failure loses (the code does not fsync; redb commits
  whole, \<open>rename\<close> is atomic); running out of memory (\<open>read_frame\<close> allocates what a frame's length field asks
  for, up to 4 GiB). Failing reads of redb in a lookup are \<open>db_match_reading\<close>; the scanner is modelled with
  reads that succeed, as is the reading of the tables at opening. That two calls of \<open>write_fst_file\<close> differ
  in process id or time is an assumption of the theorem about them, not ensured by the code. In \<open>System\<close> and
  \<open>Presence\<close> one turn of the feed, which updates the map and then broadcasts, is one step, and so is a
  handshake with the registration after it.
\<close>

section \<open>Sessions and the bridge\<close>

text \<open>
  When an IPC session has ended and the feed task, without lagging, has processed the broadcast
  up to that point, the bridge no longer holds anything for the session's socket, so no client that
  connects later is shown its activity.
\<close>

theorem ended_session_leaves_bridge:
  assumes "total_lib J" and "ipc_handshake W frame socket True rx st = (Some c, st1)"
    and "run_steps (ipc_step W J ovf) is (c, st1) = Ret (c', st')" and "\<not> ic_open c'"
  shows "last_msgs (fold (feed_event J) (activity_tx st') br) (ic_socket_id c) = None"
proof -
  have o: "ic_open c" using assms(2)
    by (auto simp: ipc_handshake_def Let_def case_prod_unfold split: option.splits if_splits)
  obtain evs where l: "activity_tx st' = evs @ [null_event (ic_socket_id c)]"
    using ipc.run_result [OF assms(3) o] assms(4) by (auto simp: has_ended_def)
  then show ?thesis
    unfolding fold_feed_event [OF assms(1)] by (simp add: feed_all_def upd_last_def null_event_def)
qed

theorem ended_session_leaves_bridge_witness:
  "\<exists>c st1 c' st'. ipc_handshake sample_wire (Some (0, [])) [] True 0 server_new = (Some c, st1)
    \<and> run_steps (ipc_step sample_wire ordered_lib True) [PeerEof, PollRead sample_clock True] (c, st1) = Ret (c', st')
    \<and> last_msgs (fold (feed_event ordered_lib) (activity_tx st') (bridge_new\<lparr>last_msgs := [1 \<mapsto> ''old'']\<rparr>)) 1 = None"
proof -
  obtain c st1 where h: "ipc_handshake sample_wire (Some (0, [])) [] True 0 server_new = (Some c, st1)"
    and c: "ic_socket_id c = 1" "ic_open c" "ic_eof c = False" "ic_reader c = ([], [])"
    using sample_handshake .
  obtain c' st' where r: "run_steps (ipc_step sample_wire ordered_lib True)
      [PeerEof, PollRead sample_clock True] (c, st1) = Ret (c', st')" and e: "\<not> ic_open c'"
    using c by (simp add: read_frame_short Let_def ipc_end_def)
  from ended_session_leaves_bridge [OF total_ordered h r e] c h r show ?thesis by metis
qed

section \<open>The scanner and the bridge\<close>

text \<open>
  Claim C31. All games of the scanner share socket id 0, and the bridge keeps one message per socket: when
  a scan loses a game, the bridge ends up holding nothing for the scanner, even if other games that it
  detected are still running and still in \<open>active\<close>.
\<close>

theorem lost_game_hides_running_ones:
  assumes "scan_setting L J order clock entries db ps" and "distinct (map pi_pid ps)"
    and "distinct_keys active" and "total_lib J"
    and "dom (map_of active) - dom (db_games entries ps) \<noteq> {}"
  shows "\<exists>active' evs. scan_once L J ovf order clock db active ps st = Ret (active', push_events evs st)
    \<and> map_of active' = db_games entries ps
    \<and> last_msgs (fold (feed_event J) evs br) 0 = None"
proof -
  let ?mp = "db_match_process L db"
  note env = scan_setting_env [OF assms(1)]
  let ?dropped = "scanner_env.dropped order ?mp ps active"
  obtain evs where r: "scan_with ?mp J ovf order clock active ps st = Ret (kept ?mp ps active, push_events evs st)"
    and e: "map ev_summary evs = detections ?mp ps active @ map (lost \<circ> fst) ?dropped"
    using scanner_env.scan_result [OF env(1,2)] by metis
  have "fst ` set ?dropped \<noteq> {}"
    using assms(5) by (simp only: scanner_env.dropped_keys [OF env(1)] games_db_games [OF assms(1)]) simp
  then have ne: "?dropped \<noteq> []" by auto
  then have "last (map ev_summary evs) = lost (fst (last ?dropped))" by (simp add: e last_map)
  moreover have evs: "evs \<noteq> []" using e ne by auto
  ultimately have "ev_summary (last evs) = lost (fst (last ?dropped))" by (simp add: last_map)
  then have l: "ev_activity (last evs) = None" "ev_socket_id (last evs) = 0"
    by (auto simp: ev_summary_def lost_def)
  have "evs = butlast evs @ [last evs]" using evs by simp
  then have "fold (upd_last J) evs (last_msgs br) = upd_last J (last evs) (fold (upd_last J) (butlast evs) (last_msgs br))"
    by (metis comp_apply fold_append fold_simps(1) fold_simps(2))
  then have "last_msgs (fold (feed_event J) evs br) 0 = None"
    using l by (simp add: fold_feed_event [OF assms(4)] feed_all_def upd_last_def)
  moreover have "scan_once L J ovf order clock db active ps st = Ret (kept ?mp ps active, push_events evs st)"
    using r by (simp only: scan_once_def)
  moreover have "map_of (kept ?mp ps active) = db_games entries ps"
    by (simp only: map_of_kept games_db_games [OF assms(1)])
  ultimately show ?thesis by blast
qed

theorem lost_game_hides_running_ones_witness:
  "\<exists>db active' evs.
    scan_once sample_lib ordered_lib True (\<lambda>m. m) (\<lambda>_. (0, sample_clock)) db [(12, ''9''), (11, ''3'')]
        sample_procs server_new = Ret (active', push_events evs server_new)
    \<and> map_of active' 11 = Some ''3''
    \<and> last_msgs (fold (feed_event ordered_lib) evs bridge_new) 0 = None"
proof -
  obtain db where s: "scan_setting sample_lib ordered_lib (\<lambda>m. m) (\<lambda>_. (0, sample_clock)) sample_entries3 db sample_procs"
    using sample_setting .
  have g: "db_games sample_entries3 sample_procs = [10 \<mapsto> ''2'', 11 \<mapsto> ''3'']"
    using sample_games by (auto simp: db_games_def sample_procs_def fun_eq_iff)
  have d: "distinct (map pi_pid sample_procs)" "distinct_keys [(12 :: u32, ''9''), (11, ''3'')]"
    by (simp_all add: sample_procs_def)
  have "dom (map_of [(12 :: u32, ''9''), (11, ''3'')]) - dom (db_games sample_entries3 sample_procs) \<noteq> {}"
    unfolding g by auto
  from lost_game_hides_running_ones [OF s d total_ordered this, of True server_new bridge_new]
  obtain active' evs where "scan_once sample_lib ordered_lib True (\<lambda>m. m) (\<lambda>_. (0, sample_clock)) db
        [(12, ''9''), (11, ''3'')] sample_procs server_new = Ret (active', push_events evs server_new)"
    and "map_of active' = db_games sample_entries3 sample_procs"
    and "last_msgs (fold (feed_event ordered_lib) evs bridge_new) 0 = None" by blast
  then show ?thesis unfolding g by (intro exI conjI) auto
qed

section \<open>The built-in entries\<close>

text \<open>\<open>sample_entries\<close> of \<open>lib.rs\<close>.\<close>

definition sample_entries :: "detectable_entry list" where
  "sample_entries =
     [\<lparr>de_id = ''359550717720469504'', de_name = ''Counter-Strike: Global Offensive'',
       de_executables = [\<lparr>exe_name = ''csgo'', exe_is_launcher = False, exe_arguments = None, exe_os = None\<rparr>]\<rparr>,
      \<lparr>de_id = ''356869127241924608'', de_name = ''Overwatch'',
       de_executables = [\<lparr>exe_name = ''overwatch.exe'', exe_is_launcher = False, exe_arguments = None, exe_os = None\<rparr>]\<rparr>,
      \<lparr>de_id = ''1073232715901124688'', de_name = ''Counter-Strike 2'',
       de_executables = [\<lparr>exe_name = ''cs2'', exe_is_launcher = False, exe_arguments = None, exe_os = None\<rparr>]\<rparr>]"


text \<open>
  A process whose filename is \<open>csgo\<close>, \<open>overwatch.exe\<close> or \<open>cs2\<close>, in whatever directory and with
  whatever arguments, is found among the built-in entries.
\<close>

theorem sample_entries_found:
  assumes "valid_utf8 path" and "last_component path \<in> {''csgo'', ''overwatch.exe'', ''cs2''}"
  shows "\<exists>e \<in> set sample_entries. match_process path args sample_entries = Ret (Some e)
    \<and> entry_matches (variants_of (last_four (components path))) (last_component path) args e"
proof -
  let ?P = "entry_matches (variants_of (last_four (components path))) (last_component path) args"
  have ne: "components path \<noteq> []" using assms(2) by (auto simp: last_component_def)
  then have l: "last_component path \<in> set (variants_of (last_four (components path)))"
    using variants_of_last [of "last_four (components path)"] last_last_four [OF ne]
    by (simp add: last_component_def)
  have "\<exists>e \<in> set sample_entries. ?P e"
    using assms(2) l
    by (auto simp: sample_entries_def entry_matches_def name_matches_def args_match_def starts_with_gt_def)
  then obtain e where e: "find ?P sample_entries = Some e"
    by (cases "find ?P sample_entries") (auto simp: find_None_iff)
  with find_SomeD [OF e] show ?thesis by (simp add: match_process_find [OF assms(1)])
qed

theorem sample_entries_found_witness:
  "\<exists>e \<in> set sample_entries. match_process ''/opt/games/cs2'' [] sample_entries = Ret (Some e)"
proof -
  have v: "valid_utf8 ''/opt/games/cs2''" by (simp add: valid_utf8_ascii is_ascii_def byte_def)
  have "last_component ''/opt/games/cs2'' = ''cs2''" by code_simp
  then have "last_component ''/opt/games/cs2'' \<in> {''csgo'', ''overwatch.exe'', ''cs2''}" by simp
  from sample_entries_found [OF v this] show ?thesis by blast
qed

end
